(* ===== verification/Capt_Prelude.thy ===== *)
theory Capt_Prelude
  imports Main "HOL-Library.Word"
begin

text \<open>
  What the components share: the names of the machine types, the ways in which an
  operation of the library can fail, the plumbing of operations that can fail, and the
  arithmetic of the bit fields of a byte.

  A \<^verbatim>\<open>uint8_t\<close> is an 8 bit word, a \<^verbatim>\<open>uint16_t\<close> a 16 bit
  word, a \<^verbatim>\<open>uint32_t\<close> a 32 bit word. Loop counters and lengths of type
  \<^verbatim>\<open>unsigned\<close> and \<^verbatim>\<open>std::size_t\<close> are natural numbers; where the
  code converts a \<^verbatim>\<open>std::size_t\<close> to \<^verbatim>\<open>unsigned\<close>, or adds two
  \<^verbatim>\<open>unsigned\<close> values that are not bounded by a guard, the model applies
  \<open>to_unsigned\<close>, so the truncation to 32 bits is written out.
\<close>

unbundle bit_operations_syntax

type_synonym byte = "8 word"
type_synonym u16 = "16 word"
type_synonym u32 = "32 word"

named_theorems fault_simps \<open>how operations that can fail compose\<close>
named_theorems byte_fields \<open>bit fields of a byte as arithmetic\<close>
named_theorems source_laws \<open>what a read does to the bytes a stream still has\<close>

subsection \<open>Failures\<close>

text \<open>The messages of \<^verbatim>\<open>Compression/Decoder/DecoderStreambuf.cpp\<close>.\<close>

datatype decoder_error =
    UnexpectedEOF
  | InsufficientBuffer
  | BoundsError string int int int
  | UnknownCommand byte
  | OddVideoSize

text \<open>
  An operation can stop in six ways: a failed \<^verbatim>\<open>assert\<close>, an operation
  whose behaviour the language leaves undefined (a read past the end of a vector, a
  division by zero), a loop that never ends, an exception of the decoder, an exception of
  the rest of the library, an exception of an example program with its message.
\<close>

datatype capt_error =
    OutOfRange
  | PacketSizeOverflow
  | ImpossiblePacketSize
  | UnexpectedOpcode u16 u16
  | StatusError byte
  | UnexpectedReturnCode string byte
  | FailedToReserve
  | FailedToOffline
  | FailedToRelease
  | BadOptionalAccess

datatype fault =
    AssertionFailed
  | UndefinedBehaviour
  | Diverges
  | DecoderFailure decoder_error
  | CaptFailure capt_error
  | RuntimeError string

definition bindR :: "'e + 'a \<Rightarrow> ('a \<Rightarrow> 'e + 'b) \<Rightarrow> 'e + 'b" where
  "bindR m f = (case m of Inl e \<Rightarrow> Inl e | Inr x \<Rightarrow> f x)"

definition assertR :: "bool \<Rightarrow> (fault + 'a) \<Rightarrow> fault + 'a" where
  "assertR P m = (if P then m else Inl AssertionFailed)"

lemma bindR_Inl [simp, fault_simps]: "bindR (Inl e) f = Inl e"
  by (simp add: bindR_def)

lemma bindR_Inr [simp, fault_simps]: "bindR (Inr x) f = f x"
  by (simp add: bindR_def)

lemma bindR_assoc [fault_simps]: "bindR (bindR m f) g = bindR m (\<lambda>x. bindR (f x) g)"
  by (simp add: bindR_def split: sum.splits)

lemma bindR_eq_InrE:
  assumes "bindR m f = Inr y"
  obtains x where "m = Inr x" and "f x = Inr y"
  using assms by (auto simp: bindR_def split: sum.splits)

lemma assertR_True [simp, fault_simps]: "P \<Longrightarrow> assertR P m = m"
  by (simp add: assertR_def)

lemma assertR_False [simp, fault_simps]: "\<not> P \<Longrightarrow> assertR P m = Inl AssertionFailed"
  by (simp add: assertR_def)

lemma assertR_eq_Inr: "assertR P m = Inr x \<longleftrightarrow> P \<and> m = Inr x"
  by (simp add: assertR_def)

subsection \<open>Conversions to narrower integers\<close>

definition to_unsigned :: "nat \<Rightarrow> nat" where
  "to_unsigned n = n mod 2 ^ 32"

lemma to_unsigned_id [simp]: "n < 2 ^ 32 \<Longrightarrow> to_unsigned n = n"
  by (simp add: to_unsigned_def)

lemma to_unsigned_less [simp]: "to_unsigned n < 2 ^ 32"
  by (simp add: to_unsigned_def)

lemma unat_byte_less [simp]: "unat (b :: byte) < 256"
  using unsigned_less [of b] by simp

lemma unat_byte_of_nat [byte_fields]: "unat (word_of_nat n :: byte) = n mod 256"
  by (simp add: unat_of_nat)

subsection \<open>Bit fields of a byte\<close>

text \<open>
  The masks and shifts of the code on the left, their meaning as division and remainder
  on the right. The encoder builds a header byte from disjoint fields, so its
  \<open>OR\<close> is an addition; the decoder takes the fields out again.
\<close>

lemma byte_eq_iff [byte_fields]: "(b :: byte) = c \<longleftrightarrow> unat b = unat c"
  by (simp add: word_unat_eq_iff)

lemma byte_low3 [byte_fields]: "unat (b AND 7 :: byte) = unat b mod 8"
proof -
  have "b AND 7 = take_bit 3 b" by (simp add: take_bit_eq_mask mask_eq_exp_minus_1)
  then show ?thesis by (simp add: take_bit_eq_mod unat_mod)
qed

lemma byte_low5 [byte_fields]: "unat (b AND 0x1f :: byte) = unat b mod 32"
proof -
  have "b AND 0x1f = take_bit 5 b" by (simp add: take_bit_eq_mask mask_eq_exp_minus_1)
  then show ?thesis by (simp add: take_bit_eq_mod unat_mod)
qed

lemma byte_mid3 [byte_fields]: "unat (drop_bit 3 b AND 7 :: byte) = unat b div 8 mod 8"
  by (simp only: byte_low3 unat_drop_bit_eq) (simp add: drop_bit_eq_div)

lemma byte_low5_shifted [byte_fields]:
  "unat (push_bit 3 (b AND 0x1f) :: byte) = 8 * (unat b mod 32)"
proof -
  have "8 * (unat b mod 32) < 256" by simp
  then show ?thesis
    by (simp only: unsigned_push_bit_eq byte_low5) (simp add: push_bit_eq_mult take_bit_eq_mod)
qed

lemma bit_index_cases: "n < 8 \<Longrightarrow> n \<in> {0, 1, 2, 3, 4, 5, 6, 7 :: nat}"
  by auto

lemma byte_top3: "unat (b AND 0xe0 :: byte) = 32 * (unat b div 32)"
proof -
  have "b AND 0xe0 = push_bit 5 (drop_bit 5 b)"
  proof (rule bit_word_eqI)
    fix n assume "n < LENGTH(8)"
    then have "n \<in> {0, 1, 2, 3, 4, 5, 6, 7}" using bit_index_cases [of n] by simp
    then show "bit (b AND 0xe0) n = bit (push_bit 5 (drop_bit 5 b)) n"
      by (auto simp: bit_simps)
  qed
  moreover have "32 * (unat b div 32) < 256" using unat_byte_less [of b] by linarith
  ultimately show ?thesis
    by (simp only: unsigned_push_bit_eq unat_drop_bit_eq)
      (simp add: push_bit_eq_mult drop_bit_eq_div take_bit_eq_mod)
qed

lemma byte_top2: "unat (b AND 0xc0 :: byte) = 64 * (unat b div 64)"
proof -
  have "b AND 0xc0 = push_bit 6 (drop_bit 6 b)"
  proof (rule bit_word_eqI)
    fix n assume "n < LENGTH(8)"
    then have "n \<in> {0, 1, 2, 3, 4, 5, 6, 7}" using bit_index_cases [of n] by simp
    then show "bit (b AND 0xc0) n = bit (push_bit 6 (drop_bit 6 b)) n"
      by (auto simp: bit_simps)
  qed
  moreover have "64 * (unat b div 64) < 256" using unat_byte_less [of b] by linarith
  ultimately show ?thesis
    by (simp only: unsigned_push_bit_eq unat_drop_bit_eq)
      (simp add: push_bit_eq_mult drop_bit_eq_div take_bit_eq_mod)
qed

lemma byte_top_cases [byte_fields]:
  "(b AND 0xe0 = (0xa0 :: byte)) = (unat b div 32 = 5)"
  "(b AND 0xe0 = (0x80 :: byte)) = (unat b div 32 = 4)"
  "(b AND 0xc0 = (0 :: byte)) = (unat b div 64 = 0)"
  "(b AND 0xc0 = (0x40 :: byte)) = (unat b div 64 = 1)"
  "(b AND 0xc0 = (0x80 :: byte)) = (unat b div 64 = 2)"
  "(b AND 0xc0 = (0xc0 :: byte)) = (unat b div 64 = 3)"
  by (simp_all add: word_unat_eq_iff byte_top2 byte_top3)

lemma nat_and_7 [byte_fields]: "(n :: nat) AND 7 = n mod 8"
proof -
  have "n AND mask 3 = n mod 2 ^ 3" by (simp only: take_bit_eq_mask [symmetric] take_bit_eq_mod)
  then show ?thesis by (simp add: mask_eq_exp_minus_1)
qed

lemma nat_and_31 [byte_fields]: "(n :: nat) AND 0x1f = n mod 32"
proof -
  have "n AND mask 5 = n mod 2 ^ 5" by (simp only: take_bit_eq_mask [symmetric] take_bit_eq_mod)
  then show ?thesis by (simp add: mask_eq_exp_minus_1)
qed

lemma nat_shifts_3 [byte_fields]:
  "drop_bit 3 (n :: nat) = n div 8" "push_bit 3 (n :: nat) = 8 * n"
  by (simp_all add: drop_bit_eq_div push_bit_eq_mult)

lemma or_disjoint:
  assumes "c < 2 ^ k"
  shows "(2 ^ k * a :: nat) OR c = 2 ^ k * a + c"
proof -
  have "take_bit k c = c" using assms by (simp add: take_bit_eq_mod)
  then have low: "n < k" if "bit c n" for n using that by (metis bit_take_bit_iff)
  have "push_bit k a + c = push_bit k a OR c"
  proof (rule disjunctive_add)
    fix n show "\<not> bit (push_bit k a) n \<or> \<not> bit c n"
      using low [of n] by (auto simp: bit_simps)
  qed
  then show ?thesis by (simp add: push_bit_eq_mult mult.commute)
qed

lemma or_field5 [byte_fields]:
  assumes "k < (32 :: nat)"
  shows "0x80 OR k = 128 + k" and "0xa0 OR k = 160 + k"
  using or_disjoint [of k 5 4] or_disjoint [of k 5 5] assms by simp_all

lemma or_field3 [byte_fields]:
  assumes "c < (8 :: nat)"
  shows "0xc0 OR c = 192 + c" and "8 * r OR c = 8 * r + c"
  using or_disjoint [of c 3 24] or_disjoint [of c 3 r] assms by simp_all

lemma or_field_mid [byte_fields]:
  assumes "r < (8 :: nat)"
  shows "0x40 OR 8 * r = 64 + 8 * r" and "0x80 OR 8 * r = 128 + 8 * r"
    and "0xc0 OR 8 * r = 192 + 8 * r"
  using or_disjoint [of "8 * r" 6 1] or_disjoint [of "8 * r" 6 2] or_disjoint [of "8 * r" 6 3]
    assms by simp_all

lemma or_field_low [byte_fields]:
  assumes "c < (8 :: nat)"
  shows "64 + 8 * r OR c = 64 + 8 * r + c" and "128 + 8 * r OR c = 128 + 8 * r + c"
    and "192 + 8 * r OR c = 192 + 8 * r + c"
  using or_field3(2) [OF assms, of "8 + r"] or_field3(2) [OF assms, of "16 + r"]
    or_field3(2) [OF assms, of "24 + r"] by simp_all

subsection \<open>Lists\<close>

definition hd_opt :: "'a list \<Rightarrow> 'a option" where
  "hd_opt xs = (case xs of [] \<Rightarrow> None | x # _ \<Rightarrow> Some x)"

lemma hd_opt_simps [simp]: "hd_opt [] = None" "hd_opt (x # xs) = Some x"
  by (simp_all add: hd_opt_def)

lemma hd_opt_append [simp]: "hd_opt (xs @ ys) = (if xs = [] then hd_opt ys else hd_opt xs)"
  by (cases xs) simp_all

lemma hd_opt_drop [simp]: "i < length xs \<Longrightarrow> hd_opt (drop i xs) = Some (xs ! i)"
  by (simp add: Cons_nth_drop_Suc [symmetric])

lemma take_drop_append:
  "i + m \<le> length xs \<Longrightarrow> take (m + n) (drop i xs) = take m (drop i xs) @ take n (drop (i + m) xs)"
  by (simp add: take_add add.commute)

text \<open>\<^verbatim>\<open>std::vector::resize\<close>: cut, or filled up with zeros.\<close>

definition resize :: "nat \<Rightarrow> byte list \<Rightarrow> byte list" where
  "resize n xs = take n xs @ replicate (n - length xs) 0"

lemma length_resize [simp]: "length (resize n xs) = n"
  by (simp add: resize_def)

end
