(* ===== verification/Stream_Buffer.thy ===== *)
theory Stream_Buffer
  imports Capt_Prelude
begin

text \<open>
  The part of \<^verbatim>\<open>std::streambuf\<close> the library builds on, and the contract
  its classes keep with each other.

  Every stream class of the library derives from \<^verbatim>\<open>std::streambuf\<close> and
  reads from another one through the virtual functions behind
  \<^verbatim>\<open>sgetc\<close>, \<^verbatim>\<open>sbumpc\<close> and \<^verbatim>\<open>sgetn\<close>. The
  record \<open>streambuf_ops\<close> is that virtual interface: three functions on the state of
  a stream, each of which returns what was read and the new state, or a fault. A class
  that reads from another stream takes the \<open>streambuf_ops\<close> of that stream as an
  argument and keeps its state in a field.

  The locales state the contract: \<open>content\<close> is what the stream will still deliver,
  and a read delivers its next bytes. \<open>line_source\<close> is the weaker contract of a
  stream that is only read in blocks of one fixed size.
\<close>

subsection \<open>The virtual interface and the default implementations\<close>

record 's streambuf_ops =
  sgetc :: "'s \<Rightarrow> fault + (byte option \<times> 's)"
  sbumpc :: "'s \<Rightarrow> fault + (byte option \<times> 's)"
  sgetn :: "nat \<Rightarrow> 's \<Rightarrow> fault + (byte list \<times> 's)"

text \<open>
  The base class keeps the get area: \<open>gdata\<close> are the bytes from
  \<^verbatim>\<open>eback\<close> to \<^verbatim>\<open>egptr\<close>, \<open>gpos\<close> is
  \<^verbatim>\<open>gptr - eback\<close>. Derived classes extend this record.
\<close>

record getarea =
  gdata :: "byte list"
  gpos :: nat

definition area_sgetc ::
  "('z getarea_scheme \<Rightarrow> fault + (byte option \<times> 'z getarea_scheme)) \<Rightarrow>
    'z getarea_scheme \<Rightarrow> fault + (byte option \<times> 'z getarea_scheme)" where
  "area_sgetc underflow b =
    (if gpos b < length (gdata b) then Inr (Some (gdata b ! gpos b), b) else underflow b)"

definition area_uflow ::
  "('z getarea_scheme \<Rightarrow> fault + (byte option \<times> 'z getarea_scheme)) \<Rightarrow>
    'z getarea_scheme \<Rightarrow> fault + (byte option \<times> 'z getarea_scheme)" where
  "area_uflow underflow b = bindR (underflow b) (\<lambda>(c, b').
    case c of None \<Rightarrow> Inr (None, b')
    | Some _ \<Rightarrow>
        if gpos b' < length (gdata b')
        then Inr (Some (gdata b' ! gpos b'), b'\<lparr>gpos := Suc (gpos b')\<rparr>)
        else Inl UndefinedBehaviour)"

definition area_sbumpc ::
  "('z getarea_scheme \<Rightarrow> fault + (byte option \<times> 'z getarea_scheme)) \<Rightarrow>
    'z getarea_scheme \<Rightarrow> fault + (byte option \<times> 'z getarea_scheme)" where
  "area_sbumpc underflow b =
    (if gpos b < length (gdata b)
     then Inr (Some (gdata b ! gpos b), b\<lparr>gpos := Suc (gpos b)\<rparr>)
     else area_uflow underflow b)"

text \<open>
  The default \<^verbatim>\<open>xsgetn\<close> reads as if by repeated
  \<^verbatim>\<open>sbumpc\<close> until it has \<open>n\<close> bytes or meets the end.
\<close>

fun xsgetn :: "('s \<Rightarrow> fault + (byte option \<times> 's)) \<Rightarrow> nat \<Rightarrow> 's \<Rightarrow> fault + (byte list \<times> 's)" where
  "xsgetn bump 0 s = Inr ([], s)"
| "xsgetn bump (Suc n) s = bindR (bump s) (\<lambda>(c, s').
    case c of None \<Rightarrow> Inr ([], s')
    | Some b \<Rightarrow> bindR (xsgetn bump n s') (\<lambda>(bs, s''). Inr (b # bs, s'')))"

definition area_ops ::
  "('z getarea_scheme \<Rightarrow> fault + (byte option \<times> 'z getarea_scheme)) \<Rightarrow>
    'z getarea_scheme streambuf_ops" where
  "area_ops underflow =
    \<lparr>sgetc = area_sgetc underflow, sbumpc = area_sbumpc underflow,
     sgetn = xsgetn (area_sbumpc underflow)\<rparr>"

subsection \<open>The contracts\<close>

definition delivers ::
  "('s \<Rightarrow> bool) \<Rightarrow> ('s \<Rightarrow> byte list) \<Rightarrow> fault + ('a \<times> 's) \<Rightarrow> 'a \<Rightarrow> byte list \<Rightarrow> bool" where
  "delivers ok content r x rest \<longleftrightarrow> (\<exists>s'. r = Inr (x, s') \<and> ok s' \<and> content s' = rest)"

lemma deliversI: "ok s' \<Longrightarrow> content s' = rest \<Longrightarrow> delivers ok content (Inr (x, s')) x rest"
  by (auto simp: delivers_def)

lemma deliversE:
  assumes "delivers ok content r x rest"
  obtains s' where "r = Inr (x, s')" and "ok s'" and "content s' = rest"
  using assms by (auto simp: delivers_def)

lemma delivers_xsgetn:
  assumes bump: "\<And>s. ok s \<Longrightarrow>
    delivers ok content (bump s) (hd_opt (content s)) (tl (content s))"
  shows "ok s \<Longrightarrow> delivers ok content (xsgetn bump n s) (take n (content s)) (drop n (content s))"
proof (induction n arbitrary: s)
  case 0
  then show ?case by (simp add: deliversI)
next
  case (Suc n)
  obtain s' where s': "bump s = Inr (hd_opt (content s), s')" "ok s'" "content s' = tl (content s)"
    using bump [OF Suc.prems] by (rule deliversE)
  show ?case
  proof (cases "content s")
    case Nil
    with s' show ?thesis by (simp add: deliversI)
  next
    case (Cons b bs)
    obtain s'' where "xsgetn bump n s' = Inr (take n bs, s'')" "ok s''" "content s'' = drop n bs"
      using Suc.IH [OF s'(2)] s'(3) Cons by (auto elim: deliversE)
    with s' Cons show ?thesis by (simp add: deliversI)
  qed
qed

locale line_source =
  fixes io :: "'s streambuf_ops"
    and ok :: "'s \<Rightarrow> bool"
    and content :: "'s \<Rightarrow> byte list"
    and lineSize :: nat
  assumes read_line [source_laws]: "ok s \<Longrightarrow>
    delivers ok content (sgetn io lineSize s) (take lineSize (content s)) (drop lineSize (content s))"

locale byte_source =
  fixes io :: "'s streambuf_ops"
    and ok :: "'s \<Rightarrow> bool"
    and content :: "'s \<Rightarrow> byte list"
  assumes peek [source_laws]: "ok s \<Longrightarrow>
      delivers ok content (sgetc io s) (hd_opt (content s)) (content s)"
    and bump [source_laws]: "ok s \<Longrightarrow>
      delivers ok content (sbumpc io s) (hd_opt (content s)) (tl (content s))"
    and read [source_laws]: "ok s \<Longrightarrow>
      delivers ok content (sgetn io n s) (take n (content s)) (drop n (content s))"
begin

lemma read_all: "ok s \<Longrightarrow> length (content s) \<le> n \<Longrightarrow> delivers ok content (sgetn io n s) (content s) []"
  using read [of s n] by simp

lemma read_nothing_at_end:
  "ok s \<Longrightarrow> content s = [] \<Longrightarrow> delivers ok content (sgetn io n s) [] []"
  using read [of s n] by simp

lemma read_in_two:
  assumes "ok s"
  obtains s' where "sgetn io m s = Inr (take m (content s), s')" "ok s'"
    "delivers ok content (sgetn io n s') (take n (drop m (content s))) (drop (m + n) (content s))"
proof -
  obtain s' where s': "sgetn io m s = Inr (take m (content s), s')" "ok s'"
    "content s' = drop m (content s)"
    using read [OF assms] by (rule deliversE)
  with read [OF s'(2), of n] that [of s'] show thesis
    by (simp add: add.commute)
qed

end

sublocale byte_source \<subseteq> line: line_source io ok content n for n
  by unfold_locales (rule read)

text \<open>
  A class that overrides \<^verbatim>\<open>underflow\<close> only: \<open>rest\<close> is what it
  will still produce after the bytes of its get area. When the get area is used up,
  \<^verbatim>\<open>underflow\<close> returns the next byte and leaves it in the get area, or
  reports the end. Then the default functions keep the contract of a byte source.
\<close>

locale underflow_class =
  fixes underflow :: "'z getarea_scheme \<Rightarrow> fault + (byte option \<times> 'z getarea_scheme)"
    and ok :: "'z getarea_scheme \<Rightarrow> bool"
    and rest :: "'z getarea_scheme \<Rightarrow> byte list"
  assumes ok_bump: "ok b \<Longrightarrow> gpos b < length (gdata b) \<Longrightarrow> ok (b\<lparr>gpos := Suc (gpos b)\<rparr>)"
    and rest_gpos: "rest (b\<lparr>gpos := p\<rparr>) = rest b"
    and refill: "ok b \<Longrightarrow> \<not> gpos b < length (gdata b) \<Longrightarrow>
      \<exists>b'. underflow b = Inr (hd_opt (rest b), b') \<and> ok b' \<and>
        drop (gpos b') (gdata b') @ rest b' = rest b \<and>
        (rest b \<noteq> [] \<longrightarrow> gpos b' < length (gdata b'))"
begin

definition stream_content :: "'z getarea_scheme \<Rightarrow> byte list" where
  "stream_content b = drop (gpos b) (gdata b) @ rest b"

lemma stream_content_used_up:
  "\<not> gpos b < length (gdata b) \<Longrightarrow> stream_content b = rest b"
  by (simp add: stream_content_def)

lemma stream_content_bump:
  "gpos b < length (gdata b) \<Longrightarrow>
    stream_content b = gdata b ! gpos b # stream_content (b\<lparr>gpos := Suc (gpos b)\<rparr>)"
  by (simp add: stream_content_def rest_gpos Cons_nth_drop_Suc [symmetric])

lemma sgetc_delivers:
  assumes "ok b"
  shows "delivers ok stream_content (area_sgetc underflow b) (hd_opt (stream_content b)) (stream_content b)"
proof (cases "gpos b < length (gdata b)")
  case True
  with assms show ?thesis by (simp add: area_sgetc_def stream_content_bump delivers_def)
next
  case False
  with refill [OF assms False] show ?thesis
    by (auto simp: area_sgetc_def delivers_def stream_content_used_up [OF False])
      (auto simp: stream_content_def)
qed

lemma sbumpc_delivers:
  assumes "ok b"
  shows "delivers ok stream_content (area_sbumpc underflow b) (hd_opt (stream_content b))
    (tl (stream_content b))"
proof (cases "gpos b < length (gdata b)")
  case True
  with assms show ?thesis
    by (simp add: area_sbumpc_def stream_content_bump deliversI ok_bump)
next
  case False
  obtain b' where b': "underflow b = Inr (hd_opt (rest b), b')" "ok b'"
    "stream_content b' = rest b" "rest b \<noteq> [] \<longrightarrow> gpos b' < length (gdata b')"
    using refill [OF assms False] by (auto simp: stream_content_def)
  show ?thesis
  proof (cases "rest b")
    case Nil
    with False b' show ?thesis
      by (simp add: area_sbumpc_def area_uflow_def stream_content_used_up deliversI)
  next
    case (Cons c cs)
    with b' have "gpos b' < length (gdata b')" by simp
    with stream_content_bump [OF this] b' Cons False show ?thesis
      by (simp add: area_sbumpc_def area_uflow_def stream_content_used_up deliversI ok_bump)
  qed
qed

end

sublocale underflow_class \<subseteq> byte_source "area_ops underflow" ok stream_content
  by unfold_locales
    (simp_all add: area_ops_def sgetc_delivers sbumpc_delivers delivers_xsgetn)

subsection \<open>A stream over memory\<close>

text \<open>
  \<^verbatim>\<open>MemoryStreambuf\<close> is the stream the test-suite uses as a file: its
  state is the vector of the bytes not yet read, it has no get area, it overrides
  \<^verbatim>\<open>underflow\<close> (return the front) and \<^verbatim>\<open>uflow\<close>
  (remove it) and appends what is written.
\<close>

definition memory_underflow :: "byte list \<Rightarrow> fault + (byte option \<times> byte list)" where
  "memory_underflow Buffer = (if Buffer = [] then Inr (None, Buffer) else Inr (Some (Buffer ! 0), Buffer))"

definition memory_uflow :: "byte list \<Rightarrow> fault + (byte option \<times> byte list)" where
  "memory_uflow Buffer = bindR (memory_underflow Buffer) (\<lambda>(val, Buffer').
    case val of None \<Rightarrow> Inr (None, Buffer') | Some c \<Rightarrow> Inr (Some c, drop 1 Buffer'))"

definition memory_ops :: "byte list streambuf_ops" where
  "memory_ops = \<lparr>sgetc = memory_underflow, sbumpc = memory_uflow, sgetn = xsgetn memory_uflow\<rparr>"

lemma memory_underflow_delivers:
  "delivers (\<lambda>_. True) (\<lambda>s. s) (memory_underflow s) (hd_opt s) s"
  by (cases s) (simp_all add: memory_underflow_def delivers_def)

lemma memory_uflow_delivers:
  "delivers (\<lambda>_. True) (\<lambda>s. s) (memory_uflow s) (hd_opt s) (tl s)"
  by (cases s) (simp_all add: memory_uflow_def memory_underflow_def delivers_def)

interpretation memory: byte_source memory_ops "\<lambda>_. True" "\<lambda>s. s"
  by unfold_locales
    (simp_all add: memory_ops_def memory_underflow_delivers memory_uflow_delivers
      delivers_xsgetn [where content = "\<lambda>s. s" and ok = "\<lambda>_. True", simplified])

lemma memory_sbumpc [simp]: "sbumpc memory_ops s = Inr (hd_opt s, tl s)"
  using memory.bump [of s] by (auto elim: deliversE)

lemma memory_sgetc [simp]: "sgetc memory_ops s = Inr (hd_opt s, s)"
  using memory.peek [of s] by (auto elim: deliversE)

lemma memory_sgetn [simp]: "sgetn memory_ops n s = Inr (take n s, drop n s)"
  using memory.read [where s = s and n = n] by (auto elim: deliversE)

end
