(* ===== verification/Scoa_State.thy ===== *)
theory Scoa_State
  imports Stream_Buffer
begin

text \<open>
  The run scanner of the compressor: \<^verbatim>\<open>Compression/ScoaFunc.hpp\<close> and
  \<^verbatim>\<open>Compression/ScoaState.hpp\<close>.

  A \<open>ScoaState\<close> walks over one raster line, next to the line printed before it,
  and hands out the functions (copy from the previous line, repeat a byte, raw bytes)
  that cover the line. It runs one function ahead: \<open>lastF\<close> is the function still
  being extended, \<open>currF\<close> the finished one that \<open>Peek\<close> shows.

  The lemmas show that the scanner is a queue of the list \<open>segments\<close> computes, that
  these functions tile the line without gap or overlap, and that each one is justified by
  the bytes it covers.
\<close>

subsection \<open>Functions\<close>

datatype ScoaFuncType = Copy | Repeat | Raw

record ScoaFunc =
  Type :: ScoaFuncType
  Index :: nat
  Count :: nat

definition Payload :: "ScoaFunc \<Rightarrow> byte list \<Rightarrow> fault + byte list" where
  "Payload f ln =
    assertR (Index f < length ln)
      (assertR (Index f + Count f \<le> length ln)
        (Inr (take (Count f) (drop (Index f) ln))))"

definition func_eq :: "ScoaFunc \<Rightarrow> ScoaFunc \<Rightarrow> bool" where
  "func_eq f other \<longleftrightarrow> Type f = Type other \<and> Index f = Index other \<and> Count f = Count other"

definition func_neq :: "ScoaFunc \<Rightarrow> ScoaFunc \<Rightarrow> bool" where
  "func_neq f other \<longleftrightarrow> \<not> func_eq f other"

lemma func_eq_iff: "func_eq f g \<longleftrightarrow> f = g"
  by (cases f; cases g) (simp add: func_eq_def)

subsection \<open>The scanner\<close>

text \<open>
  \<open>None\<close> in \<open>lastF\<close> and \<open>currF\<close> is a member the constructor has not
  initialised. An empty \<open>prevLine\<close> stands for the missing previous line of the first
  line of a page.
\<close>

record ScoaState =
  lastF :: "ScoaFunc option"
  currF :: "ScoaFunc option"
  lineF :: "byte list"
  prevLineF :: "byte list"
  indexF :: nat

text \<open>
  \<open>NextFunc\<close> returns the optional new function and the updated \<open>*last\<close>. A
  null \<open>last\<close> is \<open>None\<close>; reading through it, or past the end of
  \<open>prevLine\<close>, is undefined. The caller guarantees \<open>idx < length line\<close>.
\<close>

definition NextFunc :: "byte list \<Rightarrow> byte list \<Rightarrow> nat \<Rightarrow> ScoaFunc option \<Rightarrow>
    fault + (ScoaFunc option \<times> ScoaFunc option)" where
  "NextFunc prev ln idx l =
    (if idx \<ge> 1 \<and> ln ! idx = ln ! (idx - 1) \<and> l = None then Inl UndefinedBehaviour
     else if idx \<ge> 1 \<and> ln ! idx = ln ! (idx - 1) \<and> Type (the l) \<noteq> Copy then
       (if Type (the l) = Repeat
        then Inr (None, Some ((the l)\<lparr>Count := Count (the l) + 1\<rparr>))
        else if Count (the l) = 1
        then Inr (None, Some ((the l)\<lparr>Type := Repeat, Count := 2\<rparr>))
        else Inr (Some \<lparr>Type = Repeat, Index = idx - 1, Count = 2\<rparr>,
                  Some ((the l)\<lparr>Count := Count (the l) - 1\<rparr>)))
     else if prev \<noteq> [] \<and> idx \<ge> length prev then Inl UndefinedBehaviour
     else if prev \<noteq> [] \<and> ln ! idx = prev ! idx then
       (if l \<noteq> None \<and> Type (the l) = Copy
        then Inr (None, Some ((the l)\<lparr>Count := Count (the l) + 1\<rparr>))
        else Inr (Some \<lparr>Type = Copy, Index = idx, Count = 1\<rparr>, l))
     else if l \<noteq> None \<and> Type (the l) = Raw
     then Inr (None, Some ((the l)\<lparr>Count := Count (the l) + 1\<rparr>))
     else Inr (Some \<lparr>Type = Raw, Index = idx, Count = 1\<rparr>, l))"

lemma bindR_cong [fundef_cong]:
  "m = m' \<Longrightarrow> (\<And>x. m' = Inr x \<Longrightarrow> f x = f' x) \<Longrightarrow> bindR m f = bindR m' f'"
  by (simp add: bindR_def split: sum.splits)

function Next :: "ScoaState \<Rightarrow> fault + (bool \<times> ScoaState)" where
  "Next st =
    (if indexF st < length (lineF st) then
       bindR (NextFunc (prevLineF st) (lineF st) (indexF st)
                (if indexF st = 0 then None else lastF st)) (\<lambda>(next, l).
         let st1 = st\<lparr>lastF := (if indexF st = 0 then lastF st else l), indexF := indexF st + 1\<rparr>
         in case next of
              None \<Rightarrow> Next st1
            | Some f \<Rightarrow>
                if indexF st1 > 1
                then Inr (True, st1\<lparr>currF := lastF st1, lastF := Some f\<rparr>)
                else Next (st1\<lparr>lastF := Some f\<rparr>))
     else if indexF st \<noteq> 0 \<and> indexF st \<le> length (lineF st) + 1
     then Inr (True, st\<lparr>currF := lastF st, indexF := indexF st + 1\<rparr>)
     else Inr (False, st))"
  by pat_completeness auto
termination
  by (relation "measure (\<lambda>st. length (lineF st) - indexF st)") auto

declare Next.simps [simp del]

definition newScoaState :: "byte list \<Rightarrow> byte list \<Rightarrow> fault + ScoaState" where
  "newScoaState ln prev =
    bindR (Next \<lparr>lastF = None, currF = None, lineF = ln, prevLineF = prev, indexF = 0\<rparr>)
      (\<lambda>(_, st). Inr st)"

definition Peek :: "ScoaState \<Rightarrow> fault + ScoaFunc" where
  "Peek st = assertR (indexF st \<noteq> 0)
    (case currF st of None \<Rightarrow> Inl UndefinedBehaviour | Some f \<Rightarrow> Inr f)"

definition Get :: "ScoaState \<Rightarrow> fault + (ScoaFunc \<times> ScoaState)" where
  "Get st = bindR (Peek st) (\<lambda>f. bindR (Next st) (\<lambda>(_, st'). Inr (f, st')))"

definition Empty :: "ScoaState \<Rightarrow> bool" where
  "Empty st \<longleftrightarrow> indexF st > length (lineF st) + 1"

subsection \<open>What the scanner computes\<close>

text \<open>
  The functions from byte \<open>i\<close> on, with \<open>l\<close> the function that is being
  extended.
\<close>

function segments :: "byte list \<Rightarrow> byte list \<Rightarrow> nat \<Rightarrow> ScoaFunc \<Rightarrow> ScoaFunc list" where
  "segments prev ln i l =
    (if i < length ln then
       (case NextFunc prev ln i (Some l) of
          Inr (None, Some l') \<Rightarrow> segments prev ln (Suc i) l'
        | Inr (Some f, Some l') \<Rightarrow> l' # segments prev ln (Suc i) f
        | _ \<Rightarrow> [])
     else [l])"
  by pat_completeness auto
termination
  by (relation "measure (\<lambda>(prev, ln, i, l). length ln - i)") auto

declare segments.simps [simp del]

definition first_func :: "byte list \<Rightarrow> byte list \<Rightarrow> ScoaFunc" where
  "first_func prev ln =
    (if prev \<noteq> [] \<and> ln ! 0 = prev ! 0 then \<lparr>Type = Copy, Index = 0, Count = 1\<rparr>
     else \<lparr>Type = Raw, Index = 0, Count = 1\<rparr>)"

definition line_funcs :: "byte list \<Rightarrow> byte list \<Rightarrow> ScoaFunc list" where
  "line_funcs prev ln = segments prev ln 1 (first_func prev ln)"

text \<open>
  What justifies a function: a copy covers bytes equal to those above them, a repeat
  covers at least two equal bytes, and raw bytes could be covered by neither.
\<close>

definition justified :: "byte list \<Rightarrow> byte list \<Rightarrow> ScoaFunc \<Rightarrow> bool" where
  "justified prev ln f \<longleftrightarrow>
    (case Type f of
       Copy \<Rightarrow> prev \<noteq> [] \<and> (\<forall>k \<in> {Index f..<Index f + Count f}. ln ! k = prev ! k)
     | Repeat \<Rightarrow> Count f \<ge> 2 \<and> (\<forall>k \<in> {Index f..<Index f + Count f}. ln ! k = ln ! Index f)
     | Raw \<Rightarrow> (\<forall>k \<in> {Index f..<Index f + Count f}. prev \<noteq> [] \<longrightarrow> ln ! k \<noteq> prev ! k) \<and>
         (\<forall>k \<in> {Index f + 1..<Index f + Count f}. ln ! k \<noteq> ln ! (k - 1)))"

fun tiles :: "byte list \<Rightarrow> byte list \<Rightarrow> nat \<Rightarrow> ScoaFunc list \<Rightarrow> bool" where
  "tiles prev ln i [] \<longleftrightarrow> i = length ln"
| "tiles prev ln i (f # fs) \<longleftrightarrow>
    Index f = i \<and> Count f \<ge> 1 \<and> i + Count f \<le> length ln \<and> justified prev ln f \<and>
    tiles prev ln (i + Count f) fs"

definition may_follow :: "ScoaFunc \<Rightarrow> ScoaFunc \<Rightarrow> bool" where
  "may_follow f g \<longleftrightarrow> Type f = Type g \<longrightarrow> Type f = Repeat"

definition prev_fits :: "byte list \<Rightarrow> byte list \<Rightarrow> bool" where
  "prev_fits prev ln \<longleftrightarrow> prev = [] \<or> length prev = length ln"

text \<open>The function being extended at byte \<open>i\<close> ends just before it.\<close>

definition extending :: "byte list \<Rightarrow> byte list \<Rightarrow> nat \<Rightarrow> ScoaFunc \<Rightarrow> bool" where
  "extending prev ln i l \<longleftrightarrow>
    Count l \<ge> 1 \<and> Index l + Count l = i \<and> i \<le> length ln \<and> justified prev ln l"


subsection \<open>One step of the scanner\<close>

lemma justified_Repeat:
  "Type f = Repeat \<Longrightarrow> justified prev ln f \<longleftrightarrow>
    2 \<le> Count f \<and> (\<forall>k \<in> {Index f..<Index f + Count f}. ln ! k = ln ! Index f)"
  by (simp only: justified_def ScoaFuncType.case)

lemma extending_more:
  assumes ext: "extending prev ln i l" and i: "i < length ln"
    and l': "Type l' = Type l" "Index l' = Index l" "Count l' = Count l + 1"
    and byte: "case Type l of Copy \<Rightarrow> ln ! i = prev ! i | Repeat \<Rightarrow> ln ! i = ln ! (i - 1)
      | Raw \<Rightarrow> (prev \<noteq> [] \<longrightarrow> ln ! i \<noteq> prev ! i) \<and> ln ! i \<noteq> ln ! (i - 1)"
  shows "extending prev ln (Suc i) l'"
proof -
  from ext have end_l: "Index l + Count l = i" and "Count l \<ge> 1" and just: "justified prev ln l"
    by (auto simp: extending_def)
  then have range: "{Index l..<Index l + (Count l + 1)} = insert i {Index l..<Index l + Count l}"
    and range1: "{Index l + 1..<Index l + (Count l + 1)} = insert i {Index l + 1..<Index l + Count l}"
    by auto
  have before: "i - 1 \<in> {Index l..<Index l + Count l}" using end_l \<open>Count l \<ge> 1\<close> by auto
  have "justified prev ln l'"
  proof (cases "Type l")
    case Copy
    with just byte show ?thesis unfolding justified_def l' range by simp
  next
    case Raw
    with just byte show ?thesis unfolding justified_def l' range range1 by simp
  next
    case Repeat
    from just have two: "2 \<le> Count l"
      and all: "\<forall>k \<in> {Index l..<Index l + Count l}. ln ! k = ln ! Index l"
      unfolding justified_Repeat [OF Repeat] by blast+
    from all before have "ln ! (i - 1) = ln ! Index l" by blast
    with Repeat byte have "ln ! i = ln ! Index l" by simp
    with all have "\<forall>k \<in> {Index l..<Index l + (Count l + 1)}. ln ! k = ln ! Index l"
      unfolding range by blast
    moreover from two have "2 \<le> Count l + 1" by simp
    ultimately show ?thesis
      using justified_Repeat [of l'] Repeat unfolding l' by blast
  qed
  with end_l i l' show ?thesis by (simp add: extending_def)
qed

lemma NextFunc_first:
  assumes "prev_fits prev ln" and "0 < length ln"
  shows "NextFunc prev ln 0 None = Inr (Some (first_func prev ln), None)"
    and "extending prev ln 1 (first_func prev ln)"
  using assms
  by (auto simp: NextFunc_def first_func_def prev_fits_def extending_def justified_def Suc_le_eq)

definition scans_to :: "byte list \<Rightarrow> byte list \<Rightarrow> nat \<Rightarrow> ScoaFunc \<Rightarrow>
    fault + (ScoaFunc option \<times> ScoaFunc option) \<Rightarrow> bool" where
  "scans_to prev ln i l r \<longleftrightarrow>
    (\<exists>l'. r = Inr (None, Some l') \<and> extending prev ln (Suc i) l' \<and> Index l' = Index l \<and>
       (Type l' = Type l \<or> Type l' = Repeat)) \<or>
    (\<exists>f l'. r = Inr (Some f, Some l') \<and> extending prev ln (Index f) l' \<and> Index l' = Index l \<and>
       Type l' = Type l \<and> extending prev ln (Suc i) f \<and> may_follow l' f)"

lemma NextFunc_scans:
  assumes fits: "prev_fits prev ln" and i: "1 \<le> i" "i < length ln" and ext: "extending prev ln i l"
  shows "scans_to prev ln i l (NextFunc prev ln i (Some l))"
proof (cases "ln ! i = ln ! (i - 1) \<and> Type l \<noteq> Copy")
  case True
  show ?thesis
  proof (cases "Type l = Repeat \<or> Count l = 1")
    case True
    with \<open>ln ! i = _ \<and> _\<close> ext i show ?thesis
      by (auto simp: scans_to_def NextFunc_def extending_more)
        (auto simp: extending_def justified_def atLeastLessThanSuc)
  next
    case False
    with True have raw: "Type l = Raw" by (cases "Type l") auto
    from False ext have "Count l \<ge> 2" by (auto simp: extending_def)
    with ext have "{i - 1..<i - 1 + 2} = {i - 1, i}" and "Index l + (Count l - 1) = i - 1"
      by (auto simp: extending_def)
    with False True raw ext i \<open>Count l \<ge> 2\<close> show ?thesis
      by (auto simp: scans_to_def NextFunc_def extending_def justified_def may_follow_def)
  qed
next
  case neq: False
  show ?thesis
  proof (cases "prev \<noteq> [] \<and> ln ! i = prev ! i")
    case True
    with neq fits ext i show ?thesis
      by (cases "Type l = Copy")
        (auto simp: scans_to_def NextFunc_def prev_fits_def extending_more may_follow_def,
         auto simp: extending_def justified_def)
  next
    case False
    with neq fits ext i show ?thesis
      by (cases "Type l = Raw")
        (auto simp: scans_to_def NextFunc_def prev_fits_def extending_more may_follow_def,
         auto simp: extending_def justified_def)
  qed
qed

subsection \<open>The functions tile the line\<close>

lemma scans_toE:
  assumes "scans_to prev ln i l r"
  obtains (extend) l' where "r = Inr (None, Some l')" "extending prev ln (Suc i) l'"
      "Index l' = Index l" "Type l' = Type l \<or> Type l' = Repeat"
    | (emit) f l' where "r = Inr (Some f, Some l')" "extending prev ln (Index f) l'"
      "Index l' = Index l" "Type l' = Type l" "extending prev ln (Suc i) f" "may_follow l' f"
  using assms by (auto simp: scans_to_def)

lemma segments_end: "\<not> i < length ln \<Longrightarrow> segments prev ln i l = [l]"
  by (simp add: segments.simps [of prev ln i l])

lemma segments_extend:
  "i < length ln \<Longrightarrow> NextFunc prev ln i (Some l) = Inr (None, Some l') \<Longrightarrow>
    segments prev ln i l = segments prev ln (Suc i) l'"
  by (simp add: segments.simps [of prev ln i l])

lemma segments_emit:
  "i < length ln \<Longrightarrow> NextFunc prev ln i (Some l) = Inr (Some f, Some l') \<Longrightarrow>
    segments prev ln i l = l' # segments prev ln (Suc i) f"
  by (simp add: segments.simps [of prev ln i l])

lemma tiles_extending:
  "extending prev ln i l \<Longrightarrow> tiles prev ln i fs \<Longrightarrow> tiles prev ln (Index l) (l # fs)"
  by (auto simp: extending_def)

lemma may_follow_Repeat: "may_follow f g \<Longrightarrow> Type g' = Type g \<or> Type g' = Repeat \<Longrightarrow> may_follow f g'"
  by (auto simp: may_follow_def)

lemma segments_tile:
  assumes "prev_fits prev ln" and "1 \<le> i" and "extending prev ln i l"
  shows "\<exists>f fs. segments prev ln i l = f # fs \<and> tiles prev ln (Index l) (f # fs) \<and>
    successively may_follow (f # fs) \<and> (Type f = Type l \<or> Type f = Repeat)"
  using assms
proof (induction "length ln - i" arbitrary: i l)
  case 0
  then have "i = length ln" by (auto simp: extending_def)
  with 0 show ?case by (simp add: segments_end extending_def)
next
  case (Suc n)
  then have i: "i < length ln" and n: "n = length ln - Suc i" by auto
  from NextFunc_scans [OF Suc.prems(1,2) i Suc.prems(3)] show ?case
  proof (cases rule: scans_toE)
    case (extend l')
    from Suc.hyps(1) [OF n Suc.prems(1) _ extend(2)] extend(3,4) show ?thesis
      by (auto simp: segments_extend [OF i extend(1)])
  next
    case (emit f l')
    obtain g gs where g: "segments prev ln (Suc i) f = g # gs" "tiles prev ln (Index f) (g # gs)"
      "successively may_follow (g # gs)" "Type g = Type f \<or> Type g = Repeat"
      using Suc.hyps(1) [OF n Suc.prems(1) _ emit(5)] by auto
    have "tiles prev ln (Index l) (l' # g # gs)"
      using tiles_extending [OF emit(2) g(2)] emit(3) by simp
    moreover have "may_follow l' g" using emit(6) g(4) by (rule may_follow_Repeat)
    ultimately show ?thesis using g emit(4) by (simp add: segments_emit [OF i emit(1)])
  qed
qed

lemma line_funcs_tile:
  assumes "prev_fits prev ln" and "ln \<noteq> []"
  shows "tiles prev ln 0 (line_funcs prev ln)" and "successively may_follow (line_funcs prev ln)"
proof -
  have "extending prev ln 1 (first_func prev ln)" using NextFunc_first(2) assms by simp
  moreover have "Index (first_func prev ln) = 0" by (simp add: first_func_def)
  ultimately show "tiles prev ln 0 (line_funcs prev ln)" "successively may_follow (line_funcs prev ln)"
    using segments_tile [OF assms(1), of 1 "first_func prev ln"] by (auto simp: line_funcs_def)
qed

subsection \<open>The scanner is a queue of these functions\<close>

definition scan_ok :: "ScoaState \<Rightarrow> bool" where
  "scan_ok st \<longleftrightarrow> lineF st \<noteq> [] \<and> prev_fits (prevLineF st) (lineF st) \<and> 1 \<le> indexF st \<and>
    (case (currF st, lastF st) of
       (Some _, Some l) \<Rightarrow> indexF st \<le> length (lineF st) \<longrightarrow>
         extending (prevLineF st) (lineF st) (indexF st) l
     | _ \<Rightarrow> False)"

definition todo :: "ScoaState \<Rightarrow> ScoaFunc list" where
  "todo st =
    (if Empty st then []
     else the (currF st) #
       (if indexF st \<le> length (lineF st)
        then segments (prevLineF st) (lineF st) (indexF st) (the (lastF st)) else []))"

text \<open>What the loop of \<^verbatim>\<open>Next\<close> does from a byte inside the line.\<close>

lemma Next_scan:
  assumes "lineF st \<noteq> []" and "prev_fits (prevLineF st) (lineF st)" and "1 \<le> indexF st"
    and "lastF st = Some l" and "extending (prevLineF st) (lineF st) (indexF st) l"
  shows "\<exists>st'. Next st = Inr (True, st') \<and> scan_ok st' \<and> lineF st' = lineF st \<and>
    prevLineF st' = prevLineF st \<and>
    todo st' = segments (prevLineF st) (lineF st) (indexF st) l"
  using assms
proof (induction "length (lineF st) - indexF st" arbitrary: st l)
  case 0
  then have "indexF st = length (lineF st)" by (auto simp: extending_def)
  with 0 show ?case
    by (simp add: Next.simps [of st] scan_ok_def todo_def Empty_def segments_end)
next
  case (Suc n)
  let ?ln = "lineF st" and ?prev = "prevLineF st" and ?i = "indexF st"
  from Suc have i: "?i < length ?ln" and n: "n = length ?ln - Suc ?i" by auto
  from NextFunc_scans [OF Suc.prems(2,3) i Suc.prems(5)] show ?case
  proof (cases rule: scans_toE)
    case (extend l')
    let ?st = "st\<lparr>lastF := Some l', indexF := Suc ?i\<rparr>"
    have "Next st = Next ?st"
      using extend(1) i Suc.prems by (simp add: Next.simps [of st])
    with Suc.hyps(1) [of ?st l'] n Suc.prems extend show ?thesis
      by (simp add: segments_extend [OF i extend(1)])
  next
    case (emit f l')
    let ?st = "st\<lparr>lastF := Some f, currF := Some l', indexF := Suc ?i\<rparr>"
    have "Next st = Inr (True, ?st)"
      using emit(1) i Suc.prems by (simp add: Next.simps [of st])
    moreover have "Suc ?i \<le> length ?ln" using i by simp
    ultimately show ?thesis
      using Suc.prems emit i
      by (simp add: scan_ok_def todo_def Empty_def segments_emit [OF i emit(1)])
  qed
qed

lemma newScoaState_todo:
  assumes "ln \<noteq> []" and "prev_fits prev ln"
  shows "\<exists>st. newScoaState ln prev = Inr st \<and> scan_ok st \<and> lineF st = ln \<and>
    todo st = line_funcs prev ln"
proof -
  let ?st0 = "\<lparr>lastF = None, currF = None, lineF = ln, prevLineF = prev, indexF = 0\<rparr>"
  let ?st1 = "\<lparr>lastF = Some (first_func prev ln), currF = None, lineF = ln, prevLineF = prev,
    indexF = 1\<rparr>"
  have "Next ?st0 = Next ?st1"
    using assms NextFunc_first(1) [of prev ln] by (simp add: Next.simps [of ?st0])
  moreover have "extending prev ln 1 (first_func prev ln)" using NextFunc_first(2) assms by simp
  ultimately show ?thesis
    using Next_scan [of ?st1 "first_func prev ln"] assms by (auto simp: newScoaState_def line_funcs_def)
qed

lemma todo_empty: "Empty st \<longleftrightarrow> todo st = []"
  by (simp add: todo_def)

lemma Peek_todo: "scan_ok st \<Longrightarrow> todo st = f # fs \<Longrightarrow> Peek st = Inr f"
  by (auto simp: scan_ok_def todo_def Peek_def split: option.splits if_splits)

lemma Get_todo:
  assumes ok: "scan_ok st" and todo: "todo st = f # fs"
  shows "\<exists>st'. Get st = Inr (f, st') \<and> scan_ok st' \<and> lineF st' = lineF st \<and> todo st' = fs"
proof -
  obtain l where l: "lastF st = Some l" and ext: "indexF st \<le> length (lineF st) \<longrightarrow>
      extending (prevLineF st) (lineF st) (indexF st) l"
    using ok by (auto simp: scan_ok_def split: option.splits)
  show ?thesis
  proof (cases "indexF st \<le> length (lineF st)")
    case True
    with todo l have "segments (prevLineF st) (lineF st) (indexF st) l = fs"
      by (simp add: todo_def split: if_splits)
    moreover obtain st' where "Next st = Inr (True, st')" "scan_ok st'" "lineF st' = lineF st"
      "todo st' = segments (prevLineF st) (lineF st) (indexF st) l"
      using Next_scan [of st l] True ok l ext by (auto simp: scan_ok_def)
    ultimately show ?thesis using Peek_todo [OF ok todo] by (simp add: Get_def)
  next
    case False
    with todo have "indexF st = length (lineF st) + 1" and "fs = []"
      by (auto simp: todo_def Empty_def split: if_splits)
    with Peek_todo [OF ok todo] ok show ?thesis
      by (auto simp: Get_def Next.simps [of st] scan_ok_def todo_def Empty_def split: option.splits)
  qed
qed

subsection \<open>The scanner always advances\<close>

lemma Next_advances:
  assumes "Next st = Inr (b, st')"
  shows "lineF st' = lineF st \<and> indexF st \<le> indexF st' \<and>
    (indexF st \<noteq> 0 \<and> \<not> Empty st \<longrightarrow> indexF st < indexF st')"
  using assms
proof (induction st rule: Next.induct)
  case (1 st)
  show ?case
  proof (cases "indexF st < length (lineF st)")
    case True
    with "1.prems" obtain nx l where
      N: "NextFunc (prevLineF st) (lineF st) (indexF st)
        (if indexF st = 0 then None else lastF st) = Inr (nx, l)"
      by (auto simp: Next.simps [of st] elim: bindR_eq_InrE)
    show ?thesis
      using "1.prems" "1.IH"(1) [OF True N refl refl] "1.IH"(2) [OF True N refl refl] True
      by (cases nx)
        (auto simp: Next.simps [of st] N Let_def Empty_def split: if_splits)
  next
    case False
    with "1.prems" show ?thesis
      by (auto simp: Next.simps [of st] Empty_def split: if_splits)
  qed
qed

lemma Get_advances:
  assumes "Get st = Inr (f, st')"
  shows "lineF st' = lineF st \<and> indexF st \<le> indexF st' \<and> (\<not> Empty st \<longrightarrow> indexF st < indexF st')"
proof -
  from assms have "indexF st \<noteq> 0" by (auto simp: Get_def Peek_def assertR_def split: if_splits)
  moreover obtain b where "Next st = Inr (b, st')"
    using assms by (auto simp: Get_def elim!: bindR_eq_InrE)
  ultimately show ?thesis using Next_advances [of st b st'] by auto
qed

subsection \<open>Properties\<close>

text \<open>What a client of the scanner sees: it takes functions until the state is empty.\<close>

function drain :: "ScoaState \<Rightarrow> fault + ScoaFunc list" where
  "drain st =
    (if Empty st then Inr []
     else case Get st of Inl e \<Rightarrow> Inl e
          | Inr (f, st') \<Rightarrow> bindR (drain st') (\<lambda>fs. Inr (f # fs)))"
  by pat_completeness auto
termination
proof (relation "measure (\<lambda>st. length (lineF st) + 2 - indexF st)", simp)
  fix st p f st'
  assume ne: "\<not> Empty st" and "Get st = Inr p" "(f, st') = p"
  then have "Get st = Inr (f, st')" by simp
  from Get_advances [OF this] ne
  show "(st', st) \<in> measure (\<lambda>st. length (lineF st) + 2 - indexF st)"
    by (auto simp: Empty_def)
qed

declare drain.simps [simp del]

lemma drain_todo: "scan_ok st \<Longrightarrow> drain st = Inr (todo st)"
proof (induction "todo st" arbitrary: st)
  case Nil
  then show ?case by (simp add: drain.simps [of st] todo_empty)
next
  case (Cons f fs)
  obtain st' where "Get st = Inr (f, st')" "scan_ok st'" "todo st' = fs"
    using Get_todo [OF Cons.prems Cons.hyps(2) [symmetric]] by blast
  moreover have "\<not> Empty st" using Cons by (metis todo_empty list.distinct(1))
  ultimately show ?case using Cons.hyps by (simp add: drain.simps [of st])
qed

text \<open>
C20. The scanner covers a line exactly. On every line that is not empty, with no line above
or one of the same length, the functions obtained from a \<open>ScoaState\<close> until it is empty
tile the line without gap or overlap, each of them is justified by the bytes it covers (a
copy equals the bytes above, a repeat has at least two equal bytes, a raw byte could be
neither), and neighbours of the same kind only occur as two different repeats.
\<close>

theorem scanner_tiles_line:
  assumes "ln \<noteq> []" and "prev_fits prev ln"
  shows "\<exists>st fs. newScoaState ln prev = Inr st \<and> drain st = Inr fs \<and>
    tiles prev ln 0 fs \<and> successively may_follow fs"
proof -
  obtain st where "newScoaState ln prev = Inr st" "scan_ok st" "todo st = line_funcs prev ln"
    using newScoaState_todo [OF assms] by blast
  then show ?thesis using line_funcs_tile [OF assms(2,1)] drain_todo by simp
qed

theorem scanner_tiles_line_witness:
  "\<exists>st fs. newScoaState [7, 7, 7, 1, 2, 9] [0, 0, 0, 1, 2, 8] = Inr st \<and> drain st = Inr fs \<and>
    tiles [0, 0, 0, 1, 2, 8] [7, 7, 7, 1, 2, 9] 0 fs \<and> successively may_follow fs"
  by (rule scanner_tiles_line) (simp_all add: prev_fits_def)

end
