(* ===== verification/Scoa_Cmd.thy ===== *)
theory Scoa_Cmd
  imports Scoa_State
begin

text \<open>
  The commands of a SCoA stream: \<^verbatim>\<open>Compression/ScoaCmd.cpp\<close>.

  Each function of the file appends the bytes of one command to a buffer and returns how
  many it appended; a buffer is passed in and handed back extended. The asserted ranges
  are branches: outside them the result is \<open>AssertionFailed\<close>.

  \<open>ScoaCommand\<close> is the specification side: the commands as data, their valid
  ranges (\<open>wf_cmd\<close>), their bytes in arithmetic form (\<open>enc\<close>) and their meaning
  for the raster decoded so far (\<open>run_cmd\<close>). The lemmas in \<open>cmd_writers\<close> say
  that every function of the file writes exactly the bytes of its command, and fails
  exactly outside its range.
\<close>

named_theorems cmd_writers \<open>the functions of ScoaCmd.cpp write their commands\<close>

subsection \<open>The functions of the source\<close>

definition RepeatXByte :: byte where
  "RepeatXByte = 0x43"

definition CopyLong :: "byte list \<Rightarrow> nat \<Rightarrow> fault + (byte list \<times> nat)" where
  "CopyLong buffer copyCount =
    assertR (copyCount \<ge> 8) (assertR (copyCount \<le> 248) (assertR (copyCount mod 8 = 0)
      (Inr (buffer @ [word_of_nat (0x80 OR (drop_bit 3 copyCount AND 0x1f))], 1))))"

definition CopyShort :: "byte list \<Rightarrow> nat \<Rightarrow> fault + (byte list \<times> nat)" where
  "CopyShort buffer copyCount =
    assertR (copyCount \<ge> 1) (assertR (copyCount \<le> 7)
      (Inr (buffer @ [word_of_nat (0xc0 OR (copyCount AND 7))], 1)))"

definition CopyThenRaw :: "byte list \<Rightarrow> nat \<Rightarrow> byte list \<Rightarrow> fault + (byte list \<times> nat)" where
  "CopyThenRaw buffer copyCount rawData =
    assertR (copyCount \<le> 7) (assertR (length rawData \<ge> 1) (assertR (length rawData \<le> 7)
      (Inr (buffer @ [word_of_nat (push_bit 3 (length rawData AND 7) OR (copyCount AND 7))] @ rawData,
            1 + length rawData))))"

definition Extend :: "byte list \<Rightarrow> nat \<Rightarrow> fault + (byte list \<times> nat)" where
  "Extend buffer count =
    assertR (count \<ge> 8) (assertR (count \<le> 255)
      (Inr (buffer @ [word_of_nat (0xa0 OR (drop_bit 3 count AND 0x1f))], 1)))"

definition CopyThenRawLong :: "byte list \<Rightarrow> nat \<Rightarrow> byte list \<Rightarrow> fault + (byte list \<times> nat)" where
  "CopyThenRawLong buffer copyCount rawData =
    assertR (copyCount \<le> 7) (assertR (length rawData \<ge> 8) (assertR (length rawData \<le> 255)
      (bindR (Extend buffer (to_unsigned (length rawData))) (\<lambda>(buffer', vsize).
        Inr (buffer' @ [word_of_nat ((0xc0 OR push_bit 3 (length rawData AND 7)) OR (copyCount AND 7))]
               @ rawData,
             vsize + 1 + length rawData)))))"

definition CopyThenRepeat :: "byte list \<Rightarrow> nat \<Rightarrow> nat \<Rightarrow> byte \<Rightarrow> fault + (byte list \<times> nat)" where
  "CopyThenRepeat buffer copyCount repeatCount repeatByte =
    assertR (copyCount \<le> 7) (assertR (repeatCount \<ge> 2) (assertR (repeatCount \<le> 7)
      (Inr (buffer @ [word_of_nat ((0x40 OR push_bit 3 (repeatCount AND 7)) OR (copyCount AND 7)),
                      repeatByte], 2))))"

definition CopyThenRepeatLong :: "byte list \<Rightarrow> nat \<Rightarrow> nat \<Rightarrow> byte \<Rightarrow> fault + (byte list \<times> nat)" where
  "CopyThenRepeatLong buffer copyCount repeatCount repeatByte =
    assertR (copyCount \<le> 7) (assertR (repeatCount \<ge> 8) (assertR (repeatCount \<le> 255)
      (bindR (Extend buffer repeatCount) (\<lambda>(buffer', vsize).
        Inr (buffer' @ [word_of_nat ((0x80 OR push_bit 3 (repeatCount AND 7)) OR (copyCount AND 7)),
                        repeatByte], vsize + 2)))))"

definition RepeatThenRaw ::
  "byte list \<Rightarrow> nat \<Rightarrow> byte \<Rightarrow> byte list \<Rightarrow> fault + (byte list \<times> nat)" where
  "RepeatThenRaw buffer repeatCount repeatByte rawData =
    assertR (repeatCount \<ge> 2) (assertR (repeatCount \<le> 7)
      (assertR (length rawData \<ge> 1) (assertR (length rawData \<le> 7)
        (Inr (buffer @ [word_of_nat ((0xc0 OR push_bit 3 (repeatCount AND 7)) OR (length rawData AND 7)),
                        repeatByte] @ rawData,
              2 + length rawData)))))"

definition RepeatThenRawLong ::
  "byte list \<Rightarrow> nat \<Rightarrow> byte \<Rightarrow> byte list \<Rightarrow> fault + (byte list \<times> nat)" where
  "RepeatThenRawLong buffer repeatCount repeatByte rawData =
    assertR (repeatCount \<ge> 2) (assertR (repeatCount \<le> 7)
      (assertR (length rawData \<ge> 8) (assertR (length rawData \<le> 255)
        (bindR (Extend buffer (to_unsigned (length rawData))) (\<lambda>(buffer', vsize).
          Inr (buffer' @ [word_of_nat ((0x40 OR push_bit 3 (repeatCount AND 7)) OR
                            (length rawData AND 7)), repeatByte] @ rawData,
               vsize + 2 + length rawData))))))"

definition RepeatX :: "byte list \<Rightarrow> nat \<Rightarrow> fault + (byte list \<times> nat)" where
  "RepeatX buffer repeatCount =
    assertR (repeatCount \<ge> 1) (assertR (repeatCount \<le> 7)
      (Inr (buffer @ [word_of_nat (0xc0 OR push_bit 3 (repeatCount AND 7))], 1)))"

definition RepeatXLong :: "byte list \<Rightarrow> nat \<Rightarrow> fault + (byte list \<times> nat)" where
  "RepeatXLong buffer repeatCount =
    assertR (repeatCount \<ge> 8) (assertR (repeatCount \<le> 255)
      (bindR (Extend buffer repeatCount) (\<lambda>(buffer', vsize).
        Inr (buffer' @ [word_of_nat (push_bit 3 (repeatCount AND 7))], vsize + 1))))"

definition EOP :: "byte list \<Rightarrow> byte list \<times> nat" where
  "EOP buffer = (buffer @ [0x42], 1)"

definition EOL :: "byte list \<Rightarrow> byte list \<times> nat" where
  "EOL buffer = (buffer @ [0x41], 1)"

definition NOP :: "byte list \<Rightarrow> byte list \<times> nat" where
  "NOP buffer = (buffer @ [0x40], 1)"

subsection \<open>Commands as data\<close>

datatype ScoaCommand =
    cCopyLong nat
  | cCopyShort nat
  | cCopyThenRaw nat "byte list"
  | cCopyThenRawLong nat "byte list"
  | cCopyThenRepeat nat nat byte
  | cCopyThenRepeatLong nat nat byte
  | cRepeatThenRaw nat byte "byte list"
  | cRepeatThenRawLong nat byte "byte list"
  | cRepeatX nat
  | cRepeatXLong nat
  | cEOP
  | cEOL
  | cNOP

fun wf_cmd :: "ScoaCommand \<Rightarrow> bool" where
  "wf_cmd (cCopyLong n) \<longleftrightarrow> 8 \<le> n \<and> n \<le> 248 \<and> n mod 8 = 0"
| "wf_cmd (cCopyShort n) \<longleftrightarrow> 1 \<le> n \<and> n \<le> 7"
| "wf_cmd (cCopyThenRaw c raw) \<longleftrightarrow> c \<le> 7 \<and> 1 \<le> length raw \<and> length raw \<le> 7"
| "wf_cmd (cCopyThenRawLong c raw) \<longleftrightarrow> c \<le> 7 \<and> 8 \<le> length raw \<and> length raw \<le> 255"
| "wf_cmd (cCopyThenRepeat c r b) \<longleftrightarrow> c \<le> 7 \<and> 2 \<le> r \<and> r \<le> 7"
| "wf_cmd (cCopyThenRepeatLong c r b) \<longleftrightarrow> c \<le> 7 \<and> 8 \<le> r \<and> r \<le> 255"
| "wf_cmd (cRepeatThenRaw r b raw) \<longleftrightarrow> 2 \<le> r \<and> r \<le> 7 \<and> 1 \<le> length raw \<and> length raw \<le> 7"
| "wf_cmd (cRepeatThenRawLong r b raw) \<longleftrightarrow>
    2 \<le> r \<and> r \<le> 7 \<and> 8 \<le> length raw \<and> length raw \<le> 255"
| "wf_cmd (cRepeatX r) \<longleftrightarrow> 1 \<le> r \<and> r \<le> 7"
| "wf_cmd (cRepeatXLong r) \<longleftrightarrow> 8 \<le> r \<and> r \<le> 255"
| "wf_cmd cEOP \<longleftrightarrow> True"
| "wf_cmd cEOL \<longleftrightarrow> True"
| "wf_cmd cNOP \<longleftrightarrow> True"

fun enc :: "ScoaCommand \<Rightarrow> byte list" where
  "enc (cCopyLong n) = [word_of_nat (128 + n div 8)]"
| "enc (cCopyShort n) = [word_of_nat (192 + n)]"
| "enc (cCopyThenRaw c raw) = word_of_nat (8 * length raw + c) # raw"
| "enc (cCopyThenRawLong c raw) =
    word_of_nat (160 + length raw div 8) # word_of_nat (192 + 8 * (length raw mod 8) + c) # raw"
| "enc (cCopyThenRepeat c r b) = [word_of_nat (64 + 8 * r + c), b]"
| "enc (cCopyThenRepeatLong c r b) =
    [word_of_nat (160 + r div 8), word_of_nat (128 + 8 * (r mod 8) + c), b]"
| "enc (cRepeatThenRaw r b raw) = word_of_nat (192 + 8 * r + length raw) # b # raw"
| "enc (cRepeatThenRawLong r b raw) =
    word_of_nat (160 + length raw div 8) # word_of_nat (64 + 8 * r + length raw mod 8) # b # raw"
| "enc (cRepeatX r) = [word_of_nat (192 + 8 * r)]"
| "enc (cRepeatXLong r) = [word_of_nat (160 + r div 8), word_of_nat (8 * (r mod 8))]"
| "enc cEOP = [0x42]"
| "enc cEOL = [0x41]"
| "enc cNOP = [0x40]"

text \<open>
  The meaning of a command. \<open>copy_out ls n out\<close> repeats the \<open>n\<close> bytes found
  \<open>ls\<close> bytes before the end of the raster \<open>out\<close> decoded so far.
\<close>

definition copy_out :: "nat \<Rightarrow> nat \<Rightarrow> byte list \<Rightarrow> fault + byte list" where
  "copy_out ls n out =
    (if n = 0 then Inr out
     else if length out < ls then Inl (DecoderFailure InsufficientBuffer)
     else if n > ls then Inl UndefinedBehaviour
     else Inr (out @ take n (drop (length out - ls) out)))"

fun run_cmd :: "nat \<Rightarrow> ScoaCommand \<Rightarrow> byte list \<Rightarrow> fault + byte list" where
  "run_cmd ls (cCopyLong n) out = copy_out ls n out"
| "run_cmd ls (cCopyShort n) out = copy_out ls n out"
| "run_cmd ls (cCopyThenRaw c raw) out = bindR (copy_out ls c out) (\<lambda>out'. Inr (out' @ raw))"
| "run_cmd ls (cCopyThenRawLong c raw) out = bindR (copy_out ls c out) (\<lambda>out'. Inr (out' @ raw))"
| "run_cmd ls (cCopyThenRepeat c r b) out =
    bindR (copy_out ls c out) (\<lambda>out'. Inr (out' @ replicate r b))"
| "run_cmd ls (cCopyThenRepeatLong c r b) out =
    bindR (copy_out ls c out) (\<lambda>out'. Inr (out' @ replicate r b))"
| "run_cmd ls (cRepeatThenRaw r b raw) out = Inr (out @ replicate r b @ raw)"
| "run_cmd ls (cRepeatThenRawLong r b raw) out = Inr (out @ replicate r b @ raw)"
| "run_cmd ls (cRepeatX r) out = Inr (out @ replicate r RepeatXByte)"
| "run_cmd ls (cRepeatXLong r) out = Inr (out @ replicate r RepeatXByte)"
| "run_cmd ls cEOP out = Inr out"
| "run_cmd ls cEOL out =
    (if ls = 0 then Inl UndefinedBehaviour else copy_out ls (ls - length out mod ls) out)"
| "run_cmd ls cNOP out = Inr out"

subsection \<open>Each function writes its command\<close>

definition write_cmd :: "byte list \<Rightarrow> ScoaCommand \<Rightarrow> fault + (byte list \<times> nat)" where
  "write_cmd buffer c = assertR (wf_cmd c) (Inr (buffer @ enc c, length (enc c)))"

lemma div8_less_32: "n \<le> 255 \<Longrightarrow> n div 8 < (32 :: nat)"
  by simp

lemma CopyLong_writes [cmd_writers]: "CopyLong b n = write_cmd b (cCopyLong n)"
  by (auto simp: CopyLong_def write_cmd_def assertR_def byte_fields)

lemma CopyShort_writes [cmd_writers]: "CopyShort b n = write_cmd b (cCopyShort n)"
  by (auto simp: CopyShort_def write_cmd_def assertR_def byte_fields)

lemma CopyThenRaw_writes [cmd_writers]: "CopyThenRaw b c raw = write_cmd b (cCopyThenRaw c raw)"
  by (auto simp: CopyThenRaw_def write_cmd_def assertR_def byte_fields)

lemma CopyThenRawLong_writes [cmd_writers]:
  "CopyThenRawLong b c raw = write_cmd b (cCopyThenRawLong c raw)"
  by (auto simp: CopyThenRawLong_def Extend_def write_cmd_def assertR_def byte_fields)

lemma CopyThenRepeat_writes [cmd_writers]:
  "CopyThenRepeat b c r x = write_cmd b (cCopyThenRepeat c r x)"
  by (auto simp: CopyThenRepeat_def write_cmd_def assertR_def byte_fields)

lemma CopyThenRepeatLong_writes [cmd_writers]:
  "CopyThenRepeatLong b c r x = write_cmd b (cCopyThenRepeatLong c r x)"
  by (auto simp: CopyThenRepeatLong_def Extend_def write_cmd_def assertR_def byte_fields)

lemma RepeatThenRaw_writes [cmd_writers]:
  "RepeatThenRaw b r x raw = write_cmd b (cRepeatThenRaw r x raw)"
  by (auto simp: RepeatThenRaw_def write_cmd_def assertR_def byte_fields)

lemma RepeatThenRawLong_writes [cmd_writers]:
  "RepeatThenRawLong b r x raw = write_cmd b (cRepeatThenRawLong r x raw)"
  by (auto simp: RepeatThenRawLong_def Extend_def write_cmd_def assertR_def byte_fields)

lemma RepeatX_writes [cmd_writers]: "RepeatX b r = write_cmd b (cRepeatX r)"
  by (auto simp: RepeatX_def write_cmd_def assertR_def byte_fields)

lemma RepeatXLong_writes [cmd_writers]: "RepeatXLong b r = write_cmd b (cRepeatXLong r)"
  by (auto simp: RepeatXLong_def Extend_def write_cmd_def assertR_def byte_fields)

lemma EOP_writes [cmd_writers]: "Inr (EOP b) = write_cmd b cEOP"
  and EOL_writes [cmd_writers]: "Inr (EOL b) = write_cmd b cEOL"
  and NOP_writes [cmd_writers]: "Inr (NOP b) = write_cmd b cNOP"
  by (simp_all add: EOP_def EOL_def NOP_def write_cmd_def)

subsection \<open>Properties\<close>

text \<open>
C22. Every function of the command writer, on every input, writes the bytes of its command
at the end of the buffer and returns their number, or stops at an assertion when the counts
are outside the range of the command; the bits the code sets with masks and shifts are the
fields of \<open>enc\<close>.
\<close>

theorem writers_write_commands:
  "CopyLong b n = write_cmd b (cCopyLong n) \<and>
   CopyShort b n = write_cmd b (cCopyShort n) \<and>
   CopyThenRaw b n raw = write_cmd b (cCopyThenRaw n raw) \<and>
   CopyThenRawLong b n raw = write_cmd b (cCopyThenRawLong n raw) \<and>
   CopyThenRepeat b n r x = write_cmd b (cCopyThenRepeat n r x) \<and>
   CopyThenRepeatLong b n r x = write_cmd b (cCopyThenRepeatLong n r x) \<and>
   RepeatThenRaw b r x raw = write_cmd b (cRepeatThenRaw r x raw) \<and>
   RepeatThenRawLong b r x raw = write_cmd b (cRepeatThenRawLong r x raw) \<and>
   RepeatX b r = write_cmd b (cRepeatX r) \<and>
   RepeatXLong b r = write_cmd b (cRepeatXLong r) \<and>
   Inr (EOP b) = write_cmd b cEOP \<and> Inr (EOL b) = write_cmd b cEOL \<and> Inr (NOP b) = write_cmd b cNOP"
  by (intro conjI) (rule cmd_writers)+

end
