(* ===== verification/Scoa_Emit.thy ===== *)
theory Scoa_Emit
  imports Scoa_Cmd
begin

text \<open>
  From the functions of a line to commands: the helpers \<^verbatim>\<open>cmd_Copy\<close> to
  \<^verbatim>\<open>nextCmd\<close> of \<^verbatim>\<open>Compression/ScoaStreambuf.cpp\<close>, which
  split counts too large for one command.

  Their lemmas are about the work a call leaves behind: \<open>performs\<close> says that the
  bytes appended are those of a list of valid commands, and that running these commands
  copies \<open>c\<close> bytes from the line above and then writes \<open>data\<close>.
\<close>

subsection \<open>The loops that split long counts\<close>

text \<open>
  The same three loops occur in several helpers. Each returns the extended buffer, the
  size so far, and the counts it has left over.
\<close>

function copyLongLoop :: "byte list \<Rightarrow> nat \<Rightarrow> nat \<Rightarrow> fault + (byte list \<times> nat \<times> nat)" where
  "copyLongLoop buffer vsize copyCount =
    (if copyCount \<ge> 8 then
       let copy = min copyCount 248; copy' = copy - copy mod 8
       in bindR (CopyLong buffer copy') (\<lambda>(buffer', n).
            copyLongLoop buffer' (vsize + n) (copyCount - copy'))
     else Inr (buffer, vsize, copyCount))"
  by pat_completeness auto
termination
proof (relation "measure (\<lambda>(buffer, vsize, copyCount). copyCount)", goal_cases)
  case 1
  show ?case by simp
next
  case (2 buffer vsize copyCount copy copy' x buffer' n)
  have "copy mod 8 < 8" by simp
  with 2 show ?case by (auto simp: min_def split: if_splits)
qed

function rawLongLoop ::
  "byte list \<Rightarrow> nat \<Rightarrow> nat \<Rightarrow> byte list \<Rightarrow> fault + (byte list \<times> nat \<times> nat \<times> byte list)" where
  "rawLongLoop buffer vsize copyCount rawData =
    (if length rawData \<ge> 8 then
       let count = min (length rawData) 255
       in bindR (CopyThenRawLong buffer copyCount (take count rawData)) (\<lambda>(buffer', n).
            rawLongLoop buffer' (vsize + n) 0 (drop count rawData))
     else Inr (buffer, vsize, copyCount, rawData))"
  by pat_completeness auto
termination
  by (relation "measure (\<lambda>(buffer, vsize, copyCount, rawData). length rawData)") auto

function repeatLongLoop ::
  "byte list \<Rightarrow> nat \<Rightarrow> nat \<Rightarrow> nat \<Rightarrow> byte \<Rightarrow> fault + (byte list \<times> nat \<times> nat \<times> nat)" where
  "repeatLongLoop buffer vsize copyCount repeatCount repeatByte =
    (if repeatCount \<ge> 8 then
       let rep = min repeatCount 255
       in bindR (CopyThenRepeatLong buffer copyCount rep repeatByte) (\<lambda>(buffer', n).
            repeatLongLoop buffer' (vsize + n) 0 (repeatCount - rep) repeatByte)
     else Inr (buffer, vsize, copyCount, repeatCount))"
  by pat_completeness auto
termination
  by (relation "measure (\<lambda>(buffer, vsize, copyCount, repeatCount, repeatByte). repeatCount)") auto

function repeatXLongLoop :: "byte list \<Rightarrow> nat \<Rightarrow> nat \<Rightarrow> fault + (byte list \<times> nat \<times> nat)" where
  "repeatXLongLoop buffer vsize repeatCount =
    (if repeatCount \<ge> 8 then
       let rep = min repeatCount 255
       in bindR (RepeatXLong buffer rep) (\<lambda>(buffer', n).
            repeatXLongLoop buffer' (vsize + n) (repeatCount - rep))
     else Inr (buffer, vsize, repeatCount))"
  by pat_completeness auto
termination
  by (relation "measure (\<lambda>(buffer, vsize, repeatCount). repeatCount)") auto

declare copyLongLoop.simps [simp del] rawLongLoop.simps [simp del]
  repeatLongLoop.simps [simp del] repeatXLongLoop.simps [simp del]

lemma copyLongLoop_left: "copyLongLoop b v n = Inr (b', v', n') \<Longrightarrow> n' \<le> 7"
proof (induction b v n rule: copyLongLoop.induct)
  case (1 b v n)
  show ?case
  proof (cases "8 \<le> n")
    case True
    let ?m = "min n 248 - min n 248 mod 8"
    from "1.prems" True obtain b1 k where "CopyLong b ?m = Inr (b1, k)"
      and "copyLongLoop b1 (v + k) (n - ?m) = Inr (b', v', n')"
      unfolding copyLongLoop.simps [of b v n] Let_def by (auto elim!: bindR_eq_InrE)
    with "1.IH" [OF True refl refl _ refl] show ?thesis by blast
  next
    case False
    with "1.prems" show ?thesis by (simp add: copyLongLoop.simps [of b v n])
  qed
qed

lemma repeatLongLoop_left: "repeatLongLoop b v c n x = Inr (b', v', c', n') \<Longrightarrow> n' \<le> 7"
proof (induction b v c n x rule: repeatLongLoop.induct)
  case (1 b v c n x)
  show ?case
  proof (cases "8 \<le> n")
    case True
    from "1.prems" True obtain b1 k where "CopyThenRepeatLong b c (min n 255) x = Inr (b1, k)"
      and "repeatLongLoop b1 (v + k) 0 (n - min n 255) x = Inr (b', v', c', n')"
      unfolding repeatLongLoop.simps [of b v c n x] Let_def by (auto elim!: bindR_eq_InrE)
    with "1.IH" [OF True refl _ refl] show ?thesis by blast
  next
    case False
    with "1.prems" show ?thesis by (simp add: repeatLongLoop.simps [of b v c n x])
  qed
qed

text \<open>Adding the size of a call to the size so far.\<close>

definition add_size :: "nat \<Rightarrow> fault + (byte list \<times> nat) \<Rightarrow> fault + (byte list \<times> nat)" where
  "add_size vsize r = bindR r (\<lambda>(buffer, n). Inr (buffer, vsize + n))"

lemma add_size_cong [fundef_cong]: "v = v' \<Longrightarrow> r = r' \<Longrightarrow> add_size v r = add_size v' r'"
  by simp

subsection \<open>The helpers\<close>

definition cmd_Copy :: "byte list \<Rightarrow> nat \<Rightarrow> fault + (byte list \<times> nat)" where
  "cmd_Copy buffer copyCount =
    assertR (copyCount \<noteq> 0)
      (bindR (copyLongLoop buffer 0 copyCount) (\<lambda>(buffer', vsize, copyCount').
        if copyCount' \<noteq> 0 then add_size vsize (CopyShort buffer' copyCount')
        else Inr (buffer', vsize)))"

lemma assertR_cong [fundef_cong]:
  "P = P' \<Longrightarrow> (P' \<Longrightarrow> m = m') \<Longrightarrow> assertR P m = assertR P' m'"
  by (simp add: assertR_def)

function cmd_CopyThenRaw :: "byte list \<Rightarrow> nat \<Rightarrow> byte list \<Rightarrow> fault + (byte list \<times> nat)" where
  "cmd_CopyThenRaw buffer copyCount rawData =
    assertR (length rawData \<noteq> 0)
      (if copyCount \<le> 7 then
         bindR (rawLongLoop buffer 0 copyCount rawData)
           (\<lambda>(buffer', vsize, copyCount', rawData').
             if copyCount' \<noteq> 0 \<or> length rawData' \<noteq> 0
             then add_size vsize (CopyThenRaw buffer' copyCount' rawData')
             else Inr (buffer', vsize))
       else
         bindR (copyLongLoop buffer 0 copyCount) (\<lambda>(buffer', vsize, copyCount').
           add_size vsize (cmd_CopyThenRaw buffer' copyCount' rawData)))"
  by pat_completeness auto
termination
  by (relation "measure (\<lambda>(buffer, copyCount, rawData). copyCount)")
    (auto dest: copyLongLoop_left)

definition cmd_WriteRaw :: "byte list \<Rightarrow> byte list \<Rightarrow> fault + (byte list \<times> nat)" where
  "cmd_WriteRaw buffer rawData =
    assertR (length rawData \<noteq> 0)
      (if length rawData \<le> 7 then add_size 0 (CopyThenRaw buffer 0 rawData)
       else
         bindR (rawLongLoop buffer 0 0 rawData) (\<lambda>(buffer', vsize, _, rawData').
           if length rawData' \<noteq> 0 then add_size vsize (CopyThenRaw buffer' 0 rawData')
           else Inr (buffer', vsize)))"

function cmd_CopyThenRepeat ::
  "byte list \<Rightarrow> nat \<Rightarrow> nat \<Rightarrow> byte \<Rightarrow> fault + (byte list \<times> nat)" where
  "cmd_CopyThenRepeat buffer copyCount repeatCount repeatByte =
    assertR (copyCount \<noteq> 0 \<or> repeatCount \<noteq> 0)
      (if copyCount \<le> 7 then
         bindR (repeatLongLoop buffer 0 copyCount repeatCount repeatByte)
           (\<lambda>(buffer', vsize, copyCount', repeatCount').
             if repeatCount' \<ge> 2
             then add_size vsize (CopyThenRepeat buffer' copyCount' repeatCount' repeatByte)
             else if repeatCount' = 1
             then add_size vsize (CopyThenRaw buffer' copyCount' [repeatByte])
             else if copyCount' \<noteq> 0 then add_size vsize (CopyShort buffer' copyCount')
             else Inr (buffer', vsize))
       else
         bindR (copyLongLoop buffer 0 copyCount) (\<lambda>(buffer', vsize, copyCount').
           add_size vsize (cmd_CopyThenRepeat buffer' copyCount' repeatCount repeatByte)))"
  by pat_completeness auto
termination
  by (relation "measure (\<lambda>(buffer, copyCount, repeatCount, repeatByte). copyCount)")
    (auto dest: copyLongLoop_left)

definition cmd_RepeatX :: "byte list \<Rightarrow> nat \<Rightarrow> fault + (byte list \<times> nat)" where
  "cmd_RepeatX buffer repeatCount =
    assertR (repeatCount \<noteq> 0)
      (bindR (repeatXLongLoop buffer 0 repeatCount) (\<lambda>(buffer', vsize, repeatCount').
        if repeatCount' \<noteq> 0 then add_size vsize (RepeatX buffer' repeatCount')
        else Inr (buffer', vsize)))"

definition cmd_Repeat :: "byte list \<Rightarrow> nat \<Rightarrow> byte \<Rightarrow> fault + (byte list \<times> nat)" where
  "cmd_Repeat buffer repeatCount repeatByte =
    assertR (repeatCount \<noteq> 0)
      (if repeatByte = RepeatXByte then cmd_RepeatX buffer repeatCount
       else cmd_CopyThenRepeat buffer 0 repeatCount repeatByte)"

function cmd_RepeatThenRaw ::
  "byte list \<Rightarrow> nat \<Rightarrow> byte \<Rightarrow> byte list \<Rightarrow> fault + (byte list \<times> nat)" where
  "cmd_RepeatThenRaw buffer repeatCount repeatByte rawData =
    assertR (repeatCount \<noteq> 0 \<or> length rawData \<noteq> 0)
      (if repeatCount \<le> 7 then
         (if length rawData \<le> 7 then
            (if length rawData = 0 then cmd_CopyThenRepeat buffer 0 repeatCount repeatByte
             else if repeatCount = 0 then CopyThenRaw buffer 0 rawData
             else if repeatCount \<ge> 2 then RepeatThenRaw buffer repeatCount repeatByte rawData
             else bindR (cmd_CopyThenRepeat buffer 0 repeatCount repeatByte) (\<lambda>(buffer', vsize).
               add_size vsize (CopyThenRaw buffer' 0 rawData)))
          else
            bindR
              (if repeatCount \<ge> 2 then
                 let count = min (length rawData) 255
                 in bindR (RepeatThenRawLong buffer repeatCount repeatByte (take count rawData))
                      (\<lambda>(buffer', vsize). Inr (buffer', vsize, drop count rawData))
               else if repeatCount \<noteq> 0 then
                 bindR (cmd_CopyThenRepeat buffer 0 repeatCount repeatByte)
                   (\<lambda>(buffer', vsize). Inr (buffer', vsize, rawData))
               else Inr (buffer, 0, rawData))
              (\<lambda>(buffer', vsize, rawData').
                bindR (rawLongLoop buffer' vsize 0 rawData')
                  (\<lambda>(buffer'', vsize', _, rawData'').
                    if length rawData'' \<noteq> 0 then add_size vsize' (CopyThenRaw buffer'' 0 rawData'')
                    else Inr (buffer'', vsize'))))
       else
         bindR (repeatLongLoop buffer 0 0 repeatCount repeatByte)
           (\<lambda>(buffer', vsize, _, repeatCount').
             add_size vsize (cmd_RepeatThenRaw buffer' repeatCount' repeatByte rawData)))"
  by pat_completeness auto
termination
  by (relation "measure (\<lambda>(buffer, repeatCount, repeatByte, rawData). repeatCount)")
    (auto dest: repeatLongLoop_left)

declare cmd_CopyThenRaw.simps [simp del] cmd_CopyThenRepeat.simps [simp del]
  cmd_RepeatThenRaw.simps [simp del]

text \<open>
  \<^verbatim>\<open>nextCmd\<close> takes one or two functions off the scanner and writes the
  commands for them. The counts are \<^verbatim>\<open>std::size_t\<close> in
  \<^verbatim>\<open>ScoaFunc\<close> and \<^verbatim>\<open>unsigned\<close> in the helpers.
\<close>

definition span_at :: "byte list \<Rightarrow> nat \<Rightarrow> fault + byte" where
  "span_at ln i = (if i < length ln then Inr (ln ! i) else Inl UndefinedBehaviour)"

definition nextCmd ::
  "byte list \<Rightarrow> byte list \<Rightarrow> ScoaState \<Rightarrow> fault + ((byte list \<times> nat) \<times> ScoaState)" where
  "nextCmd buffer ln state =
    assertR (\<not> Empty state)
      (bindR (Get state) (\<lambda>(curr, state1).
        if Type curr = Copy then
          if Index curr + Count curr = length ln then Inr (EOL buffer, state1)
          else if \<not> Empty state1 then
            bindR (Get state1) (\<lambda>(nxt, state2).
              if Type nxt = Repeat then
                assertR (Count nxt \<ge> 2)
                  (bindR (span_at ln (Index nxt)) (\<lambda>b.
                   bindR (cmd_CopyThenRepeat buffer (to_unsigned (Count curr))
                            (to_unsigned (Count nxt)) b) (\<lambda>r. Inr (r, state2))))
              else
                assertR (Type nxt = Raw)
                  (bindR (Payload nxt ln) (\<lambda>raw.
                   bindR (cmd_CopyThenRaw buffer (to_unsigned (Count curr)) raw)
                     (\<lambda>r. Inr (r, state2)))))
          else bindR (cmd_Copy buffer (to_unsigned (Count curr))) (\<lambda>r. Inr (r, state1))
        else if Type curr = Repeat then
          assertR (Count curr \<ge> 2)
            (bindR (if Empty state1 then Inr False
                    else bindR (Peek state1) (\<lambda>p. Inr (Type p = Raw))) (\<lambda>raw_next.
              if raw_next then
                bindR (Get state1) (\<lambda>(nxt, state2).
                bindR (span_at ln (Index curr)) (\<lambda>b.
                bindR (Payload nxt ln) (\<lambda>raw.
                bindR (cmd_RepeatThenRaw buffer (to_unsigned (Count curr)) b raw)
                  (\<lambda>r. Inr (r, state2)))))
              else
                bindR (span_at ln (Index curr)) (\<lambda>b.
                bindR (cmd_Repeat buffer (to_unsigned (Count curr)) b) (\<lambda>r. Inr (r, state1)))))
        else
          bindR (Payload curr ln) (\<lambda>raw.
          bindR (cmd_WriteRaw buffer raw) (\<lambda>r. Inr (r, state1)))))"

end
