(* ===== verification/Scoa_Emit_Spec.thy ===== *)
theory Scoa_Emit_Spec
  imports Scoa_Emit
begin

text \<open>
  What the helpers of \<^verbatim>\<open>ScoaStreambuf.cpp\<close> promise. The specification of
  a helper is a number of bytes to copy and a list of bytes to write; \<open>performs\<close> says
  that the bytes it appended are valid commands that do this, whatever the raster decoded
  so far. A loop is described by the work it leaves for the code after it.
\<close>

subsection \<open>Running a list of commands\<close>

definition encs :: "ScoaCommand list \<Rightarrow> byte list" where
  "encs cs = concat (map enc cs)"

fun run_cmds :: "nat \<Rightarrow> ScoaCommand list \<Rightarrow> byte list \<Rightarrow> fault + byte list" where
  "run_cmds ls [] out = Inr out"
| "run_cmds ls (c # cs) out = bindR (run_cmd ls c out) (run_cmds ls cs)"

lemma encs_simps [simp]:
  "encs [] = []" "encs (c # cs) = enc c @ encs cs" "encs (cs @ ds) = encs cs @ encs ds"
  by (simp_all add: encs_def)

lemma run_cmds_append: "run_cmds ls (cs @ ds) out = bindR (run_cmds ls cs out) (run_cmds ls ds)"
proof (induction cs arbitrary: out)
  case (Cons c cs)
  then have "run_cmds ls (cs @ ds) = (\<lambda>out. bindR (run_cmds ls cs out) (run_cmds ls ds))" by blast
  then show ?case by (simp add: bindR_assoc)
qed simp

text \<open>The commands that produce raster bytes.\<close>

definition data_cmd :: "ScoaCommand \<Rightarrow> bool" where
  "data_cmd c \<longleftrightarrow> wf_cmd c \<and> c \<noteq> cEOP \<and> c \<noteq> cNOP"

subsection \<open>Copying in pieces\<close>

lemma copy_out_0 [simp]: "copy_out ls 0 out = Inr out"
  by (simp add: copy_out_def)

lemma copy_out_add:
  assumes "m + n \<le> ls"
  shows "copy_out ls (m + n) out = bindR (copy_out ls m out) (copy_out ls n)"
proof (cases "m = 0 \<or> n = 0 \<or> length out < ls")
  case True
  then show ?thesis by (auto simp: copy_out_def)
next
  case False
  let ?a = "length out - ls"
  have "take (m + n) (drop ?a out) = take m (drop ?a out) @ take n (drop (?a + m) out)"
    by (simp add: take_add add.commute)
  moreover have "copy_out ls m out = Inr (out @ take m (drop ?a out))"
    using False assms by (simp add: copy_out_def)
  moreover have "copy_out ls n (out @ take m (drop ?a out)) =
      Inr ((out @ take m (drop ?a out)) @ take n (drop (?a + m) out))"
    using False assms by (simp add: copy_out_def)
  ultimately show ?thesis
    using False assms by (simp add: copy_out_def)
qed

text \<open>Copy \<open>c\<close> bytes, then write \<open>data\<close>.\<close>

definition work :: "nat \<Rightarrow> nat \<Rightarrow> byte list \<Rightarrow> byte list \<Rightarrow> fault + byte list" where
  "work ls c data out = bindR (copy_out ls c out) (\<lambda>out'. Inr (out' @ data))"

lemma work_done [simp]: "work ls 0 [] out = Inr out"
  by (simp add: work_def)

lemma work_data [simp]: "work ls 0 data out = Inr (out @ data)"
  by (simp add: work_def)

lemma work_copy_first:
  "m + n \<le> ls \<Longrightarrow> bindR (copy_out ls m out) (work ls n data) = work ls (m + n) data out"
  by (simp add: work_def [abs_def] copy_out_add bindR_assoc)

lemma work_data_first:
  "bindR (work ls c data1 out) (work ls 0 data2) = work ls c (data1 @ data2) out"
  by (simp add: work_def [abs_def] bindR_assoc)

definition performs ::
  "nat \<Rightarrow> byte list \<Rightarrow> fault + (byte list \<times> nat) \<Rightarrow> nat \<Rightarrow> byte list \<Rightarrow> bool" where
  "performs ls buffer r c data \<longleftrightarrow>
    (\<exists>cs. r = Inr (buffer @ encs cs, length (encs cs)) \<and> list_all data_cmd cs \<and>
      (\<forall>out. run_cmds ls cs out = work ls c data out))"

lemma performs_write:
  "data_cmd cmd \<Longrightarrow> (\<And>out. run_cmd ls cmd out = work ls c data out) \<Longrightarrow>
    performs ls buffer (write_cmd buffer cmd) c data"
  unfolding performs_def by (rule exI [of _ "[cmd]"]) (simp add: write_cmd_def data_cmd_def bindR_def split: sum.splits)

lemma performs_nothing: "performs ls buffer (Inr (buffer, 0)) 0 []"
  unfolding performs_def by (rule exI [of _ "[]"]) simp

lemma performs_after:
  assumes "list_all data_cmd cs"
    and "\<And>out. bindR (run_cmds ls cs out) (work ls c' data') = work ls c data out"
    and "performs ls (buffer @ encs cs) r c' data'"
  shows "performs ls buffer (add_size (length (encs cs)) r) c data"
proof -
  from assms(3) obtain ds where ds: "r = Inr ((buffer @ encs cs) @ encs ds, length (encs ds))"
    "list_all data_cmd ds" "\<And>out. run_cmds ls ds out = work ls c' data' out"
    unfolding performs_def by blast
  then have "run_cmds ls ds = work ls c' data'" by blast
  with ds(1,2) assms(1,2) show ?thesis
    unfolding performs_def by (intro exI [of _ "cs @ ds"]) (simp add: add_size_def run_cmds_append)
qed

lemma performs_after_done:
  assumes "list_all data_cmd cs"
    and "\<And>out. bindR (run_cmds ls cs out) (work ls 0 []) = work ls c data out"
  shows "performs ls buffer (Inr (buffer @ encs cs, length (encs cs))) c data"
  using performs_after [OF assms performs_nothing] by (simp add: add_size_def)

subsection \<open>Single commands\<close>

lemma performs_CopyShort: "1 \<le> c \<Longrightarrow> c \<le> 7 \<Longrightarrow> performs ls b (CopyShort b c) c []"
  unfolding cmd_writers
  by (rule performs_write) (simp_all add: data_cmd_def work_def bindR_def split: sum.splits)

lemma performs_CopyThenRaw:
  "c \<le> 7 \<Longrightarrow> raw \<noteq> [] \<Longrightarrow> length raw \<le> 7 \<Longrightarrow> performs ls b (CopyThenRaw b c raw) c raw"
  unfolding cmd_writers
  by (rule performs_write) (simp_all add: data_cmd_def work_def Suc_le_eq)

lemma performs_CopyThenRepeat:
  "c \<le> 7 \<Longrightarrow> 2 \<le> r \<Longrightarrow> r \<le> 7 \<Longrightarrow> performs ls b (CopyThenRepeat b c r x) c (replicate r x)"
  unfolding cmd_writers by (rule performs_write) (simp_all add: data_cmd_def work_def)

lemma performs_RepeatThenRaw:
  "2 \<le> r \<Longrightarrow> r \<le> 7 \<Longrightarrow> raw \<noteq> [] \<Longrightarrow> length raw \<le> 7 \<Longrightarrow>
    performs ls b (RepeatThenRaw b r x raw) 0 (replicate r x @ raw)"
  unfolding cmd_writers by (rule performs_write) (simp_all add: data_cmd_def Suc_le_eq)

lemma performs_RepeatThenRawLong:
  "2 \<le> r \<Longrightarrow> r \<le> 7 \<Longrightarrow> 8 \<le> length raw \<Longrightarrow> length raw \<le> 255 \<Longrightarrow>
    performs ls b (RepeatThenRawLong b r x raw) 0 (replicate r x @ raw)"
  unfolding cmd_writers by (rule performs_write) (simp_all add: data_cmd_def)

lemma performs_RepeatX:
  "1 \<le> r \<Longrightarrow> r \<le> 7 \<Longrightarrow> performs ls b (RepeatX b r) 0 (replicate r RepeatXByte)"
  unfolding cmd_writers by (rule performs_write) (simp_all add: data_cmd_def)

subsection \<open>The loops\<close>

lemma run_cmds_step:
  assumes "\<And>out'. bindR (run_cmds ls cs out') k = k' out'"
  shows "bindR (run_cmds ls (c # cs) out) k = bindR (run_cmd ls c out) k'"
proof -
  from assms have "(\<lambda>out'. bindR (run_cmds ls cs out') k) = k'" by blast
  then show ?thesis by (simp add: bindR_assoc)
qed

lemma copyLongLoop_leaves:
  "n \<le> ls \<Longrightarrow> \<exists>cs n'. copyLongLoop b v n = Inr (b @ encs cs, v + length (encs cs), n') \<and>
    n' \<le> 7 \<and> n' \<le> n \<and> list_all data_cmd cs \<and>
    (\<forall>data out. bindR (run_cmds ls cs out) (work ls n' data) = work ls n data out)"
proof (induction n arbitrary: b v rule: less_induct)
  case (less n)
  show ?case
  proof (cases "8 \<le> n")
    case True
    define m where "m = min n 248 - min n 248 mod 8"
    have m: "8 \<le> m" "m \<le> 248" "m \<le> n" "m mod 8 = 0"
      using True by (auto simp: m_def min_def minus_mod_eq_mult_div)
    let ?c = "cCopyLong m"
    have c: "data_cmd ?c" and wr: "CopyLong b m = Inr (b @ enc ?c, length (enc ?c))"
      unfolding cmd_writers using m by (simp_all add: write_cmd_def data_cmd_def)
    have "n - m < n" "n - m \<le> ls" using m less.prems by auto
    from less.IH [OF this, of "b @ enc ?c" "v + length (enc ?c)"]
    obtain cs n' where IH: "copyLongLoop (b @ enc ?c) (v + length (enc ?c)) (n - m) =
        Inr ((b @ enc ?c) @ encs cs, v + length (enc ?c) + length (encs cs), n')"
      "n' \<le> 7" "n' \<le> n - m" "list_all data_cmd cs"
      "\<And>data out. bindR (run_cmds ls cs out) (work ls n' data) = work ls (n - m) data out"
      by blast
    have "copyLongLoop b v n = copyLongLoop (b @ enc ?c) (v + length (enc ?c)) (n - m)"
      using True wr unfolding copyLongLoop.simps [of b v n] Let_def m_def [symmetric] by simp
    moreover have "bindR (run_cmds ls (?c # cs) out) (work ls n' data) = work ls n data out" for data out
      unfolding run_cmds_step [OF IH(5)] using m less.prems work_copy_first [of m "n - m" ls out data]
      by simp
    ultimately show ?thesis
      using IH c by (intro exI [of _ "?c # cs"] exI [of _ n']) (simp del: enc.simps run_cmds.simps)
  next
    case False
    then show ?thesis
      by (intro exI [of _ "[]"] exI [of _ n]) (simp add: copyLongLoop.simps [of b v n])
  qed
qed

lemma rawLongLoop_leaves:
  "c \<le> 7 \<Longrightarrow> \<exists>cs c' raw'.
    rawLongLoop b v c raw = Inr (b @ encs cs, v + length (encs cs), c', raw') \<and>
    length raw' \<le> 7 \<and> (c' = 0 \<or> c' = c \<and> raw' = raw) \<and> list_all data_cmd cs \<and>
    (\<forall>out. bindR (run_cmds ls cs out) (work ls c' raw') = work ls c raw out)"
proof (induction "length raw" arbitrary: raw b v c rule: less_induct)
  case less
  show ?case
  proof (cases "8 \<le> length raw")
    case True
    define m where "m = min (length raw) 255"
    let ?c = "cCopyThenRawLong c (take m raw)"
    have m: "8 \<le> m" "m \<le> length raw" "m \<le> 255" using True by (auto simp: m_def)
    have c: "data_cmd ?c" and wr: "CopyThenRawLong b c (take m raw) = Inr (b @ enc ?c, length (enc ?c))"
      unfolding cmd_writers using m less.prems by (simp_all add: write_cmd_def data_cmd_def)
    have "length (drop m raw) < length raw" "(0 :: nat) \<le> 7" using m by auto
    from less.hyps [OF this, of "b @ enc ?c" "v + length (enc ?c)"]
    obtain cs c' raw' where IH:
      "rawLongLoop (b @ enc ?c) (v + length (enc ?c)) 0 (drop m raw) =
        Inr ((b @ enc ?c) @ encs cs, v + length (enc ?c) + length (encs cs), c', raw')"
      "length raw' \<le> 7" "c' = 0" "list_all data_cmd cs"
      "\<And>out. bindR (run_cmds ls cs out) (work ls c' raw') = work ls 0 (drop m raw) out"
      by blast
    have "rawLongLoop b v c raw = rawLongLoop (b @ enc ?c) (v + length (enc ?c)) 0 (drop m raw)"
      using True wr
      by (simp add: rawLongLoop.simps [of b v c raw] Let_def m_def [symmetric] del: enc.simps)
    moreover have "bindR (run_cmds ls (?c # cs) out) (work ls c' raw') = work ls c raw out" for out
      unfolding run_cmds_step [OF IH(5)]
      using work_data_first [of ls c "take m raw" out "drop m raw"] by (simp add: work_def)
    ultimately show ?thesis
      using IH c
      by (intro exI [of _ "?c # cs"] exI [of _ c'] exI [of _ raw'])
        (simp del: enc.simps run_cmds.simps work_data)
  next
    case False
    then show ?thesis
      by (intro exI [of _ "[]"] exI [of _ c] exI [of _ raw]) (simp add: rawLongLoop.simps [of b v c raw])
  qed
qed

lemma replicate_split: "m \<le> n \<Longrightarrow> replicate n x = replicate m x @ replicate (n - m) x"
  by (simp add: replicate_add [symmetric])

lemma repeatLongLoop_leaves:
  "c \<le> 7 \<Longrightarrow> \<exists>cs c' n'.
    repeatLongLoop b v c n x = Inr (b @ encs cs, v + length (encs cs), c', n') \<and>
    n' \<le> 7 \<and> (c' = 0 \<or> c' = c \<and> n' = n) \<and> list_all data_cmd cs \<and>
    (\<forall>data out. bindR (run_cmds ls cs out) (work ls c' (replicate n' x @ data)) =
      work ls c (replicate n x @ data) out)"
proof (induction n arbitrary: b v c rule: less_induct)
  case (less n)
  show ?case
  proof (cases "8 \<le> n")
    case True
    define m where "m = min n 255"
    let ?c = "cCopyThenRepeatLong c m x"
    have m: "8 \<le> m" "m \<le> n" "m \<le> 255" using True by (auto simp: m_def)
    have c: "data_cmd ?c" and wr: "CopyThenRepeatLong b c m x = Inr (b @ enc ?c, length (enc ?c))"
      unfolding cmd_writers using m less.prems by (simp_all add: write_cmd_def data_cmd_def)
    have "n - m < n" "(0 :: nat) \<le> 7" using m by auto
    from less.IH [OF this, of "b @ enc ?c" "v + length (enc ?c)"]
    obtain cs c' n' where IH:
      "repeatLongLoop (b @ enc ?c) (v + length (enc ?c)) 0 (n - m) x =
        Inr ((b @ enc ?c) @ encs cs, v + length (enc ?c) + length (encs cs), c', n')"
      "n' \<le> 7" "c' = 0" "list_all data_cmd cs"
      "\<And>data out. bindR (run_cmds ls cs out) (work ls c' (replicate n' x @ data)) =
        work ls 0 (replicate (n - m) x @ data) out"
      by blast
    have "repeatLongLoop b v c n x = repeatLongLoop (b @ enc ?c) (v + length (enc ?c)) 0 (n - m) x"
      using True wr
      by (simp add: repeatLongLoop.simps [of b v c n x] Let_def m_def [symmetric] del: enc.simps)
    moreover have "bindR (run_cmds ls (?c # cs) out) (work ls c' (replicate n' x @ data)) =
        work ls c (replicate n x @ data) out" for data out
      unfolding run_cmds_step [OF IH(5)] replicate_split [OF m(2), of x]
      using work_data_first [of ls c "replicate m x" out "replicate (n - m) x @ data"]
      by (simp add: work_def)
    ultimately show ?thesis
      using IH c
      by - (rule exI [of _ "?c # cs"], rule exI [of _ c'], rule exI [of _ n'],
          simp del: enc.simps run_cmds.simps work_data)
  next
    case False
    then show ?thesis
      by - (rule exI [of _ "[]"], rule exI [of _ c], rule exI [of _ n],
          simp add: repeatLongLoop.simps [of b v c n x])
  qed
qed

lemma repeatXLongLoop_leaves:
  "\<exists>cs n'. repeatXLongLoop b v n = Inr (b @ encs cs, v + length (encs cs), n') \<and>
    n' \<le> 7 \<and> list_all data_cmd cs \<and>
    (\<forall>out. bindR (run_cmds ls cs out) (work ls 0 (replicate n' RepeatXByte)) =
      work ls 0 (replicate n RepeatXByte) out)"
proof (induction n arbitrary: b v rule: less_induct)
  case (less n)
  show ?case
  proof (cases "8 \<le> n")
    case True
    define m where "m = min n 255"
    let ?c = "cRepeatXLong m"
    have m: "8 \<le> m" "m \<le> n" "m \<le> 255" using True by (auto simp: m_def)
    have c: "data_cmd ?c" and wr: "RepeatXLong b m = Inr (b @ enc ?c, length (enc ?c))"
      unfolding cmd_writers using m by (simp_all add: write_cmd_def data_cmd_def)
    have "n - m < n" using m by auto
    from less.IH [OF this, of "b @ enc ?c" "v + length (enc ?c)"]
    obtain cs n' where IH:
      "repeatXLongLoop (b @ enc ?c) (v + length (enc ?c)) (n - m) =
        Inr ((b @ enc ?c) @ encs cs, v + length (enc ?c) + length (encs cs), n')"
      "n' \<le> 7" "list_all data_cmd cs"
      "\<And>out. bindR (run_cmds ls cs out) (work ls 0 (replicate n' RepeatXByte)) =
        work ls 0 (replicate (n - m) RepeatXByte) out"
      by blast
    have "repeatXLongLoop b v n = repeatXLongLoop (b @ enc ?c) (v + length (enc ?c)) (n - m)"
      using True wr
      by (simp add: repeatXLongLoop.simps [of b v n] Let_def m_def [symmetric] del: enc.simps)
    moreover have "bindR (run_cmds ls (?c # cs) out) (work ls 0 (replicate n' RepeatXByte)) =
        work ls 0 (replicate n RepeatXByte) out" for out
      unfolding run_cmds_step [OF IH(4)] replicate_split [OF m(2), of RepeatXByte] by simp
    ultimately show ?thesis
      using IH c by (intro exI [of _ "?c # cs"] exI [of _ n']) (simp del: enc.simps run_cmds.simps work_data)
  next
    case False
    then show ?thesis
      by (intro exI [of _ "[]"] exI [of _ n]) (simp add: repeatXLongLoop.simps [of b v n])
  qed
qed

subsection \<open>The helpers\<close>

lemma cmd_Copy_performs:
  assumes "n \<noteq> 0" and "n \<le> ls"
  shows "performs ls b (cmd_Copy b n) n []"
proof -
  obtain cs n' where L: "copyLongLoop b 0 n = Inr (b @ encs cs, length (encs cs), n')" "n' \<le> 7"
    "list_all data_cmd cs" "\<And>out. bindR (run_cmds ls cs out) (work ls n' []) = work ls n [] out"
    using copyLongLoop_leaves [OF assms(2), of b 0] by auto
  show ?thesis
  proof (cases "n' = 0")
    case True
    with L performs_after_done [of cs ls n "[]" b] assms show ?thesis by (simp add: cmd_Copy_def)
  next
    case False
    then have "performs ls (b @ encs cs) (CopyShort (b @ encs cs) n') n' []"
      using L(2) by (intro performs_CopyShort) auto
    from performs_after [OF L(3,4) this] L(1) False assms show ?thesis by (simp add: cmd_Copy_def)
  qed
qed

lemma cmd_CopyThenRaw_short:
  assumes "c \<le> 7" and "raw \<noteq> []"
  shows "performs ls b (cmd_CopyThenRaw b c raw) c raw"
proof -
  obtain cs c' raw' where L:
    "rawLongLoop b 0 c raw = Inr (b @ encs cs, length (encs cs), c', raw')" "length raw' \<le> 7"
    "c' = 0 \<or> c' = c \<and> raw' = raw" "list_all data_cmd cs"
    "\<And>out. bindR (run_cmds ls cs out) (work ls c' raw') = work ls c raw out"
    using rawLongLoop_leaves [OF assms(1), of b 0 raw ls] by auto
  show ?thesis
  proof (cases "c' = 0 \<and> raw' = []")
    case True
    with L performs_after_done [of cs ls c raw b] assms show ?thesis
      by (simp add: cmd_CopyThenRaw.simps [of b c raw])
  next
    case False
    then have "performs ls (b @ encs cs) (CopyThenRaw (b @ encs cs) c' raw') c' raw'"
      using L(2,3) assms by (intro performs_CopyThenRaw) auto
    from performs_after [OF L(4,5) this] L(1) False assms show ?thesis
      by (auto simp: cmd_CopyThenRaw.simps [of b c raw])
  qed
qed

lemma cmd_CopyThenRaw_performs:
  assumes "c \<le> ls" and "raw \<noteq> []"
  shows "performs ls b (cmd_CopyThenRaw b c raw) c raw"
proof (cases "c \<le> 7")
  case True
  then show ?thesis using assms(2) by (rule cmd_CopyThenRaw_short)
next
  case False
  obtain cs c' where L: "copyLongLoop b 0 c = Inr (b @ encs cs, length (encs cs), c')" "c' \<le> 7"
    "list_all data_cmd cs" "\<And>out. bindR (run_cmds ls cs out) (work ls c' raw) = work ls c raw out"
    using copyLongLoop_leaves [OF assms(1), of b 0] by auto
  from performs_after [OF L(3,4) cmd_CopyThenRaw_short [OF L(2) assms(2)]] L(1) False assms
  show ?thesis by (simp add: cmd_CopyThenRaw.simps [of b c raw])
qed

lemma cmd_WriteRaw_performs:
  assumes "raw \<noteq> []"
  shows "performs ls b (cmd_WriteRaw b raw) 0 raw"
proof -
  have "c = 0 \<Longrightarrow> performs ls b (cmd_CopyThenRaw b c raw) c raw" for c
    using assms by (intro cmd_CopyThenRaw_short) auto
  moreover have "cmd_WriteRaw b raw = cmd_CopyThenRaw b 0 raw"
  proof (cases "length raw \<le> 7")
    case True
    with assms show ?thesis
      by (simp add: cmd_WriteRaw_def cmd_CopyThenRaw.simps [of b 0 raw] rawLongLoop.simps [of b 0 0 raw])
  next
    case False
    obtain cs c' raw' where "rawLongLoop b 0 0 raw = Inr (b @ encs cs, length (encs cs), c', raw')"
      "c' = 0"
      using rawLongLoop_leaves [of 0 b 0 raw ls] by auto
    with False assms show ?thesis
      by (simp add: cmd_WriteRaw_def cmd_CopyThenRaw.simps [of b 0 raw])
  qed
  ultimately show ?thesis by simp
qed

lemma cmd_CopyThenRepeat_short:
  assumes "c \<le> 7" and "c \<noteq> 0 \<or> n \<noteq> 0"
  shows "performs ls b (cmd_CopyThenRepeat b c n x) c (replicate n x)"
proof -
  obtain cs c' n' where L:
    "repeatLongLoop b 0 c n x = Inr (b @ encs cs, length (encs cs), c', n')" "n' \<le> 7"
    "c' = 0 \<or> c' = c \<and> n' = n" "list_all data_cmd cs"
    and all: "\<forall>data out. bindR (run_cmds ls cs out) (work ls c' (replicate n' x @ data)) =
      work ls c (replicate n x @ data) out"
    using repeatLongLoop_leaves [OF assms(1), of b 0 n x ls] by auto
  have run: "bindR (run_cmds ls cs out) (work ls c' (replicate n' x)) = work ls c (replicate n x) out" for out
    using all [rule_format, where data = "[]" and out = out] by simp
  have c': "c' \<le> 7" using L(3) assms by auto
  let ?b = "b @ encs cs"
  consider (repeat) "2 \<le> n'" | (one) "n' = 1" | (copy) "n' = 0" "c' \<noteq> 0" | (none) "n' = 0" "c' = 0"
    by linarith
  then show ?thesis
  proof cases
    case repeat
    from performs_after [OF L(4) run performs_CopyThenRepeat [OF c' repeat L(2)]] L(1) repeat assms
    show ?thesis by (simp add: cmd_CopyThenRepeat.simps [of b c n x])
  next
    case one
    have "performs ls ?b (CopyThenRaw ?b c' [x]) c' (replicate n' x)"
      using performs_CopyThenRaw [OF c', of "[x]" ls ?b] one by simp
    from performs_after [OF L(4) run this] L(1) one assms
    show ?thesis by (simp add: cmd_CopyThenRepeat.simps [of b c n x])
  next
    case copy
    have "performs ls ?b (CopyShort ?b c') c' (replicate n' x)"
      using performs_CopyShort [OF _ c', of ls ?b] copy by simp
    from performs_after [OF L(4) run this] L(1) copy assms
    show ?thesis by (simp add: cmd_CopyThenRepeat.simps [of b c n x])
  next
    case none
    with L run performs_after_done [of cs ls c "replicate n x" b] assms show ?thesis
      by (simp add: cmd_CopyThenRepeat.simps [of b c n x])
  qed
qed

lemma cmd_CopyThenRepeat_performs:
  assumes "c \<le> ls" and "n \<noteq> 0"
  shows "performs ls b (cmd_CopyThenRepeat b c n x) c (replicate n x)"
proof (cases "c \<le> 7")
  case True
  then show ?thesis using assms(2) by (simp add: cmd_CopyThenRepeat_short)
next
  case False
  obtain cs c' where L: "copyLongLoop b 0 c = Inr (b @ encs cs, length (encs cs), c')" "c' \<le> 7"
    "list_all data_cmd cs"
    "\<And>out. bindR (run_cmds ls cs out) (work ls c' (replicate n x)) = work ls c (replicate n x) out"
    using copyLongLoop_leaves [OF assms(1), of b 0] by auto
  have "performs ls (b @ encs cs) (cmd_CopyThenRepeat (b @ encs cs) c' n x) c' (replicate n x)"
    using L(2) assms(2) by (simp add: cmd_CopyThenRepeat_short)
  from performs_after [OF L(3,4) this] L(1) False assms
  show ?thesis by (simp add: cmd_CopyThenRepeat.simps [of b c n x])
qed

lemma cmd_RepeatX_performs:
  assumes "n \<noteq> 0"
  shows "performs ls b (cmd_RepeatX b n) 0 (replicate n RepeatXByte)"
proof -
  obtain cs n' where L: "repeatXLongLoop b 0 n = Inr (b @ encs cs, length (encs cs), n')" "n' \<le> 7"
    "list_all data_cmd cs"
    "\<And>out. bindR (run_cmds ls cs out) (work ls 0 (replicate n' RepeatXByte)) =
      work ls 0 (replicate n RepeatXByte) out"
    using repeatXLongLoop_leaves [of b 0 n ls] by auto
  show ?thesis
  proof (cases "n' = 0")
    case True
    with L performs_after_done [of cs ls 0 "replicate n RepeatXByte" b] assms show ?thesis
      by (simp add: cmd_RepeatX_def)
  next
    case False
    then have "performs ls (b @ encs cs) (RepeatX (b @ encs cs) n') 0 (replicate n' RepeatXByte)"
      using L(2) by (intro performs_RepeatX) auto
    from performs_after [OF L(3,4) this] L(1) False assms show ?thesis by (simp add: cmd_RepeatX_def)
  qed
qed

lemma cmd_Repeat_performs: "n \<noteq> 0 \<Longrightarrow> performs ls b (cmd_Repeat b n x) 0 (replicate n x)"
  by (simp add: cmd_Repeat_def cmd_RepeatX_performs cmd_CopyThenRepeat_short)

text \<open>
  The same composition for a helper that calls another helper and goes on with its size.
\<close>

lemma performs_then:
  assumes "performs ls b r c data1"
    and "\<And>cs. performs ls (b @ encs cs) (k (b @ encs cs, length (encs cs))) 0 data2"
  shows "performs ls b (bindR r (\<lambda>(b', v). add_size v (k (b', v)))) c (data1 @ data2)"
proof -
  from assms(1) obtain cs where cs: "r = Inr (b @ encs cs, length (encs cs))" "list_all data_cmd cs"
    "\<And>out. run_cmds ls cs out = work ls c data1 out"
    unfolding performs_def by blast
  have "bindR (run_cmds ls cs out) (work ls 0 data2) = work ls c (data1 @ data2) out" for out
    unfolding cs(3) by (rule work_data_first)
  from performs_after [OF cs(2) this assms(2)] cs(1) show ?thesis by simp
qed

lemma rawLongLoop_size:
  "rawLongLoop b (v + w) c raw =
    bindR (rawLongLoop b v c raw) (\<lambda>(b', n, c', raw'). Inr (b', n + w, c', raw'))"
proof (induction b v c raw rule: rawLongLoop.induct)
  case (1 b v c raw)
  show ?case
  proof (cases "8 \<le> length raw")
    case True
    let ?m = "min (length raw) 255"
    show ?thesis
    proof (cases "CopyThenRawLong b c (take ?m raw)")
      case (Inr p)
      with "1.IH" [OF True refl this, of "fst p" "snd p"] True show ?thesis
        by (cases p) (simp add: rawLongLoop.simps [of b _ c raw] Let_def ac_simps)
    qed (simp add: True rawLongLoop.simps [of b _ c raw] Let_def)
  qed (simp add: rawLongLoop.simps [of b _ c raw])
qed

lemma raw_rest_performs:
  "performs ls b
    (bindR (rawLongLoop b 0 0 raw) (\<lambda>(b', v, c', raw').
      if length raw' \<noteq> 0 then add_size v (CopyThenRaw b' 0 raw') else Inr (b', v))) 0 raw"
proof (cases "raw = []")
  case True
  then show ?thesis by (simp add: rawLongLoop.simps [of b 0 0 "[]"] performs_nothing)
next
  case False
  obtain cs raw' where "rawLongLoop b 0 0 raw = Inr (b @ encs cs, length (encs cs), 0, raw')"
    using rawLongLoop_leaves [of 0 b 0 raw ls] by auto
  with cmd_CopyThenRaw_short [OF _ False, of 0 ls b] False show ?thesis
    by (simp add: cmd_CopyThenRaw.simps [of b 0 raw])
qed

lemma raw_rest_add_size:
  "add_size v (bindR (rawLongLoop b 0 0 raw) (\<lambda>(b', v', c', raw').
      if raw' \<noteq> [] then add_size v' (CopyThenRaw b' 0 raw') else Inr (b', v'))) =
   bindR (rawLongLoop b v 0 raw) (\<lambda>(b', v', c', raw').
      if raw' \<noteq> [] then add_size v' (CopyThenRaw b' 0 raw') else Inr (b', v'))"
  using rawLongLoop_size [of b 0 v 0 raw]
  by (simp add: bindR_def add_size_def ac_simps split: sum.splits prod.splits)

lemma bindR_triple:
  "bindR (bindR r (\<lambda>(b', v). Inr (b', v, x))) (\<lambda>(b', v, y). k b' v y) = bindR r (\<lambda>(b', v). k b' v x)"
  by (simp add: bindR_def split: sum.splits prod.splits)

lemma cmd_RepeatThenRaw_short:
  assumes "n \<le> 7" and raw: "raw \<noteq> []"
  shows "performs ls b (cmd_RepeatThenRaw b n x raw) 0 (replicate n x @ raw)"
proof (cases "length raw \<le> 7")
  case True
  have one: "performs ls b (bindR (cmd_CopyThenRepeat b 0 1 x)
      (\<lambda>(b', v). add_size v (CopyThenRaw b' 0 raw))) 0 (replicate 1 x @ raw)"
    by (rule performs_then [where k = "\<lambda>(b', v). CopyThenRaw b' 0 raw", simplified prod.case])
      (simp_all add: cmd_CopyThenRepeat_short performs_CopyThenRaw True raw del: replicate.simps)
  consider "n = 0" | "n = 1" | "2 \<le> n" by linarith
  then show ?thesis
    using True assms one performs_CopyThenRaw [of 0 raw ls b] performs_RepeatThenRaw [of n raw ls b x]
    by cases (simp_all add: cmd_RepeatThenRaw.simps [of b _ x raw])
next
  case False
  let ?m = "min (length raw) 255"
  have m: "8 \<le> ?m" "?m \<le> length raw" using False by auto
  let ?rest = "\<lambda>raw b'. bindR (rawLongLoop b' 0 0 raw) (\<lambda>(b', v, c', raw').
      if length raw' \<noteq> 0 then add_size v (CopyThenRaw b' 0 raw') else Inr (b', v))"
  consider (none) "n = 0" | (one) "n = 1" | (many) "2 \<le> n" by linarith
  then show ?thesis
  proof cases
    case none
    with False raw raw_rest_performs [of ls b raw] show ?thesis
      by (simp add: cmd_RepeatThenRaw.simps [of b _ x raw])
  next
    case one
    have "performs ls b (cmd_CopyThenRepeat b 0 n x) 0 (replicate n x)"
      using one by (intro cmd_CopyThenRepeat_short) auto
    then have "performs ls b (bindR (cmd_CopyThenRepeat b 0 n x) (\<lambda>(b', v). add_size v (?rest raw b')))
        0 (replicate n x @ raw)"
      by (rule performs_then [where k = "\<lambda>(b', v). ?rest raw b'", simplified prod.case])
        (rule raw_rest_performs)
    with False one raw show ?thesis
      by (simp add: cmd_RepeatThenRaw.simps [of b _ x raw] bindR_triple raw_rest_add_size)
  next
    case many
    have "performs ls b (RepeatThenRawLong b n x (take ?m raw)) 0 (replicate n x @ take ?m raw)"
      using many assms m by (intro performs_RepeatThenRawLong) auto
    then have "performs ls b (bindR (RepeatThenRawLong b n x (take ?m raw))
        (\<lambda>(b', v). add_size v (?rest (drop ?m raw) b')))
        0 ((replicate n x @ take ?m raw) @ drop ?m raw)"
      by (rule performs_then [where k = "\<lambda>(b', v). ?rest (drop ?m raw) b'", simplified prod.case])
        (rule raw_rest_performs)
    with False many assms show ?thesis
      by (simp add: cmd_RepeatThenRaw.simps [of b n x raw] Let_def bindR_triple raw_rest_add_size)
  qed
qed

lemma cmd_RepeatThenRaw_performs:
  assumes "raw \<noteq> []"
  shows "performs ls b (cmd_RepeatThenRaw b n x raw) 0 (replicate n x @ raw)"
proof (cases "n \<le> 7")
  case True
  then show ?thesis using assms by (rule cmd_RepeatThenRaw_short)
next
  case False
  obtain cs n' where L: "repeatLongLoop b 0 0 n x = Inr (b @ encs cs, length (encs cs), 0, n')"
    "n' \<le> 7" "list_all data_cmd cs"
    and all: "\<forall>data out. bindR (run_cmds ls cs out) (work ls 0 (replicate n' x @ data)) =
      work ls 0 (replicate n x @ data) out"
    using repeatLongLoop_leaves [of 0 b 0 n x ls] by auto
  from performs_after [OF L(3) all [rule_format, where data = raw] cmd_RepeatThenRaw_short [OF L(2) assms]]
    L(1) False assms
  show ?thesis by (simp add: cmd_RepeatThenRaw.simps [of b n x raw])
qed

subsection \<open>One call of \<open>nextCmd\<close>\<close>

text \<open>
  The raster decoded before the current line. On the first line there is nothing above;
  afterwards \<open>prev\<close> is the line just before.
\<close>

definition above :: "byte list \<Rightarrow> byte list \<Rightarrow> byte list \<Rightarrow> bool" where
  "above done prev ln \<longleftrightarrow> length ln dvd length done \<and>
    (prev = [] \<or> length prev = length ln \<and> (\<exists>before. done = before @ prev))"

lemma copy_out_line:
  assumes above: "above done prev ln" and just: "justified prev ln f" and copy: "Type f = Copy"
    and range: "Index f + Count f \<le> length ln"
  shows "copy_out (length ln) (Count f) (done @ take (Index f) ln) =
    Inr (done @ take (Index f + Count f) ln)"
proof -
  from just copy have prev: "prev \<noteq> []"
    and eq: "\<And>k. Index f \<le> k \<Longrightarrow> k < Index f + Count f \<Longrightarrow> ln ! k = prev ! k"
    by (auto simp: justified_def)
  with above obtain before where before: "done = before @ prev" "length prev = length ln"
    by (auto simp: above_def)
  have "take (Count f) (drop (Index f) prev) = take (Count f) (drop (Index f) ln)"
    using eq range before(2) by (intro nth_equalityI) auto
  moreover have "drop (length (done @ take (Index f) ln) - length ln) (done @ take (Index f) ln) =
      drop (Index f) prev @ take (Index f) ln"
    using before range by simp
  ultimately have "take (Count f)
      (drop (length (done @ take (Index f) ln) - length ln) (done @ take (Index f) ln)) =
      take (Count f) (drop (Index f) ln)"
    using range before(2) by simp
  then show ?thesis
    using range before by (auto simp: copy_out_def take_add)
qed

lemma repeat_line:
  assumes "justified prev ln f" and "Type f = Repeat" and "Index f + Count f \<le> length ln"
  shows "take (Index f) ln @ replicate (Count f) (ln ! Index f) = take (Index f + Count f) ln"
proof -
  have all: "\<forall>k \<in> {Index f..<Index f + Count f}. ln ! k = ln ! Index f"
    using assms(1) unfolding justified_Repeat [OF assms(2)] by blast
  have eq: "ln ! (Index f + k) = ln ! Index f" if "k < Count f" for k
    by (rule all [rule_format]) (use that in simp)
  have "take (Count f) (drop (Index f) ln) = replicate (Count f) (ln ! Index f)"
    using assms(3) by (intro nth_equalityI) (simp_all add: eq)
  then show ?thesis by (simp add: take_add)
qed

lemma payload_line:
  assumes "Count f \<ge> 1" and "Index f + Count f \<le> length ln"
  obtains raw where "Payload f ln = Inr raw" "raw \<noteq> []"
    "take (Index f) ln @ raw = take (Index f + Count f) ln"
  using assms that [of "take (Count f) (drop (Index f) ln)"] by (auto simp: Payload_def take_add)

text \<open>
  \<open>lays r buffer done ln i j\<close>: the bytes appended in \<open>r\<close> are commands that take
  a decoder from byte \<open>i\<close> of the line to byte \<open>j\<close>.
\<close>

definition lays ::
  "fault + (byte list \<times> nat) \<Rightarrow> byte list \<Rightarrow> byte list \<Rightarrow> byte list \<Rightarrow> nat \<Rightarrow> nat \<Rightarrow> bool" where
  "lays r buffer done ln i j \<longleftrightarrow>
    (\<exists>cs. r = Inr (buffer @ encs cs, length (encs cs)) \<and> list_all data_cmd cs \<and>
      run_cmds (length ln) cs (done @ take i ln) = Inr (done @ take j ln))"

lemma lays_performs:
  assumes "performs (length ln) b r c data"
    and "copy_out (length ln) c (done @ take i ln) = Inr (done @ take k ln)"
    and "take k ln @ data = take j ln"
  shows "lays r b done ln i j"
  using assms unfolding lays_def performs_def by (auto simp: work_def)

text \<open>
  The state between two calls: the scanner stands at byte \<open>i\<close> of the line and its
  remaining functions tile the rest.
\<close>

definition ready :: "ScoaState \<Rightarrow> byte list \<Rightarrow> byte list \<Rightarrow> byte list \<Rightarrow> nat \<Rightarrow> bool" where
  "ready st done prev ln i \<longleftrightarrow>
    scan_ok st \<and> lineF st = ln \<and> length ln < 2 ^ 32 \<and> above done prev ln \<and>
    tiles prev ln i (todo st) \<and> successively may_follow (todo st)"

lemma ready_Get:
  assumes "ready st done prev ln i" and "todo st = f # fs"
  obtains st1 where "Get st = Inr (f, st1)" "ready st1 done prev ln (i + Count f)" "todo st1 = fs"
proof -
  obtain st1 where "Get st = Inr (f, st1)" "scan_ok st1" "lineF st1 = lineF st" "todo st1 = fs"
    using Get_todo [of st f fs] assms by (auto simp: ready_def)
  with assms that [of st1] show thesis
    by (cases fs) (auto simp: ready_def)
qed

lemma ready_func:
  assumes "ready st done prev ln i" and "todo st = f # fs"
  shows "Index f = i" "1 \<le> Count f" "i + Count f \<le> length ln" "justified prev ln f"
    "to_unsigned (Count f) = Count f" "span_at ln (Index f) = Inr (ln ! Index f)"
    "Peek st = Inr f" "above done prev ln"
    "\<not> Empty st" "fs \<noteq> [] \<longrightarrow> may_follow f (hd fs)" "fs = [] \<longleftrightarrow> i + Count f = length ln"
  using assms Peek_todo [of st f fs]
  by (auto simp: ready_def span_at_def todo_empty) (cases fs; auto)+

lemma Repeat_two: "justified prev ln f \<Longrightarrow> Type f = Repeat \<Longrightarrow> 2 \<le> Count f"
  using justified_Repeat by blast

definition nextCmd_ok ::
  "fault + ((byte list \<times> nat) \<times> ScoaState) \<Rightarrow> byte list \<Rightarrow> byte list \<Rightarrow> byte list \<Rightarrow> byte list \<Rightarrow>
    nat \<Rightarrow> bool" where
  "nextCmd_ok r buffer done prev ln i \<longleftrightarrow>
    (\<exists>e st' j. r = bindR e (\<lambda>x. Inr (x, st')) \<and> lays e buffer done ln i j \<and> i < j \<and>
      ready st' done prev ln j)"

lemma nextCmd_okI:
  "r = bindR e (\<lambda>x. Inr (x, st')) \<Longrightarrow> lays e buffer done ln i j \<Longrightarrow> i < j \<Longrightarrow>
    ready st' done prev ln j \<Longrightarrow> nextCmd_ok r buffer done prev ln i"
  unfolding nextCmd_ok_def by blast

lemma nextCmd_raw:
  assumes st: "ready st done prev ln i" "todo st = f # fs" and raw: "Type f = Raw"
  shows "nextCmd_ok (nextCmd buffer ln st) buffer done prev ln i"
proof -
  note f = ready_func [OF st]
  obtain st1 where st1: "Get st = Inr (f, st1)" "ready st1 done prev ln (i + Count f)"
    using st by (rule ready_Get)
  obtain data where data: "Payload f ln = Inr data" "data \<noteq> []"
    "take i ln @ data = take (i + Count f) ln"
    using payload_line [of f ln] f by auto
  have "lays (cmd_WriteRaw buffer data) buffer done ln i (i + Count f)"
    by (rule lays_performs [OF cmd_WriteRaw_performs [OF data(2)] _ data(3)]) simp
  moreover have "nextCmd buffer ln st = bindR (cmd_WriteRaw buffer data) (\<lambda>x. Inr (x, st1))"
    using raw st1 f data(1) by (simp add: nextCmd_def)
  ultimately show ?thesis using st1 f by (intro nextCmd_okI [of _ _ st1]) simp_all
qed

lemma nextCmd_repeat_alone:
  assumes st: "ready st done prev ln i" "todo st = f # fs" and rep: "Type f = Repeat"
    and alone: "fs = [] \<or> Type (hd fs) \<noteq> Raw"
  shows "nextCmd_ok (nextCmd buffer ln st) buffer done prev ln i"
proof -
  note f = ready_func [OF st]
  obtain st1 where st1: "Get st = Inr (f, st1)" "ready st1 done prev ln (i + Count f)" "todo st1 = fs"
    using st by (rule ready_Get)
  have two: "2 \<le> Count f" using f(4) rep by (rule Repeat_two)
  have "take i ln @ replicate (Count f) (ln ! Index f) = take (i + Count f) ln"
    using repeat_line [OF f(4) rep] f by simp
  then have "lays (cmd_Repeat buffer (Count f) (ln ! Index f)) buffer done ln i (i + Count f)"
    by (intro lays_performs [OF cmd_Repeat_performs]) (use two in simp_all)
  moreover have "nextCmd buffer ln st =
      bindR (cmd_Repeat buffer (Count f) (ln ! Index f)) (\<lambda>x. Inr (x, st1))"
  proof (cases fs)
    case Nil
    with rep st1 f two show ?thesis by (simp add: nextCmd_def todo_empty)
  next
    case (Cons g gs)
    with rep st1 f two alone ready_func [OF st1(2), of g gs] show ?thesis
      by (simp add: nextCmd_def todo_empty)
  qed
  ultimately show ?thesis using st1 f by (intro nextCmd_okI [of _ _ st1]) simp_all
qed

lemma nextCmd_repeat_raw:
  assumes st: "ready st done prev ln i" "todo st = f # g # gs"
    and types: "Type f = Repeat" "Type g = Raw"
  shows "nextCmd_ok (nextCmd buffer ln st) buffer done prev ln i"
proof -
  note f = ready_func [OF st]
  obtain st1 where st1: "Get st = Inr (f, st1)" "ready st1 done prev ln (i + Count f)"
    "todo st1 = g # gs"
    using st by (rule ready_Get)
  note g = ready_func [OF st1(2,3)]
  obtain st2 where st2: "Get st1 = Inr (g, st2)" "ready st2 done prev ln (i + Count f + Count g)"
    using st1(2,3) by (rule ready_Get)
  have two: "2 \<le> Count f" using f(4) types(1) by (rule Repeat_two)
  obtain data where data: "Payload g ln = Inr data" "data \<noteq> []"
    "take (i + Count f) ln @ data = take (i + Count f + Count g) ln"
    using payload_line [of g ln] g by auto
  let ?e = "cmd_RepeatThenRaw buffer (Count f) (ln ! Index f) data"
  have "take i ln @ replicate (Count f) (ln ! Index f) = take (i + Count f) ln"
    using repeat_line [OF f(4) types(1)] f by simp
  with data(3) have "take i ln @ replicate (Count f) (ln ! Index f) @ data =
      take (i + Count f + Count g) ln"
    by (simp flip: append_assoc)
  then have "lays ?e buffer done ln i (i + Count f + Count g)"
    by (intro lays_performs [OF cmd_RepeatThenRaw_performs [OF data(2)]]) simp_all
  moreover have "nextCmd buffer ln st = bindR ?e (\<lambda>x. Inr (x, st2))"
    using types st1 st2 f g two data(1) by (simp add: nextCmd_def)
  ultimately show ?thesis using st2 f by (intro nextCmd_okI [of _ _ st2]) simp_all
qed

lemma nextCmd_eol:
  assumes st: "ready st done prev ln i" "todo st = [f]" and copy: "Type f = Copy"
  shows "nextCmd_ok (nextCmd buffer ln st) buffer done prev ln i"
proof -
  note f = ready_func [OF st]
  obtain st1 where st1: "Get st = Inr (f, st1)" "ready st1 done prev ln (i + Count f)"
    using st by (rule ready_Get)
  have end_line: "i + Count f = length ln" and i: "i < length ln" using f by auto
  have "(length done + i) mod length ln = i"
    using f(8) i by (auto simp: above_def)
  then have "run_cmds (length ln) [cEOL] (done @ take i ln) =
      copy_out (length ln) (length ln - i) (done @ take i ln)"
    using i by (auto simp: bindR_def split: sum.splits)
  also have "length ln - i = Count f" using end_line by simp
  also have "copy_out (length ln) (Count f) (done @ take i ln) = Inr (done @ take (length ln) ln)"
    using copy_out_line [OF f(8,4) copy] f end_line by simp
  finally have "lays (Inr (EOL buffer)) buffer done ln i (length ln)"
    unfolding lays_def by (intro exI [of _ "[cEOL]"]) (simp add: EOL_def data_cmd_def del: run_cmds.simps)
  moreover have "nextCmd buffer ln st = bindR (Inr (EOL buffer)) (\<lambda>x. Inr (x, st1))"
    using end_line copy st1 f by (simp add: nextCmd_def)
  ultimately show ?thesis using st1 i end_line by (intro nextCmd_okI [of _ _ st1]) simp_all
qed

lemma nextCmd_copy_repeat:
  assumes st: "ready st done prev ln i" "todo st = f # g # gs"
    and types: "Type f = Copy" "Type g = Repeat"
  shows "nextCmd_ok (nextCmd buffer ln st) buffer done prev ln i"
proof -
  note f = ready_func [OF st]
  obtain st1 where st1: "Get st = Inr (f, st1)" "ready st1 done prev ln (i + Count f)"
    "todo st1 = g # gs"
    using st by (rule ready_Get)
  note g = ready_func [OF st1(2,3)]
  obtain st2 where st2: "Get st1 = Inr (g, st2)" "ready st2 done prev ln (i + Count f + Count g)"
    using st1(2,3) by (rule ready_Get)
  have two: "2 \<le> Count g" using g(4) types(2) by (rule Repeat_two)
  have fits: "Count f \<le> length ln" and more: "i + Count f \<noteq> length ln" using f g by auto
  have copied: "copy_out (length ln) (Count f) (done @ take i ln) = Inr (done @ take (i + Count f) ln)"
    using copy_out_line [OF f(8,4) types(1)] f by simp
  let ?e = "cmd_CopyThenRepeat buffer (Count f) (Count g) (ln ! Index g)"
  have "lays ?e buffer done ln i (i + Count f + Count g)"
    using copied repeat_line [OF g(4) types(2)] g two
    by (intro lays_performs [OF cmd_CopyThenRepeat_performs [OF fits]]) simp_all
  moreover have "nextCmd buffer ln st = bindR ?e (\<lambda>x. Inr (x, st2))"
    using types st1 st2 f g two more by (simp add: nextCmd_def)
  ultimately show ?thesis using st2 f by (intro nextCmd_okI [of _ _ st2]) simp_all
qed

lemma nextCmd_copy_raw:
  assumes st: "ready st done prev ln i" "todo st = f # g # gs"
    and types: "Type f = Copy" "Type g = Raw"
  shows "nextCmd_ok (nextCmd buffer ln st) buffer done prev ln i"
proof -
  note f = ready_func [OF st]
  obtain st1 where st1: "Get st = Inr (f, st1)" "ready st1 done prev ln (i + Count f)"
    "todo st1 = g # gs"
    using st by (rule ready_Get)
  note g = ready_func [OF st1(2,3)]
  obtain st2 where st2: "Get st1 = Inr (g, st2)" "ready st2 done prev ln (i + Count f + Count g)"
    using st1(2,3) by (rule ready_Get)
  obtain data where data: "Payload g ln = Inr data" "data \<noteq> []"
    "take (i + Count f) ln @ data = take (i + Count f + Count g) ln"
    using payload_line [of g ln] g by auto
  have fits: "Count f \<le> length ln" and more: "i + Count f \<noteq> length ln" using f g by auto
  have copied: "copy_out (length ln) (Count f) (done @ take i ln) = Inr (done @ take (i + Count f) ln)"
    using copy_out_line [OF f(8,4) types(1)] f by simp
  let ?e = "cmd_CopyThenRaw buffer (Count f) data"
  have "lays ?e buffer done ln i (i + Count f + Count g)"
    by (rule lays_performs [OF cmd_CopyThenRaw_performs [OF fits data(2)] copied data(3)])
  moreover have "nextCmd buffer ln st = bindR ?e (\<lambda>x. Inr (x, st2))"
    using types st1 st2 f g more data(1) by (simp add: nextCmd_def)
  ultimately show ?thesis using st2 f by (intro nextCmd_okI [of _ _ st2]) simp_all
qed

lemma nextCmd_lays:
  assumes st: "ready st done prev ln i" and "\<not> Empty st"
  shows "nextCmd_ok (nextCmd buffer ln st) buffer done prev ln i"
proof -
  obtain f fs where todo: "todo st = f # fs" using assms(2) by (cases "todo st") (auto simp: todo_empty)
  show ?thesis
  proof (cases "Type f")
    case Raw
    with st todo show ?thesis by (rule nextCmd_raw)
  next
    case Repeat
    show ?thesis
    proof (cases "fs = [] \<or> Type (hd fs) \<noteq> Raw")
      case True
      with st todo Repeat show ?thesis by (rule nextCmd_repeat_alone)
    next
      case False
      then obtain g gs where "fs = g # gs" "Type g = Raw" by (cases fs) auto
      with st todo Repeat show ?thesis using nextCmd_repeat_raw by blast
    qed
  next
    case Copy
    show ?thesis
    proof (cases fs)
      case Nil
      with st todo Copy show ?thesis using nextCmd_eol by blast
    next
      case (Cons g gs)
      with ready_func(10) [OF st todo] Copy have "Type g \<noteq> Copy" by (auto simp: may_follow_def)
      with st todo Copy Cons show ?thesis
        using nextCmd_copy_repeat nextCmd_copy_raw by (cases "Type g") blast+
    qed
  qed
qed

subsection \<open>Properties\<close>

text \<open>
C21. The helpers of the compressor do what their names say, for counts and data of any
length that fits the line: whatever the raster decoded so far, the commands they append are
well-formed, and running them copies the given number of bytes from the line above and
writes the given bytes, no more and no less; the returned size is the number of bytes
appended, and no assertion of a command writer fails.
\<close>

theorem helpers_perform:
  assumes "1 \<le> n" and "n \<le> ls" and "1 \<le> r" and "raw \<noteq> []"
  shows "performs ls b (cmd_Copy b n) n [] \<and>
    performs ls b (cmd_CopyThenRaw b n raw) n raw \<and>
    performs ls b (cmd_CopyThenRepeat b n r x) n (replicate r x) \<and>
    performs ls b (cmd_WriteRaw b raw) 0 raw \<and>
    performs ls b (cmd_Repeat b r x) 0 (replicate r x) \<and>
    performs ls b (cmd_RepeatX b r) 0 (replicate r RepeatXByte) \<and>
    performs ls b (cmd_RepeatThenRaw b r x raw) 0 (replicate r x @ raw)"
  using assms
  by (simp add: cmd_Copy_performs cmd_CopyThenRaw_performs cmd_CopyThenRepeat_performs
      cmd_WriteRaw_performs cmd_Repeat_performs cmd_RepeatX_performs cmd_RepeatThenRaw_performs)

theorem helpers_perform_witness:
  "performs 9 [] (cmd_Copy [] 9) 9 [] \<and>
    performs 9 [] (cmd_CopyThenRaw [] 9 [1, 2]) 9 [1, 2] \<and>
    performs 9 [] (cmd_CopyThenRepeat [] 9 300 5) 9 (replicate 300 5) \<and>
    performs 9 [] (cmd_WriteRaw [] [1, 2]) 0 [1, 2] \<and>
    performs 9 [] (cmd_Repeat [] 300 5) 0 (replicate 300 5) \<and>
    performs 9 [] (cmd_RepeatX [] 300) 0 (replicate 300 RepeatXByte) \<and>
    performs 9 [] (cmd_RepeatThenRaw [] 300 5 [1, 2]) 0 (replicate 300 5 @ [1, 2])"
  by (rule helpers_perform) simp_all

text \<open>
C18. One call of \<open>nextCmd\<close>. Between two calls the scanner stands at byte \<open>i\<close> of the
line and its remaining functions tile the rest (\<open>ready\<close>). A call then never fails an
assertion or reads outside the line; it appends at least one well-formed command, and a
decoder that has everything up to byte \<open>i\<close> has, after running them, everything up to
the byte where the scanner now stands.
\<close>

theorem nextCmd_emits:
  assumes "ready st done prev ln i" and "\<not> Empty st"
  shows "\<exists>cs st' j. nextCmd buffer ln st = Inr ((buffer @ encs cs, length (encs cs)), st') \<and>
    list_all data_cmd cs \<and>
    run_cmds (length ln) cs (done @ take i ln) = Inr (done @ take j ln) \<and>
    i < j \<and> ready st' done prev ln j"
  using nextCmd_lays [OF assms, of buffer] by (fastforce simp: nextCmd_ok_def lays_def)

theorem nextCmd_emits_witness:
  "\<exists>st. newScoaState [5, 5, 6] [] = Inr st \<and>
    (\<exists>cs st' j. nextCmd [] [5, 5, 6] st = Inr (([] @ encs cs, length (encs cs)), st') \<and>
    list_all data_cmd cs \<and>
    run_cmds (length [5, 5, 6 :: byte]) cs ([] @ take 0 [5, 5, 6]) = Inr ([] @ take j [5, 5, 6]) \<and>
    0 < j \<and> ready st' [] [] [5, 5, 6] j)"
proof -
  have line: "[5, 5, 6 :: byte] \<noteq> []" "prev_fits [] [5, 5, 6]" by (simp_all add: prev_fits_def)
  then obtain st where st: "newScoaState [5, 5, 6] [] = Inr st" "scan_ok st" "lineF st = [5, 5, 6]"
    "todo st = line_funcs [] [5, 5, 6]"
    using newScoaState_todo by blast
  then have ready: "ready st [] [] [5, 5, 6] 0"
    using line_funcs_tile [OF line(2,1)] by (simp add: ready_def above_def)
  then have "\<not> Empty st" using st by (auto simp: ready_def todo_empty)
  with nextCmd_emits [OF ready this, of "[]"] st(1) show ?thesis by blast
qed

end
