(* ===== verification/Scoa_Decoder.thy ===== *)
theory Scoa_Decoder
  imports Scoa_Emit_Spec
begin

text \<open>
  The decoder: \<^verbatim>\<open>Compression/Decoder/DecoderStreambuf.cpp\<close>.

  A \<open>decoder\<close> reads commands from another stream, appends the raster they describe to
  \<open>dBuffer\<close> and shows the last line of it through its get area. Reads outside the
  buffer, a division by zero and a dereference of an empty get area are
  \<open>UndefinedBehaviour\<close>; the messages thrown as \<^verbatim>\<open>DecoderError\<close> are
  \<open>DecoderFailure\<close>. The loop of \<^verbatim>\<open>decodeLine\<close> reads until the line
  is full, so on an arbitrary stream it need not end: it is a
  \<^theory_text>\<open>partial_function\<close> and not returning is \<open>Diverges\<close>.

  The lemmas show that the decoder depends on the bytes of its stream only
  (\<open>decodeNext_refines\<close>) and that it executes the encoding of a command as
  \<open>run_cmd\<close> says.
\<close>

named_theorems decode_steps \<open>the decoder on the bytes of one command\<close>

subsection \<open>State and primitives\<close>

record 's decoder = getarea +
  dStream :: 's
  dLog :: "string list option"
  dBuffer :: "byte list"
  dLineSize :: nat
  dVideoSize :: nat

definition newDecoder :: "'s \<Rightarrow> nat \<Rightarrow> string list option \<Rightarrow> 's decoder" where
  "newDecoder s ls log =
    \<lparr>gdata = [], gpos = 0, dStream = s, dLog = log, dBuffer = [], dLineSize = ls, dVideoSize = 0\<rparr>"

definition checkBounds :: "nat \<Rightarrow> nat \<Rightarrow> nat \<Rightarrow> string \<Rightarrow> (fault + 'a) \<Rightarrow> fault + 'a" where
  "checkBounds val lo hi paramName m =
    (if val < lo \<or> val > hi
     then Inl (DecoderFailure (BoundsError paramName (int lo) (int hi) (int val)))
     else m)"

definition mustGet :: "'s streambuf_ops \<Rightarrow> 's decoder \<Rightarrow> fault + (byte \<times> 's decoder)" where
  "mustGet io d = bindR (sbumpc io (dStream d)) (\<lambda>(v, s).
    case v of None \<Rightarrow> Inl (DecoderFailure UnexpectedEOF) | Some b \<Rightarrow> Inr (b, d\<lparr>dStream := s\<rparr>))"

definition mustRead :: "'s streambuf_ops \<Rightarrow> nat \<Rightarrow> 's decoder \<Rightarrow> fault + (byte list \<times> 's decoder)" where
  "mustRead io n d = bindR (sgetn io n (dStream d)) (\<lambda>(bs, s).
    if length bs \<noteq> n then Inl (DecoderFailure UnexpectedEOF) else Inr (bs, d\<lparr>dStream := s\<rparr>))"

fun show_nat :: "nat \<Rightarrow> string" where
  "show_nat n = (if n \<ge> 10 then show_nat (n div 10) else []) @ [char_of (n mod 10 + 48)]"

declare show_nat.simps [simp del]

text \<open>The command log: an entry per line, none when the pointer is null.\<close>

definition clog :: "string \<Rightarrow> 's decoder \<Rightarrow> 's decoder" where
  "clog msg d = d\<lparr>dLog := map_option (\<lambda>l. l @ [msg]) (dLog d)\<rparr>"

definition dec_repeat :: "nat \<Rightarrow> byte \<Rightarrow> 's decoder \<Rightarrow> 's decoder" where
  "dec_repeat count repeatByte d =
    (if count = 0 then d else d\<lparr>dBuffer := dBuffer d @ replicate count repeatByte\<rparr>)"

definition dec_repeatX :: "nat \<Rightarrow> 's decoder \<Rightarrow> 's decoder" where
  "dec_repeatX count d = dec_repeat count 0x43 d"

definition dec_copy :: "nat \<Rightarrow> 's decoder \<Rightarrow> fault + 's decoder" where
  "dec_copy count d =
    (if count = 0 then Inr d
     else if length (dBuffer d) < dLineSize d then Inl (DecoderFailure InsufficientBuffer)
     else
       let start = length (dBuffer d) - dLineSize d
       in if start + count > length (dBuffer d) then Inl UndefinedBehaviour
          else Inr (d\<lparr>dBuffer := dBuffer d @ take count (drop start (dBuffer d))\<rparr>))"

definition dec_raw :: "byte list \<Rightarrow> 's decoder \<Rightarrow> 's decoder" where
  "dec_raw data d = (if length data = 0 then d else d\<lparr>dBuffer := dBuffer d @ data\<rparr>)"

definition dec_endLine :: "'s decoder \<Rightarrow> fault + 's decoder" where
  "dec_endLine d =
    (if dLineSize d = 0 then Inl UndefinedBehaviour
     else dec_copy (dLineSize d - length (dBuffer d) mod dLineSize d) d)"

subsection \<open>One command\<close>

text \<open>The commands after an \<^verbatim>\<open>Extend\<close> byte.\<close>

definition decodeExtended ::
  "'s streambuf_ops \<Rightarrow> byte \<Rightarrow> 's decoder \<Rightarrow> fault + (nat \<times> 's decoder)" where
  "decodeExtended io extendCount d =
    bindR (mustGet io (clog (''Extend '' @ show_nat (unat extendCount)) d)) (\<lambda>(cmd, d).
      if cmd AND 0xc0 = 0 then
        let repeatCount = extendCount + (drop_bit 3 cmd AND 7)
        in let d = clog (''RepeatXLong '' @ show_nat (unat repeatCount)) d
        in checkBounds (unat repeatCount) 8 255 ''repeatCount''
             (Inr (2, dec_repeatX (unat repeatCount) d))
      else if cmd AND 0xc0 = 0x80 then
        let copyCount = cmd AND 7; repeatCount = extendCount + (drop_bit 3 cmd AND 7)
        in bindR (mustGet io d) (\<lambda>(repeatByte, d).
          let d = clog (''CopyThenRepeatLong '' @ show_nat (unat copyCount) @ '' '' @
                    show_nat (unat repeatCount)) d
          in checkBounds (unat copyCount) 0 7 ''copyCount''
               (checkBounds (unat repeatCount) 8 255 ''repeatCount''
                 (bindR (dec_copy (unat copyCount) d) (\<lambda>d.
                   Inr (3, dec_repeat (unat repeatCount) repeatByte d)))))
      else if cmd AND 0xc0 = 0x40 then
        let rawCount = extendCount + (cmd AND 7); repeatCount = drop_bit 3 cmd AND 7
        in bindR (mustGet io d) (\<lambda>(repeatByte, d).
          let d = clog (''RepeatThenRawLong '' @ show_nat (unat repeatCount) @ '' '' @
                    show_nat (unat rawCount)) d
          in bindR (mustRead io (unat rawCount) d) (\<lambda>(rawData, d).
               checkBounds (unat repeatCount) 2 7 ''repeatCount''
                 (checkBounds (unat rawCount) 8 255 ''rawCount''
                   (Inr (3 + unat rawCount,
                         dec_raw rawData (dec_repeat (unat repeatCount) repeatByte d))))))
      else
        let copyCount = cmd AND 7; rawCount = extendCount + (drop_bit 3 cmd AND 7)
        in let d = clog (''CopyThenRawLong '' @ show_nat (unat copyCount) @ '' '' @
                     show_nat (unat rawCount)) d
        in bindR (mustRead io (unat rawCount) d) (\<lambda>(rawData, d).
             checkBounds (unat copyCount) 0 7 ''copyCount''
               (checkBounds (unat rawCount) 8 255 ''rawCount''
                 (bindR (dec_copy (unat copyCount) d) (\<lambda>d.
                   Inr (2 + unat rawCount, dec_raw rawData d))))))"

definition decodeNext :: "'s streambuf_ops \<Rightarrow> 's decoder \<Rightarrow> fault + (nat \<times> 's decoder)" where
  "decodeNext io d =
    bindR (mustGet io d) (\<lambda>(cmd, d).
      if cmd = 0x42 then Inr (0, clog ''EOP'' d)
      else if cmd = 0x41 then
        bindR (dec_endLine (clog ''EOL'' d)) (\<lambda>d. Inr (1, d))
      else if cmd = 0x40 then Inr (1, clog ''NOP'' d)
      else if cmd AND 0xe0 = 0xa0 then
        decodeExtended io (push_bit 3 (cmd AND 0x1f)) d
      else if cmd AND 0xe0 = 0x80 then
        let copyCount = push_bit 3 (cmd AND 0x1f)
        in let d = clog (''CopyLong '' @ show_nat (unat copyCount)) d
        in checkBounds (unat copyCount) 8 248 ''copyCount''
             (bindR (dec_copy (unat copyCount) d) (\<lambda>d. Inr (1, d)))
      else if cmd AND 0xc0 = 0x40 then
        let copyCount = cmd AND 7; repeatCount = drop_bit 3 cmd AND 7
        in bindR (mustGet io d) (\<lambda>(repeatByte, d).
          let d = clog (''CopyThenRepeat '' @ show_nat (unat copyCount) @ '' '' @
                    show_nat (unat repeatCount)) d
          in checkBounds (unat copyCount) 0 7 ''copyCount''
               (checkBounds (unat repeatCount) 2 7 ''repeatCount''
                 (bindR (dec_copy (unat copyCount) d) (\<lambda>d.
                   Inr (2, dec_repeat (unat repeatCount) repeatByte d)))))
      else if cmd AND 0xc0 = 0 then
        let copyCount = cmd AND 7; rawCount = drop_bit 3 cmd AND 7
        in let d = clog (''CopyThenRaw '' @ show_nat (unat copyCount) @ '' '' @
                     show_nat (unat rawCount)) d
        in bindR (mustRead io (unat rawCount) d) (\<lambda>(rawData, d).
             checkBounds (unat copyCount) 0 7 ''copyCount''
               (checkBounds (unat rawCount) 1 7 ''rawCount''
                 (bindR (dec_copy (unat copyCount) d) (\<lambda>d.
                   Inr (1 + unat rawCount, dec_raw rawData d)))))
      else if cmd AND 0xc0 = 0xc0 then
        let copyCount = cmd AND 7; repeatCount = drop_bit 3 cmd AND 7
        in if copyCount \<noteq> 0 \<and> repeatCount = 0 then
             bindR (dec_copy (unat copyCount) (clog (''CopyShort '' @ show_nat (unat copyCount)) d))
               (\<lambda>d. Inr (1, d))
           else if copyCount = 0 \<and> repeatCount \<noteq> 0 then
             let d = clog (''RepeatX '' @ show_nat (unat repeatCount)) d
             in checkBounds (unat repeatCount) 1 7 ''repeatCount''
                  (Inr (1, dec_repeatX (unat repeatCount) d))
           else if copyCount \<noteq> 0 \<and> repeatCount \<noteq> 0 then
             let rawCount = copyCount
             in bindR (mustGet io d) (\<lambda>(repeatByte, d).
               let d = clog (''RepeatThenRaw '' @ show_nat (unat repeatCount) @ '' '' @
                         show_nat (unat rawCount)) d
               in bindR (mustRead io (unat rawCount) d) (\<lambda>(rawData, d).
                    checkBounds (unat repeatCount) 2 7 ''repeatCount''
                      (checkBounds (unat rawCount) 1 7 ''rawCount''
                        (Inr (2 + unat rawCount,
                              dec_raw rawData (dec_repeat (unat repeatCount) repeatByte d))))))
           else Inl (DecoderFailure (UnknownCommand cmd))
      else Inl (DecoderFailure (UnknownCommand cmd)))"

subsection \<open>One line, and the stream interface\<close>

partial_function (option) decodeLoop ::
  "'s streambuf_ops \<Rightarrow> nat \<Rightarrow> 's decoder \<Rightarrow> (fault + (bool \<times> 's decoder)) option" where
  "decodeLoop io limit d =
    (if length (dBuffer d) < limit then
       (case decodeNext io d of
          Inl e \<Rightarrow> Some (Inl e)
        | Inr (c, d1) \<Rightarrow>
            let d2 = d1\<lparr>dVideoSize := dVideoSize d1 + c\<rparr>
            in if c = 0 then
                 Some (if (dVideoSize d2 + 1) mod 2 \<noteq> 0 then Inl (DecoderFailure OddVideoSize)
                       else Inr (False, d2\<lparr>dVideoSize := 0\<rparr>))
               else decodeLoop io limit d2)
     else Some (Inr (True, d)))"

text \<open>
  \<^verbatim>\<open>start\<close> is \<^verbatim>\<open>unsigned\<close>: the size of the buffer is
  truncated, and the sum with the line size wraps.
\<close>

definition decodeLine :: "'s streambuf_ops \<Rightarrow> 's decoder \<Rightarrow> fault + (bool \<times> 's decoder)" where
  "decodeLine io d =
    (let start = to_unsigned (length (dBuffer d))
     in case decodeLoop io (to_unsigned (start + dLineSize d)) d of
          None \<Rightarrow> Inl Diverges
        | Some r \<Rightarrow> r)"

definition dec_underflow :: "'s streambuf_ops \<Rightarrow> 's decoder \<Rightarrow> fault + (byte option \<times> 's decoder)" where
  "dec_underflow io d =
    (if gpos d < length (gdata d) then Inr (Some (gdata d ! gpos d), d)
     else bindR (decodeLine io d) (\<lambda>(more, d).
       if \<not> more then Inr (None, d)
       else assertR (length (dBuffer d) \<ge> dLineSize d)
         (let d1 = d\<lparr>gdata := drop (length (dBuffer d) - dLineSize d) (dBuffer d), gpos := 0\<rparr>
          in if gdata d1 = [] then Inl UndefinedBehaviour else Inr (Some (gdata d1 ! 0), d1))))"

subsection \<open>Only the bytes of the stream matter\<close>

text \<open>
  \<open>dec_view\<close> replaces the stream of a decoder by the bytes it still has. On a stream
  that keeps its contract, each step of the decoder is the step on those bytes, with the
  same result or the same failure.
\<close>

definition dec_view :: "('s \<Rightarrow> byte list) \<Rightarrow> 's decoder \<Rightarrow> byte list decoder" where
  "dec_view content d =
    \<lparr>gdata = gdata d, gpos = gpos d, dStream = content (dStream d), dLog = dLog d,
     dBuffer = dBuffer d, dLineSize = dLineSize d, dVideoSize = dVideoSize d\<rparr>"

lemma dec_view_simps [simp]:
  "gdata (dec_view content d) = gdata d" "gpos (dec_view content d) = gpos d"
  "dStream (dec_view content d) = content (dStream d)" "dLog (dec_view content d) = dLog d"
  "dBuffer (dec_view content d) = dBuffer d" "dLineSize (dec_view content d) = dLineSize d"
  "dVideoSize (dec_view content d) = dVideoSize d"
  by (simp_all add: dec_view_def)

lemma dec_view_updates:
  "dec_view content (d\<lparr>dBuffer := b\<rparr>) = dec_view content d\<lparr>dBuffer := b\<rparr>"
  "dec_view content (d\<lparr>dVideoSize := v\<rparr>) = dec_view content d\<lparr>dVideoSize := v\<rparr>"
  "dec_view content (d\<lparr>dLog := l\<rparr>) = dec_view content d\<lparr>dLog := l\<rparr>"
  "dec_view content (d\<lparr>gdata := g, gpos := p\<rparr>) = dec_view content d\<lparr>gdata := g, gpos := p\<rparr>"
  "dec_view content (d\<lparr>dStream := s\<rparr>) = dec_view content d\<lparr>dStream := content s\<rparr>"
  by (simp_all add: dec_view_def)

definition tracks ::
  "('s \<Rightarrow> bool) \<Rightarrow> ('s \<Rightarrow> byte list) \<Rightarrow> fault + ('a \<times> 's decoder) \<Rightarrow>
    fault + ('a \<times> byte list decoder) \<Rightarrow> bool" where
  "tracks ok content r r' \<longleftrightarrow>
    (case r of Inl e \<Rightarrow> r' = Inl e
     | Inr (x, d) \<Rightarrow> ok (dStream d) \<and> r' = Inr (x, dec_view content d))"

named_theorems tracking \<open>steps of the decoder that depend on the bytes only\<close>

lemma tracks_Inl [tracking]: "tracks ok content (Inl e) (Inl e)"
  by (simp add: tracks_def)

lemma tracks_Inr [tracking]: 
  "ok (dStream d) \<Longrightarrow> d' = dec_view content d \<Longrightarrow> tracks ok content (Inr (x, d)) (Inr (x, d'))"
  by (simp add: tracks_def)

lemma tracks_if [tracking]:
  "(P \<Longrightarrow> tracks ok content a a') \<Longrightarrow> (\<not> P \<Longrightarrow> tracks ok content b b') \<Longrightarrow>
    tracks ok content (if P then a else b) (if P then a' else b')"
  by simp

lemma tracks_checkBounds [tracking]:
  "tracks ok content m m' \<Longrightarrow>
    tracks ok content (checkBounds v lo hi p m) (checkBounds v lo hi p m')"
  by (simp add: checkBounds_def tracks_def)

lemma tracks_bind [tracking]:
  assumes "tracks ok content m m'"
    and "\<And>x d. ok (dStream d) \<Longrightarrow> tracks ok content (f x d) (f' x (dec_view content d))"
  shows "tracks ok content (bindR m (\<lambda>(x, d). f x d)) (bindR m' (\<lambda>(x, d). f' x d))"
proof (cases m)
  case (Inl e)
  with assms(1) show ?thesis by (simp add: tracks_def)
next
  case (Inr p)
  obtain x d where p: "p = (x, d)" by (cases p)
  with Inr assms(1) have "ok (dStream d)" "m' = Inr (x, dec_view content d)"
    by (simp_all add: tracks_def)
  with Inr p assms(2) [of d x] show ?thesis by simp
qed

lemma tracks_bind_copy [tracking]:
  assumes "ok (dStream d)" and "d' = dec_view content d"
    and "\<And>d. ok (dStream d) \<Longrightarrow> tracks ok content (f d) (f' (dec_view content d))"
  shows "tracks ok content (bindR (dec_copy n d) f) (bindR (dec_copy n d') f')"
proof -
  have "tracks ok content (f (d\<lparr>dBuffer := b\<rparr>)) (f' (dec_view content d\<lparr>dBuffer := b\<rparr>))" for b
    using assms(3) [of "d\<lparr>dBuffer := b\<rparr>"] assms(1) by (simp add: dec_view_updates)
  with assms show ?thesis by (auto simp: dec_copy_def Let_def tracks_Inl)
qed

lemma stream_kept [simp]:
  "dStream (clog msg d) = dStream d" "dStream (dec_repeat n b d) = dStream d"
  "dStream (dec_repeatX n d) = dStream d" "dStream (dec_raw raw d) = dStream d"
  by (simp_all add: clog_def dec_repeat_def dec_repeatX_def dec_raw_def)

lemma view_commutes [simp]:
  "clog msg (dec_view content d) = dec_view content (clog msg d)"
  "dec_repeat n b (dec_view content d) = dec_view content (dec_repeat n b d)"
  "dec_repeatX n (dec_view content d) = dec_view content (dec_repeatX n d)"
  "dec_raw raw (dec_view content d) = dec_view content (dec_raw raw d)"
  by (simp_all add: clog_def dec_repeat_def dec_repeatX_def dec_raw_def dec_view_updates)

context byte_source
begin

lemma mustGet_tracks [tracking]:
  assumes "ok (dStream d)" and "d' = dec_view content d"
  shows "tracks ok content (mustGet io d) (mustGet memory_ops d')"
proof -
  obtain s' where "sbumpc io (dStream d) = Inr (hd_opt (content (dStream d)), s')"
    "ok s'" "content s' = tl (content (dStream d))"
    using bump [OF assms(1)] by (rule deliversE)
  then show ?thesis
    using assms(2) by (cases "content (dStream d)") (simp_all add: mustGet_def tracks_def dec_view_updates)
qed

lemma mustRead_tracks [tracking]:
  assumes "ok (dStream d)" and "d' = dec_view content d"
  shows "tracks ok content (mustRead io n d) (mustRead memory_ops n d')"
proof -
  obtain s' where "sgetn io n (dStream d) = Inr (take n (content (dStream d)), s')"
    "ok s'" "content s' = drop n (content (dStream d))"
    using read [OF assms(1)] by (rule deliversE)
  then show ?thesis
    using assms(2) by (simp add: mustRead_def tracks_def dec_view_updates)
qed

lemma decodeExtended_tracks [tracking]:
  "ok (dStream d) \<Longrightarrow> d' = dec_view content d \<Longrightarrow>
    tracks ok content (decodeExtended io e d) (decodeExtended memory_ops e d')"
  unfolding decodeExtended_def Let_def
  by (intro tracking) simp_all

lemma dec_endLine_bind_tracks [tracking]:
  assumes "ok (dStream d)" and "d' = dec_view content d"
  shows "tracks ok content (bindR (dec_endLine d) (\<lambda>d. Inr (n, d)))
    (bindR (dec_endLine d') (\<lambda>d. Inr (n, d)))"
  using assms(2) unfolding dec_endLine_def 
  by (cases "dLineSize d = 0") (simp add: tracks_def, simp, intro tracking, simp_all add: assms)

lemma decodeNext_tracks [tracking]:
  "ok (dStream d) \<Longrightarrow> d' = dec_view content d \<Longrightarrow>
    tracks ok content (decodeNext io d) (decodeNext memory_ops d')"
  unfolding decodeNext_def Let_def
  by (intro tracking) simp_all

end

subsection \<open>Every command consumes input, so the loop ends\<close>

definition at_most :: "nat \<Rightarrow> fault + ('a \<times> byte list decoder) \<Rightarrow> bool" where
  "at_most n r \<longleftrightarrow> (case r of Inl e \<Rightarrow> True | Inr (x, d) \<Rightarrow> length (dStream d) \<le> n)"

named_theorems consuming \<open>how many bytes a step leaves\<close>

lemma at_most_Inl [consuming]: "at_most n (Inl e)"
  by (simp add: at_most_def)

lemma at_most_Inr [consuming]: "length (dStream d) \<le> n \<Longrightarrow> at_most n (Inr (x, d))"
  by (simp add: at_most_def)

lemma at_most_if [consuming]:
  "(P \<Longrightarrow> at_most n a) \<Longrightarrow> (\<not> P \<Longrightarrow> at_most n b) \<Longrightarrow> at_most n (if P then a else b)"
  by simp

lemma at_most_checkBounds [consuming]: "at_most n m \<Longrightarrow> at_most n (checkBounds v lo hi p m)"
  by (simp add: checkBounds_def at_most_def)

lemma at_most_bind_copy [consuming]:
  "length (dStream d) \<le> n \<Longrightarrow> (\<And>d. length (dStream d) \<le> n \<Longrightarrow> at_most n (f d)) \<Longrightarrow>
    at_most n (bindR (dec_copy k d) f)"
  by (auto simp: dec_copy_def Let_def at_most_Inl)

lemma at_most_mustGet [consuming]:
  assumes "length (dStream d) \<le> n"
    and "\<And>b d. length (dStream d) \<le> n - 1 \<Longrightarrow> length (dStream d) < n \<Longrightarrow> at_most n (f b d)"
  shows "at_most n (bindR (mustGet memory_ops d) (\<lambda>(b, d). f b d))"
  using assms by (cases "dStream d") (auto simp: mustGet_def at_most_Inl)

lemma at_most_mustRead [consuming]:
  assumes "length (dStream d) \<le> n"
    and "\<And>bs d. length (dStream d) \<le> n \<Longrightarrow> at_most n (f bs d)"
  shows "at_most n (bindR (mustRead memory_ops k d) (\<lambda>(bs, d). f bs d))"
  using assms by (auto simp: mustRead_def at_most_Inl)

lemma at_most_endLine [consuming]:
  "length (dStream d) \<le> n \<Longrightarrow> at_most n (bindR (dec_endLine d) (\<lambda>d. Inr (x, d)))"
  unfolding dec_endLine_def
  by (cases "dLineSize d = 0") (simp add: at_most_Inl, simp, intro consuming, simp_all)

lemma at_most_decodeExtended [consuming]:
  "length (dStream d) \<le> n \<Longrightarrow> at_most n (decodeExtended memory_ops e d)"
  unfolding decodeExtended_def Let_def by (intro consuming) simp_all

lemma mustGet_Cons [decode_steps]:
  "dStream d = b # bs \<Longrightarrow> mustGet memory_ops d = Inr (b, d\<lparr>dStream := bs\<rparr>)"
  by (simp add: mustGet_def)

lemma mustRead_append [decode_steps]:
  "dStream d = raw @ rest \<Longrightarrow> n = length raw \<Longrightarrow>
    mustRead memory_ops n d = Inr (raw, d\<lparr>dStream := rest\<rparr>)"
  by (simp add: mustRead_def)

lemma decodeNext_consumes:
  assumes "decodeNext memory_ops d = Inr (c, d')"
  shows "length (dStream d') < length (dStream d)"
proof (cases "dStream d")
  case Nil
  with assms show ?thesis by (simp add: decodeNext_def mustGet_def)
next
  case (Cons b bs)
  have "at_most (length bs) (decodeNext memory_ops d)"
    unfolding decodeNext_def Let_def mustGet_Cons [OF Cons] bindR_Inr prod.case
    by (intro consuming) simp_all
  with assms Cons show ?thesis by (simp add: at_most_def)
qed

context byte_source
begin

lemma decodeLoop_returns:
  "ok (dStream d) \<Longrightarrow> \<exists>r r'. decodeLoop io limit d = Some r \<and>
    decodeLoop memory_ops limit (dec_view content d) = Some r' \<and> tracks ok content r r'"
proof (induction "length (content (dStream d))" arbitrary: d rule: less_induct)
  case less
  note unf = decodeLoop.simps [of io limit d] decodeLoop.simps [of memory_ops limit "dec_view content d"]
  have step: "tracks ok content (decodeNext io d) (decodeNext memory_ops (dec_view content d))"
    using less.prems by (intro decodeNext_tracks refl)
  show ?case
  proof (cases "decodeNext io d")
    case (Inl e)
    with step less.prems show ?thesis unfolding unf by (simp add: tracks_def)
  next
    case (Inr p)
    obtain c d1 where p: "p = (c, d1)" by (cases p)
    with Inr step have d1: "ok (dStream d1)"
      "decodeNext memory_ops (dec_view content d) = Inr (c, dec_view content d1)"
      by (simp_all add: tracks_def)
    let ?d2 = "d1\<lparr>dVideoSize := dVideoSize d1 + c\<rparr>"
    have "length (content (dStream ?d2)) < length (content (dStream d))"
      using decodeNext_consumes [OF d1(2)] by simp
    moreover have "ok (dStream ?d2)" using d1 by simp
    ultimately obtain r r' where "decodeLoop io limit ?d2 = Some r"
      "decodeLoop memory_ops limit (dec_view content ?d2) = Some r'" "tracks ok content r r'"
      using less.hyps by blast
    with Inr p d1 less.prems show ?thesis
      unfolding unf by (simp add: Let_def dec_view_updates tracks_def)
  qed
qed

lemma decodeLine_tracks [tracking]:
  "ok (dStream d) \<Longrightarrow> d' = dec_view content d \<Longrightarrow>
    tracks ok content (decodeLine io d) (decodeLine memory_ops d')"
  using decodeLoop_returns [of d "to_unsigned (to_unsigned (length (dBuffer d)) + dLineSize d)"]
  by (auto simp: decodeLine_def Let_def)

lemma dec_underflow_tracks:
  assumes "ok (dStream d)"
  shows "tracks ok content (dec_underflow io d) (dec_underflow memory_ops (dec_view content d))"
proof -
  have "tracks ok content (decodeLine io d) (decodeLine memory_ops (dec_view content d))"
    using assms by (intro decodeLine_tracks refl)
  then show ?thesis
    using assms unfolding dec_underflow_def
    by (cases "decodeLine io d") (auto simp: tracks_def dec_view_updates assertR_def Let_def)
qed

end

subsection \<open>The decoder executes the encoding of a command\<close>

fun log_of :: "ScoaCommand \<Rightarrow> string list" where
  "log_of (cCopyLong n) = [''CopyLong '' @ show_nat n]"
| "log_of (cCopyShort n) = [''CopyShort '' @ show_nat n]"
| "log_of (cCopyThenRaw c raw) = [''CopyThenRaw '' @ show_nat c @ '' '' @ show_nat (length raw)]"
| "log_of (cCopyThenRawLong c raw) =
    [''Extend '' @ show_nat (8 * (length raw div 8)),
     ''CopyThenRawLong '' @ show_nat c @ '' '' @ show_nat (length raw)]"
| "log_of (cCopyThenRepeat c r b) = [''CopyThenRepeat '' @ show_nat c @ '' '' @ show_nat r]"
| "log_of (cCopyThenRepeatLong c r b) =
    [''Extend '' @ show_nat (8 * (r div 8)), ''CopyThenRepeatLong '' @ show_nat c @ '' '' @ show_nat r]"
| "log_of (cRepeatThenRaw r b raw) = [''RepeatThenRaw '' @ show_nat r @ '' '' @ show_nat (length raw)]"
| "log_of (cRepeatThenRawLong r b raw) =
    [''Extend '' @ show_nat (8 * (length raw div 8)),
     ''RepeatThenRawLong '' @ show_nat r @ '' '' @ show_nat (length raw)]"
| "log_of (cRepeatX r) = [''RepeatX '' @ show_nat r]"
| "log_of (cRepeatXLong r) = [''Extend '' @ show_nat (8 * (r div 8)), ''RepeatXLong '' @ show_nat r]"
| "log_of cEOP = [''EOP'']"
| "log_of cEOL = [''EOL'']"
| "log_of cNOP = [''NOP'']"

definition executed ::
  "byte list \<Rightarrow> string list \<Rightarrow> nat \<Rightarrow> byte list decoder \<Rightarrow> byte list \<Rightarrow> fault + (nat \<times> byte list decoder)" where
  "executed rest msgs n d out =
    Inr (n, d\<lparr>dStream := rest, dLog := map_option (\<lambda>l. l @ msgs) (dLog d), dBuffer := out\<rparr>)"

lemma dec_copy_out:
  "dec_copy n d = bindR (copy_out (dLineSize d) n (dBuffer d)) (\<lambda>out. Inr (d\<lparr>dBuffer := out\<rparr>))"
  by (auto simp: dec_copy_def copy_out_def Let_def)

lemma dec_endLine_out:
  "dec_endLine d = bindR (run_cmd (dLineSize d) cEOL (dBuffer d)) (\<lambda>out. Inr (d\<lparr>dBuffer := out\<rparr>))"
  by (simp add: dec_endLine_def dec_copy_out)

lemma checkBounds_ok [decode_steps]: "lo \<le> v \<Longrightarrow> v \<le> hi \<Longrightarrow> checkBounds v lo hi p m = m"
  by (simp add: checkBounds_def)

lemma map_option_append_twice [simp]:
  "map_option (\<lambda>l. l @ ys) (map_option (\<lambda>l. l @ xs) z) = map_option (\<lambda>l. l @ xs @ ys) z"
  by (cases z) simp_all

lemmas decoder_actions =
  clog_def dec_copy_out dec_repeat_def dec_repeatX_def dec_raw_def RepeatXByte_def bindR_assoc executed_def [abs_def]

lemma decoder_update_order [decode_steps]:
  "d\<lparr>dLog := l, dStream := s\<rparr> = d\<lparr>dStream := s, dLog := l\<rparr>"
  by simp

text \<open>The header byte of a command, known by its value.\<close>

lemma header_byte:
  assumes "n < 256"
  obtains h :: byte where "word_of_nat n = h" "unat h = n"
  using that [of "word_of_nat n"] assms by (simp add: unat_byte_of_nat)

lemma field_values:
  assumes "m = 64 * k + 8 * r + c" and "r < 8" and "c < (8 :: nat)"
  shows "m div 64 = k" "m div 8 mod 8 = r" "m mod 8 = c" "m div 32 = 2 * k + r div 4"
proof -
  have m: "m = c + (r + 8 * k) * 8" using assms(1) by simp
  show "m mod 8 = c" using assms(3) unfolding m by (simp only: mod_mult_self1 mod_less)
  have d8: "m div 8 = r + 8 * k" using assms(3) unfolding m by (subst div_mult_self1) simp_all
  then show "m div 8 mod 8 = r" using assms(2) by simp
  have "m div (8 * 8) = k" using assms(2) d8 by (simp only: div_mult2_eq)
  then show "m div 64 = k" by simp
  have "m div (8 * 4) = (r + 4 * (2 * k)) div 4" using d8 by (simp only: div_mult2_eq)
  then show "m div 32 = 2 * k + r div 4" by simp
qed

lemma header_fields:
  assumes "unat h = 64 * k + 8 * r + c" and "r < 8" and "c < (8 :: nat)"
  shows "(h AND 0xc0 = (0x40 :: byte)) = (k = 1)" "(h AND 0xc0 = (0 :: byte)) = (k = 0)"
    "(h AND 0xc0 = (0x80 :: byte)) = (k = 2)"
    "(h AND 0xc0 = (0xc0 :: byte)) = (k = 3)" "unat (h AND 7 :: byte) = c"
    "unat (drop_bit 3 h AND 7 :: byte) = r"
    "(h AND 7 = (0 :: byte)) = (c = 0)" "(drop_bit 3 h AND 7 = (0 :: byte)) = (r = 0)"
proof -
  note v = field_values [OF assms]
  show c: "unat (h AND 7) = c" by (simp only: byte_low3 v)
  show r: "unat (drop_bit 3 h AND 7) = r" by (simp only: byte_mid3 v)
  show "(h AND 7 = 0) = (c = 0)" "(drop_bit 3 h AND 7 = 0) = (r = 0)"
    by (simp_all only: byte_eq_iff c r unsigned_0)
qed (simp_all only: byte_top_cases field_values [OF assms])

lemma plain_header:
  assumes "unat h = 64 * k + 8 * r + c" and "r < 8" and "c < (8 :: nat)"
    and "k = 0 \<or> k = 3 \<or> k = 1 \<and> 2 \<le> r"
  shows "h \<noteq> (0x42 :: byte)" "h \<noteq> (0x41 :: byte)" "h \<noteq> (0x40 :: byte)"
    "h AND 0xe0 \<noteq> (0xa0 :: byte)" "h AND 0xe0 \<noteq> (0x80 :: byte)"
  using assms by (auto simp only: byte_top_cases field_values [OF assms(1-3)]) (auto simp: byte_eq_iff)

lemma long_header:
  assumes "unat h = 32 * k + q" and "q < 32" and "k = 4 \<or> k = (5 :: nat)"
  shows "h \<noteq> (0x42 :: byte)" "h \<noteq> (0x41 :: byte)" "h \<noteq> (0x40 :: byte)"
    "(h AND 0xe0 = (0xa0 :: byte)) = (k = 5)" "(h AND 0xe0 = (0x80 :: byte)) = (k = 4)"
    "unat (push_bit 3 (h AND 0x1f) :: byte) = 8 * q" "unat (push_bit 3 h AND 0xf8 :: byte) = 8 * q"
proof -
  have "unat h div 32 = k" "unat h mod 32 = q" using assms by simp_all
  then show "(h AND 0xe0 = (0xa0 :: byte)) = (k = 5)" "(h AND 0xe0 = (0x80 :: byte)) = (k = 4)"
    and count: "unat (push_bit 3 (h AND 0x1f) :: byte) = 8 * q"
    by (simp_all only: byte_top_cases byte_low5_shifted)
  from count show "unat (push_bit 3 h AND 0xf8 :: byte) = 8 * q" by simp
  show "h \<noteq> (0x42 :: byte)" "h \<noteq> (0x41 :: byte)" "h \<noteq> (0x40 :: byte)"
    using assms by (auto simp: byte_eq_iff)
qed

lemma unat_byte_add: "unat a + unat b < 256 \<Longrightarrow> unat (a + b :: byte) = unat a + unat b"
  by (simp add: unat_word_ariths)

lemma decode_CopyLong:
  assumes "wf_cmd (cCopyLong n)" "dStream d = enc (cCopyLong n) @ rest"
  shows "decodeNext memory_ops d = bindR (copy_out (dLineSize d) n (dBuffer d))
    (executed rest (log_of (cCopyLong n)) 1 d)"
proof -
  obtain h :: byte where h: "word_of_nat (128 + n div 8) = h" "unat h = 128 + n div 8"
    by (rule header_byte [of "128 + n div 8"]) (use assms(1) in auto)
  have s: "dStream d = h # rest" using assms(2) by (simp only: enc.simps h) simp
  have n: "8 * (n div 8) = n" "8 \<le> n" "n \<le> 248" using assms(1) by auto
  have h': "unat h = 32 * 4 + n div 8" "n div 8 < 32" "4 = 4 \<or> 4 = (5 :: nat)" using h n by auto
  show ?thesis
    unfolding decodeNext_def mustGet_Cons [OF s] bindR_Inr prod.case Let_def
    by (simp add: long_header [OF h'] n decode_steps decoder_actions)
qed

lemma decode_CopyShort:
  assumes "wf_cmd (cCopyShort n)" "dStream d = enc (cCopyShort n) @ rest"
  shows "decodeNext memory_ops d = bindR (copy_out (dLineSize d) n (dBuffer d))
    (executed rest (log_of (cCopyShort n)) 1 d)"
proof -
  obtain h :: byte where h: "word_of_nat (192 + n) = h" "unat h = 192 + n"
    by (rule header_byte [of "192 + n"]) (use assms(1) in auto)
  have s: "dStream d = h # rest" using assms(2) by (simp only: enc.simps h) simp
  have h': "unat h = 64 * 3 + 8 * 0 + n" "0 < (8 :: nat)" "n < 8" using h assms(1) by auto
  have n: "n \<noteq> 0" using assms(1) by auto
  show ?thesis
    unfolding decodeNext_def mustGet_Cons [OF s] bindR_Inr prod.case Let_def
    by (simp add: plain_header [OF h'] header_fields [OF h'] n decode_steps decoder_actions)
qed

lemma decode_CopyThenRaw:
  assumes "wf_cmd (cCopyThenRaw c raw)" "dStream d = enc (cCopyThenRaw c raw) @ rest"
  shows "decodeNext memory_ops d = bindR (copy_out (dLineSize d) c (dBuffer d))
    (\<lambda>out. executed rest (log_of (cCopyThenRaw c raw)) (1 + length raw) d (out @ raw))"
proof -
  obtain h :: byte where h: "word_of_nat (8 * length raw + c) = h" "unat h = 8 * length raw + c"
    by (rule header_byte [of "8 * length raw + c"]) (use assms(1) in auto)
  have s: "dStream d = h # raw @ rest" using assms(2) by (simp only: enc.simps h) simp
  have h': "unat h = 64 * 0 + 8 * length raw + c" "length raw < 8" "c < 8" using h assms(1) by auto
  have n: "raw \<noteq> []" "Suc 0 \<le> length raw" "length raw \<le> 7" "c \<le> 7" using assms(1) by auto
  show ?thesis
    unfolding decodeNext_def mustGet_Cons [OF s] bindR_Inr prod.case Let_def
    by (simp add: plain_header [OF h'] header_fields [OF h'] n decode_steps
        mustRead_append [of _ raw rest] decoder_actions)
qed

lemma decode_CopyThenRepeat:
  assumes "wf_cmd (cCopyThenRepeat c r b)" "dStream d = enc (cCopyThenRepeat c r b) @ rest"
  shows "decodeNext memory_ops d = bindR (copy_out (dLineSize d) c (dBuffer d))
    (\<lambda>out. executed rest (log_of (cCopyThenRepeat c r b)) 2 d (out @ replicate r b))"
proof -
  obtain h :: byte where h: "word_of_nat (64 + 8 * r + c) = h" "unat h = 64 + 8 * r + c"
    by (rule header_byte [of "64 + 8 * r + c"]) (use assms(1) in auto)
  have s: "dStream d = h # b # rest" using assms(2) by (simp only: enc.simps h) simp
  have h': "unat h = 64 * 1 + 8 * r + c" "r < 8" "c < 8" "1 = 0 \<or> 1 = 3 \<or> 1 = (1 :: nat) \<and> 2 \<le> r"
    using h assms(1) by auto
  have n: "c \<le> 7" "2 \<le> r" "r \<le> 7" "r \<noteq> 0" using assms(1) by auto
  show ?thesis
    unfolding decodeNext_def mustGet_Cons [OF s] bindR_Inr prod.case Let_def
    by (simp add: plain_header [OF h'] header_fields [OF h'(1-3)] n decode_steps decoder_actions)
qed

lemma decode_RepeatThenRaw:
  assumes "wf_cmd (cRepeatThenRaw r b raw)" "dStream d = enc (cRepeatThenRaw r b raw) @ rest"
  shows "decodeNext memory_ops d =
    executed rest (log_of (cRepeatThenRaw r b raw)) (2 + length raw) d
      (dBuffer d @ replicate r b @ raw)"
proof -
  let ?n = "length raw"
  obtain h :: byte where h: "word_of_nat (192 + 8 * r + ?n) = h" "unat h = 192 + 8 * r + ?n"
    by (rule header_byte [of "192 + 8 * r + ?n"]) (use assms(1) in auto)
  have s: "dStream d = h # b # raw @ rest" using assms(2) by (simp only: enc.simps h) simp
  have h': "unat h = 64 * 3 + 8 * r + ?n" "r < 8" "?n < 8" using h assms(1) by auto
  have n: "raw \<noteq> []" "Suc 0 \<le> ?n" "?n \<le> 7" "2 \<le> r" "r \<le> 7" "r \<noteq> 0" using assms(1) by auto
  show ?thesis
    unfolding decodeNext_def mustGet_Cons [OF s] bindR_Inr prod.case Let_def
    by (simp add: plain_header [OF h'] header_fields [OF h'] n decode_steps
        mustRead_append [of _ raw rest] decoder_actions)
qed

lemma decode_RepeatX:
  assumes "wf_cmd (cRepeatX r)" "dStream d = enc (cRepeatX r) @ rest"
  shows "decodeNext memory_ops d =
    executed rest (log_of (cRepeatX r)) 1 d (dBuffer d @ replicate r RepeatXByte)"
proof -
  obtain h :: byte where h: "word_of_nat (192 + 8 * r) = h" "unat h = 192 + 8 * r"
    by (rule header_byte [of "192 + 8 * r"]) (use assms(1) in auto)
  have s: "dStream d = h # rest" using assms(2) by (simp only: enc.simps h) simp
  have h': "unat h = 64 * 3 + 8 * r + 0" "r < 8" "0 < (8 :: nat)" using h assms(1) by auto
  have n: "Suc 0 \<le> r" "r \<le> 7" "r \<noteq> 0" using assms(1) by auto
  show ?thesis
    unfolding decodeNext_def mustGet_Cons [OF s] bindR_Inr prod.case Let_def
    by (simp add: plain_header [OF h'] header_fields [OF h'] n decode_steps decoder_actions)
qed

lemma extend_count:
  assumes "unat e = 8 * (n div 8)" and "n mod 8 = unat c" and "n \<le> 255"
  shows "unat (e + c :: byte) = n"
proof -
  have "unat e + unat c = n" using assms(1,2) mult_div_mod_eq [of 8 n] by linarith
  with unat_byte_add [of e c] assms(3) show ?thesis by simp
qed

text \<open>The two bytes that start a long command.\<close>

lemma long_bytes:
  assumes "n \<le> 255" and "m < 256"
  obtains h1 h2 :: byte where "word_of_nat (160 + n div 8) = h1" "word_of_nat m = h2" "unat h2 = m"
    "unat h1 = 32 * 5 + n div 8" "n div 8 < 32" "5 = 4 \<or> 5 = (5 :: nat)"
proof -
  obtain h1 :: byte where h1: "word_of_nat (160 + n div 8) = h1" "unat h1 = 160 + n div 8"
    by (rule header_byte [of "160 + n div 8"]) (use assms(1) in auto)
  obtain h2 :: byte where h2: "word_of_nat m = h2" "unat h2 = m"
    using assms(2) by (rule header_byte)
  show thesis by (rule that [of h1 h2]) (use assms(1) h1 h2 in auto)
qed

lemma decodeNext_extend:
  assumes "dStream d = h # rest" and "unat h = 32 * 5 + q" and "q < 32"
  obtains e where "decodeNext memory_ops d = decodeExtended memory_ops e (d\<lparr>dStream := rest\<rparr>)"
    "unat e = 8 * q"
proof -
  have "5 = 4 \<or> 5 = (5 :: nat)" by simp
  note f = long_header [OF assms(2,3) this]
  show thesis
    by (rule that [OF _ f(6)]) (simp add: decodeNext_def mustGet_Cons [OF assms(1)] f(1-5))
qed

lemma decode_CopyThenRawLong:
  assumes "wf_cmd (cCopyThenRawLong c raw)" "dStream d = enc (cCopyThenRawLong c raw) @ rest"
  shows "decodeNext memory_ops d = bindR (copy_out (dLineSize d) c (dBuffer d))
    (\<lambda>out. executed rest (log_of (cCopyThenRawLong c raw)) (2 + length raw) d (out @ raw))"
proof -
  let ?n = "length raw"
  have n: "raw \<noteq> []" "8 \<le> ?n" "?n \<le> 255" "c \<le> 7" "?n \<noteq> 0" using assms(1) by auto
  obtain h1 h2 :: byte where h: "word_of_nat (160 + ?n div 8) = h1"
    "word_of_nat (192 + 8 * (?n mod 8) + c) = h2" "unat h2 = 192 + 8 * (?n mod 8) + c"
    "unat h1 = 32 * 5 + ?n div 8" "?n div 8 < 32"
    by (rule long_bytes [OF n(3), of "192 + 8 * (?n mod 8) + c"]) (use n in simp_all)
  have s: "dStream d = h1 # h2 # raw @ rest" using assms(2) by (simp only: enc.simps h(1,2)) simp
  obtain e where e: "decodeNext memory_ops d =
      decodeExtended memory_ops e (d\<lparr>dStream := h2 # raw @ rest\<rparr>)" "unat e = 8 * (?n div 8)"
    by (rule decodeNext_extend [OF s h(4,5)])
  have h': "unat h2 = 64 * 3 + 8 * (?n mod 8) + c" "?n mod 8 < 8" "c < 8" using h n by auto
  have m: "unat (e + (drop_bit 3 h2 AND 7)) = ?n"
    by (rule extend_count [OF e(2) _ n(3)]) (simp only: header_fields [OF h'])
  show ?thesis
    unfolding e(1) decodeExtended_def Let_def
    by (simp add: header_fields [OF h'] n m e(2) decode_steps mustGet_Cons [of _ h2 "raw @ rest"]
        mustRead_append [of _ raw rest] decoder_actions)
qed

lemma decode_CopyThenRepeatLong:
  assumes "wf_cmd (cCopyThenRepeatLong c r b)" "dStream d = enc (cCopyThenRepeatLong c r b) @ rest"
  shows "decodeNext memory_ops d = bindR (copy_out (dLineSize d) c (dBuffer d))
    (\<lambda>out. executed rest (log_of (cCopyThenRepeatLong c r b)) 3 d (out @ replicate r b))"
proof -
  have n: "8 \<le> r" "r \<le> 255" "c \<le> 7" "r \<noteq> 0" using assms(1) by auto
  obtain h1 h2 :: byte where h: "word_of_nat (160 + r div 8) = h1"
    "word_of_nat (128 + 8 * (r mod 8) + c) = h2" "unat h2 = 128 + 8 * (r mod 8) + c"
    "unat h1 = 32 * 5 + r div 8" "r div 8 < 32"
    by (rule long_bytes [OF n(2), of "128 + 8 * (r mod 8) + c"]) (use n in simp_all)
  have s: "dStream d = h1 # h2 # b # rest" using assms(2) by (simp only: enc.simps h(1,2)) simp
  obtain e where e: "decodeNext memory_ops d =
      decodeExtended memory_ops e (d\<lparr>dStream := h2 # b # rest\<rparr>)" "unat e = 8 * (r div 8)"
    by (rule decodeNext_extend [OF s h(4,5)])
  have h': "unat h2 = 64 * 2 + 8 * (r mod 8) + c" "r mod 8 < 8" "c < 8" using h n by auto
  have m: "unat (e + (drop_bit 3 h2 AND 7)) = r"
    by (rule extend_count [OF e(2) _ n(2)]) (simp only: header_fields [OF h'])
  show ?thesis
    unfolding e(1) decodeExtended_def Let_def
    by (simp add: header_fields [OF h'] n m e(2) decode_steps mustGet_Cons [of _ h2 "b # rest"]
        mustGet_Cons [of _ b rest] decoder_actions)
qed

lemma decode_RepeatThenRawLong:
  assumes "wf_cmd (cRepeatThenRawLong r b raw)" "dStream d = enc (cRepeatThenRawLong r b raw) @ rest"
  shows "decodeNext memory_ops d =
    executed rest (log_of (cRepeatThenRawLong r b raw)) (3 + length raw) d
      (dBuffer d @ replicate r b @ raw)"
proof -
  let ?n = "length raw"
  have n: "raw \<noteq> []" "8 \<le> ?n" "?n \<le> 255" "2 \<le> r" "r \<le> 7" "?n \<noteq> 0" "r \<noteq> 0" using assms(1) by auto
  obtain h1 h2 :: byte where h: "word_of_nat (160 + ?n div 8) = h1"
    "word_of_nat (64 + 8 * r + ?n mod 8) = h2" "unat h2 = 64 + 8 * r + ?n mod 8"
    "unat h1 = 32 * 5 + ?n div 8" "?n div 8 < 32"
    by (rule long_bytes [OF n(3), of "64 + 8 * r + ?n mod 8"]) (use n in simp_all)
  have s: "dStream d = h1 # h2 # b # raw @ rest" using assms(2) by (simp only: enc.simps h(1,2)) simp
  obtain e where e: "decodeNext memory_ops d =
      decodeExtended memory_ops e (d\<lparr>dStream := h2 # b # raw @ rest\<rparr>)" "unat e = 8 * (?n div 8)"
    by (rule decodeNext_extend [OF s h(4,5)])
  have h': "unat h2 = 64 * 1 + 8 * r + ?n mod 8" "r < 8" "?n mod 8 < 8" using h n by auto
  have m: "unat (e + (h2 AND 7)) = ?n"
    by (rule extend_count [OF e(2) _ n(3)]) (simp only: header_fields [OF h'])
  show ?thesis
    unfolding e(1) decodeExtended_def Let_def
    by (simp add: header_fields [OF h'] n m e(2) decode_steps mustGet_Cons [of _ h2 "b # raw @ rest"]
        mustGet_Cons [of _ b "raw @ rest"] mustRead_append [of _ raw rest] decoder_actions)
qed

lemma decode_RepeatXLong:
  assumes "wf_cmd (cRepeatXLong r)" "dStream d = enc (cRepeatXLong r) @ rest"
  shows "decodeNext memory_ops d =
    executed rest (log_of (cRepeatXLong r)) 2 d (dBuffer d @ replicate r RepeatXByte)"
proof -
  have n: "8 \<le> r" "r \<le> 255" "r \<noteq> 0" using assms(1) by auto
  obtain h1 h2 :: byte where h: "word_of_nat (160 + r div 8) = h1"
    "word_of_nat (8 * (r mod 8)) = h2" "unat h2 = 8 * (r mod 8)"
    "unat h1 = 32 * 5 + r div 8" "r div 8 < 32"
    by (rule long_bytes [OF n(2), of "8 * (r mod 8)"]) (use n in simp_all)
  have s: "dStream d = h1 # h2 # rest" using assms(2) by (simp only: enc.simps h(1,2)) simp
  obtain e where e: "decodeNext memory_ops d =
      decodeExtended memory_ops e (d\<lparr>dStream := h2 # rest\<rparr>)" "unat e = 8 * (r div 8)"
    by (rule decodeNext_extend [OF s h(4,5)])
  have h': "unat h2 = 64 * 0 + 8 * (r mod 8) + 0" "r mod 8 < 8" "0 < (8 :: nat)" using h n by auto
  have m: "unat (e + (drop_bit 3 h2 AND 7)) = r"
    by (rule extend_count [OF e(2) _ n(2)]) (simp only: header_fields [OF h'])
  show ?thesis
    unfolding e(1) decodeExtended_def Let_def
    by (simp add: header_fields [OF h'] n m e(2) decode_steps mustGet_Cons [of _ h2 rest] decoder_actions)
qed

lemma decode_simple:
  "dStream d = enc cEOP @ rest \<Longrightarrow>
    decodeNext memory_ops d = executed rest (log_of cEOP) 0 d (dBuffer d)"
  "dStream d = enc cNOP @ rest \<Longrightarrow>
    decodeNext memory_ops d = executed rest (log_of cNOP) 1 d (dBuffer d)"
  "dStream d = enc cEOL @ rest \<Longrightarrow>
    decodeNext memory_ops d =
      bindR (run_cmd (dLineSize d) cEOL (dBuffer d)) (executed rest (log_of cEOL) 1 d)"
  by (simp_all add: decodeNext_def mustGet_def dec_endLine_out decoder_actions del: run_cmd.simps)

text \<open>All of it at once; \<open>cmd_size\<close> is what the decoder adds to the video size.\<close>

definition cmd_size :: "ScoaCommand \<Rightarrow> nat" where
  "cmd_size c = (if c = cEOP then 0 else length (enc c))"

lemma decodeNext_runs:
  assumes "wf_cmd c" and "dStream d = enc c @ rest"
  shows "decodeNext memory_ops d =
    bindR (run_cmd (dLineSize d) c (dBuffer d)) (executed rest (log_of c) (cmd_size c) d)"
proof (cases c)
  case (cCopyLong n)
  with assms show ?thesis using decode_CopyLong [of n d rest] by (simp add: cmd_size_def)
next
  case (cCopyShort n)
  with assms show ?thesis using decode_CopyShort [of n d rest] by (simp add: cmd_size_def)
next
  case (cCopyThenRaw n raw)
  with assms show ?thesis using decode_CopyThenRaw [of n raw d rest] by (simp add: cmd_size_def bindR_assoc)
next
  case (cCopyThenRawLong n raw)
  with assms show ?thesis using decode_CopyThenRawLong [of n raw d rest] by (simp add: cmd_size_def bindR_assoc)
next
  case (cCopyThenRepeat n r b)
  with assms show ?thesis using decode_CopyThenRepeat [of n r b d rest]
    by (simp add: cmd_size_def bindR_assoc numeral_2_eq_2)
next
  case (cCopyThenRepeatLong n r b)
  with assms show ?thesis using decode_CopyThenRepeatLong [of n r b d rest]
    by (simp add: cmd_size_def bindR_assoc numeral_3_eq_3)
next
  case (cRepeatThenRaw r b raw)
  with assms show ?thesis using decode_RepeatThenRaw [of r b raw d rest] by (simp add: cmd_size_def)
next
  case (cRepeatThenRawLong r b raw)
  with assms show ?thesis using decode_RepeatThenRawLong [of r b raw d rest]
    by (simp add: cmd_size_def numeral_3_eq_3)
next
  case (cRepeatX r)
  with assms show ?thesis using decode_RepeatX [of r d rest] by (simp add: cmd_size_def)
next
  case (cRepeatXLong r)
  with assms show ?thesis using decode_RepeatXLong [of r d rest] by (simp add: cmd_size_def numeral_2_eq_2)
next
  case cEOP
  with assms show ?thesis using decode_simple(1) [of d rest] by (simp add: cmd_size_def)
next
  case cEOL
  with assms show ?thesis using decode_simple(3) [of d rest] by (simp add: cmd_size_def)
next
  case cNOP
  with assms show ?thesis using decode_simple(2) [of d rest] by (simp add: cmd_size_def)
qed

subsection \<open>Properties\<close>

text \<open>
C19. The decoder understands every command. On a stream that starts with the bytes of a
well-formed command, \<open>decodeNext\<close> takes exactly these bytes, does to its raster what
\<open>run_cmd\<close> says (or fails as \<open>run_cmd\<close> fails), logs the command with its counts, and
returns the number of bytes of the command, 0 for the end marker.
\<close>

theorem decodeNext_executes:
  assumes "wf_cmd c" and "dStream d = enc c @ rest"
  shows "decodeNext memory_ops d =
    bindR (run_cmd (dLineSize d) c (dBuffer d))
      (\<lambda>out. Inr (if c = cEOP then 0 else length (enc c),
        d\<lparr>dStream := rest, dLog := map_option (\<lambda>l. l @ log_of c) (dLog d), dBuffer := out\<rparr>))"
  using decodeNext_runs [OF assms] by (simp add: cmd_size_def executed_def [abs_def])

theorem decodeNext_executes_witness:
  "decodeNext memory_ops (newDecoder (enc (cRepeatThenRawLong 3 7 (replicate 20 1)) @ [0x42]) 4 (Some [])) =
    bindR (run_cmd 4 (cRepeatThenRawLong 3 7 (replicate 20 1)) [])
      (\<lambda>out. Inr (23, (newDecoder [0x42] 4 (Some [''Extend 16'', ''RepeatThenRawLong 3 20'']))\<lparr>dBuffer := out\<rparr>))"
proof -
  have shows_16_3_20: "show_nat 16 = ''16''" "show_nat 3 = ''3''" "show_nat 20 = ''20''"
    by code_simp+
  have "decodeNext memory_ops (newDecoder (enc (cRepeatThenRawLong 3 7 (replicate 20 1)) @ [0x42]) 4 (Some [])) =
    bindR (run_cmd 4 (cRepeatThenRawLong 3 7 (replicate 20 1)) [])
      (\<lambda>out. Inr (23, (newDecoder (enc (cRepeatThenRawLong 3 7 (replicate 20 1)) @ [0x42]) 4 (Some []))
        \<lparr>dStream := [0x42], dLog := Some (log_of (cRepeatThenRawLong 3 7 (replicate 20 1))), dBuffer := out\<rparr>))"
    by (subst decodeNext_executes [where c = "cRepeatThenRawLong 3 7 (replicate 20 1)" and rest = "[0x42]"])
      (simp_all add: newDecoder_def)
  then show ?thesis by (simp add: newDecoder_def shows_16_3_20)
qed

text \<open>
C33. The decoder always comes back. Whatever bytes a stream still has, the loop of
\<open>decodeLine\<close> ends, because each call of \<open>decodeNext\<close> takes at least one byte and fails
on an empty stream.
\<close>

theorem decodeLoop_total:
  "(\<exists>r. decodeLoop memory_ops limit d = Some r) \<and>
    list_all (\<lambda>r. case r of Inr (c, d') \<Rightarrow> length (dStream d') < length (dStream d) | Inl e \<Rightarrow> True)
      [decodeNext memory_ops d]"
proof -
  have "\<exists>r. decodeLoop memory_ops limit d = Some r"
    using memory.decodeLoop_returns [where d = d and limit = limit] by blast
  moreover have "case decodeNext memory_ops d of
      Inr (c, d') \<Rightarrow> length (dStream d') < length (dStream d) | Inl e \<Rightarrow> True"
    using decodeNext_consumes [of d] by (auto split: sum.splits)
  ultimately show ?thesis by simp
qed



text \<open>
The loop condition is computed with a truncated size. Once the decoder holds
\<open>2 ^ 32\<close> bytes or more, \<open>start + lineSize\<close> is below the size of the buffer, so
\<open>decodeLine\<close> reports a line without reading anything: the last line is shown again and
the end of the page is never found.
\<close>

theorem decodeLine_stalls:
  assumes "2 ^ 32 \<le> length (dBuffer d)"
  shows "decodeLine memory_ops d = Inr (True, d)"
proof -
  have "to_unsigned n < 2 ^ 32" for n by (rule to_unsigned_less)
  then have "\<not> length (dBuffer d) < to_unsigned (to_unsigned (length (dBuffer d)) + dLineSize d)"
    using assms by (meson leD less_le_trans less_imp_le)
  then show ?thesis by (simp add: decodeLine_def decodeLoop.simps [of memory_ops _ d])
qed

theorem decodeLine_stalls_witness:
  "decodeLine memory_ops ((newDecoder [0x42] 4 None)\<lparr>dBuffer := replicate (2 ^ 32) 0\<rparr>) =
    Inr (True, (newDecoder [0x42] 4 None)\<lparr>dBuffer := replicate (2 ^ 32) 0\<rparr>)"
  by (rule decodeLine_stalls) (simp add: newDecoder_def)

end
