(* ===== verification/Scoa_Stream.thy ===== *)
theory Scoa_Stream
  imports Scoa_Decoder
begin

text \<open>
  The compressing stream: \<^verbatim>\<open>Compression/ScoaStreambuf.cpp\<close>.

  A \<open>scoa_streambuf\<close> reads whole lines from the raster stream it points to, compresses
  each into its buffer and shows the buffer through its get area; after the last line it
  appends the padding and the end marker.

  \<open>encode_lines\<close> is the reference definition: the bytes of a whole raster, written
  without streams or state. The sublocale at the end says that the stream delivers these
  bytes, in whatever pieces they are asked for, on every raster stream that can be read
  line by line.
\<close>

subsection \<open>State and constructors\<close>

record 's scoa_streambuf = getarea +
  rasterStream :: "'s option"
  sBuffer :: "byte list"
  sCurrLine :: "byte list"
  sPrevLine :: "byte list"
  linesRemain :: nat
  sVideoSize :: nat

definition emptyScoaStreambuf :: "'s scoa_streambuf" where
  "emptyScoaStreambuf =
    \<lparr>gdata = [], gpos = 0, rasterStream = None, sBuffer = [], sCurrLine = [], sPrevLine = [],
     linesRemain = 0, sVideoSize = 0\<rparr>"

definition newScoaStreambuf :: "'s \<Rightarrow> nat \<Rightarrow> nat \<Rightarrow> 's scoa_streambuf" where
  "newScoaStreambuf raster lineSize lines =
    \<lparr>gdata = [], gpos = 0, rasterStream = Some raster, sBuffer = [],
     sCurrLine = replicate lineSize 0, sPrevLine = [], linesRemain = lines, sVideoSize = 0\<rparr>"

definition Reset :: "'s \<Rightarrow> nat \<Rightarrow> nat \<Rightarrow> 's scoa_streambuf \<Rightarrow> 's scoa_streambuf" where
  "Reset raster lineSize lines b =
    b\<lparr>rasterStream := Some raster, sBuffer := [], linesRemain := lines,
      sCurrLine := resize lineSize (sCurrLine b), sPrevLine := resize lineSize (sPrevLine b),
      sVideoSize := 0\<rparr>"

subsection \<open>One line\<close>

lemma nextCmd_advances:
  assumes "nextCmd buffer ln st = Inr (r, st')"
  shows "lineF st' = lineF st" and "indexF st < indexF st'" and "\<not> Empty st"
proof -
  show ne: "\<not> Empty st"
    using assms by (auto simp: nextCmd_def assertR_def split: if_splits)
  obtain f st1 where st1: "Get st = Inr (f, st1)"
    using assms ne by (auto simp: nextCmd_def elim!: bindR_eq_InrE)
  have "st' = st1 \<or> (\<exists>g. Get st1 = Inr (g, st'))"
    using assms ne st1
    by (auto simp: nextCmd_def assertR_eq_Inr elim!: bindR_eq_InrE split: if_splits)
  with Get_advances [OF st1] ne show "lineF st' = lineF st" "indexF st < indexF st'"
    using Get_advances [of st1 _ st'] by fastforce+
qed

function compressLoop :: "byte list \<Rightarrow> byte list \<Rightarrow> nat \<Rightarrow> ScoaState \<Rightarrow> fault + (byte list \<times> nat)" where
  "compressLoop ln buffer videoSize st =
    (if Empty st then Inr (buffer, videoSize)
     else case nextCmd buffer ln st of
            Inl e \<Rightarrow> Inl e
          | Inr ((buffer', sz), st') \<Rightarrow> compressLoop ln buffer' (videoSize + sz) st')"
  by pat_completeness auto
termination
proof (relation "measure (\<lambda>(ln, buffer, v, st). length (lineF st) + 2 - indexF st)", simp)
  fix ln buffer :: "byte list" and v :: nat and st p q buffer' sz st'
  assume ne: "\<not> Empty st" and "nextCmd buffer ln st = Inr p" "(q, st') = p" "(buffer', sz) = q"
  then have "nextCmd buffer ln st = Inr ((buffer', sz), st')" by simp
  from nextCmd_advances [OF this] ne
  show "((ln, buffer', v + sz, st'), (ln, buffer, v, st))
      \<in> measure (\<lambda>(ln, buffer, v, st). length (lineF st) + 2 - indexF st)"
    by (auto simp: Empty_def)
qed

declare compressLoop.simps [simp del]

text \<open>After the last line, padding to an even video size and the end marker.\<close>

definition closePage :: "nat \<Rightarrow> nat \<Rightarrow> byte list \<Rightarrow> byte list" where
  "closePage remain videoSize buffer =
    (if remain = 0 then
       fst (EOP (if (videoSize + 1) mod 2 \<noteq> 0 then fst (NOP buffer) else buffer))
     else buffer)"

definition scoa_underflow ::
  "'s streambuf_ops \<Rightarrow> 's scoa_streambuf \<Rightarrow> fault + (byte option \<times> 's scoa_streambuf)" where
  "scoa_underflow io b =
    (case rasterStream b of
       None \<Rightarrow> Inl AssertionFailed
     | Some raster \<Rightarrow>
         if gpos b < length (gdata b) then Inr (Some (gdata b ! gpos b), b)
         else if linesRemain b = 0 then Inr (None, b)
         else bindR (sgetn io (length (sCurrLine b)) raster) (\<lambda>(bs, raster').
           let b = b\<lparr>rasterStream := Some raster',
                     sCurrLine := bs @ drop (length bs) (sCurrLine b)\<rparr>
           in if length bs < length (sCurrLine b) then Inr (None, b)
              else bindR (newScoaState (sCurrLine b) (if sVideoSize b = 0 then [] else sPrevLine b))
                (\<lambda>state. bindR (compressLoop (sCurrLine b) [] (sVideoSize b) state)
                  (\<lambda>(buffer, videoSize).
                    let buffer' = closePage (linesRemain b - 1) videoSize buffer;
                        b' = b\<lparr>sVideoSize := videoSize,
                               sPrevLine := sCurrLine b,
                               sCurrLine := resize (length (sCurrLine b)) (sPrevLine b),
                               linesRemain := linesRemain b - 1,
                               sBuffer := buffer', gdata := buffer', gpos := 0\<rparr>
                    in if gdata b' = [] then Inl UndefinedBehaviour
                       else Inr (Some (gdata b' ! 0), b')))))"

text \<open>
  The bytes of one line: \<open>line_code prev ln\<close>; they are commands that extend what a
  decoder has by exactly the line.
\<close>

definition line_code :: "byte list \<Rightarrow> byte list \<Rightarrow> byte list" where
  "line_code prev ln =
    (case bindR (newScoaState ln prev) (compressLoop ln [] 0) of Inl _ \<Rightarrow> [] | Inr (b, _) \<Rightarrow> b)"

lemma compressLoop_lays:
  "ready st done prev ln i \<Longrightarrow> \<exists>cs. list_all data_cmd cs \<and>
    (\<forall>vs. compressLoop ln buffer vs st = Inr (buffer @ encs cs, vs + length (encs cs))) \<and>
    run_cmds (length ln) cs (done @ take i ln) = Inr (done @ ln)"
proof (induction "length ln - i" arbitrary: i st buffer rule: less_induct)
  case less
  show ?case
  proof (cases "Empty st")
    case True
    with less.prems have "take i ln = ln" by (auto simp: ready_def todo_empty)
    with True show ?thesis
      by (intro exI [of _ "[]"]) (simp add: compressLoop.simps [of ln buffer _ st])
  next
    case False
    have "nextCmd_ok (nextCmd buffer ln st) buffer done prev ln i"
      using less.prems False by (rule nextCmd_lays)
    then obtain st' j cs where step:
      "nextCmd buffer ln st = Inr ((buffer @ encs cs, length (encs cs)), st')"
      "list_all data_cmd cs" "run_cmds (length ln) cs (done @ take i ln) = Inr (done @ take j ln)"
      "i < j" "ready st' done prev ln j"
      by (auto simp: nextCmd_ok_def lays_def)
    have "i < length ln"
      using less.prems False by (cases "todo st") (auto simp: ready_def todo_empty)
    then have "length ln - j < length ln - i" using step(4) by simp
    from less.hyps [OF this step(5), of "buffer @ encs cs"] obtain ds where
      "list_all data_cmd ds"
      "\<And>vs. compressLoop ln (buffer @ encs cs) vs st' =
        Inr ((buffer @ encs cs) @ encs ds, vs + length (encs ds))"
      "run_cmds (length ln) ds (done @ take j ln) = Inr (done @ ln)"
      by blast
    with step False show ?thesis
      by (intro exI [of _ "cs @ ds"])
        (simp add: compressLoop.simps [of ln buffer _ st] run_cmds_append)
  qed
qed

lemma line_code_spec:
  assumes "ln \<noteq> []" "length ln < 2 ^ 32" "above done prev ln"
  obtains st cs where "newScoaState ln prev = Inr st"
    "\<And>vs. compressLoop ln [] vs st = Inr (line_code prev ln, vs + length (line_code prev ln))"
    "line_code prev ln = encs cs" "list_all data_cmd cs"
    "run_cmds (length ln) cs done = Inr (done @ ln)"
proof -
  have fits: "prev_fits prev ln" using assms(3) by (auto simp: above_def prev_fits_def)
  obtain st where st: "newScoaState ln prev = Inr st" "scan_ok st" "lineF st = ln"
    "todo st = line_funcs prev ln"
    using newScoaState_todo [OF assms(1) fits] by blast
  have "ready st done prev ln 0"
    using st assms line_funcs_tile [OF fits assms(1)] by (simp add: ready_def)
  from compressLoop_lays [OF this, of "[]"] obtain cs where cs: "list_all data_cmd cs"
    "\<And>vs. compressLoop ln [] vs st = Inr (encs cs, vs + length (encs cs))"
    "run_cmds (length ln) cs done = Inr (done @ ln)"
    by auto
  moreover have "line_code prev ln = encs cs" using st cs(2) by (simp add: line_code_def)
  ultimately show thesis using st that by simp
qed

lemma copy_out_length: "copy_out ls n out = Inr out' \<Longrightarrow> length out' = length out + n"
  by (auto simp: copy_out_def split: if_splits)

lemma copy_then_length:
  assumes "bindR (copy_out ls n out) (\<lambda>out'. Inr (out' @ data)) = Inr out'"
  shows "length out' = length out + n + length data"
  using assms by (auto elim!: bindR_eq_InrE dest: copy_out_length)

lemma endline_length:
  assumes "run_cmd ls cEOL out = Inr out'"
  shows "length out < length out'"
proof -
  have "0 < ls" "copy_out ls (ls - length out mod ls) out = Inr out'"
    using assms by (auto split: if_splits)
  then have "length out' = length out + (ls - length out mod ls)" "length out mod ls < ls"
    by (auto dest: copy_out_length)
  then show ?thesis by linarith
qed

lemma run_cmd_grows:
  assumes "data_cmd c" and "run_cmd ls c out = Inr out'"
  shows "length out < length out' \<and> length (enc c) + 2 * length out \<le> 2 * length out'"
proof (cases "c = cEOL")
  case True
  with assms endline_length [of ls out out'] show ?thesis by simp
next
  case False
  with assms show ?thesis
    by (cases c) (auto simp: data_cmd_def dest!: copy_out_length copy_then_length)
qed

lemma run_cmds_grow:
  "list_all data_cmd cs \<Longrightarrow> run_cmds ls cs out = Inr out' \<Longrightarrow>
    length out \<le> length out' \<and> length (encs cs) + 2 * length out \<le> 2 * length out'"
proof (induction cs arbitrary: out)
  case (Cons c cs)
  then obtain out1 where "run_cmd ls c out = Inr out1" "run_cmds ls cs out1 = Inr out'"
    by (auto elim: bindR_eq_InrE)
  with Cons run_cmd_grows [of c ls out out1] show ?case by fastforce
qed simp

lemma line_code_bounds:
  assumes "ln \<noteq> []" "length ln < 2 ^ 32" "prev_fits prev ln"
  shows "1 \<le> length (line_code prev ln)" "length (line_code prev ln) \<le> 2 * length ln"
proof -
  have "above prev prev ln" using assms(3) by (auto simp: above_def prev_fits_def)
  then obtain st cs where cs: "line_code prev ln = encs cs" "list_all data_cmd cs"
    "run_cmds (length ln) cs prev = Inr (prev @ ln)"
    by (rule line_code_spec [OF assms(1,2)])
  then show "length (line_code prev ln) \<le> 2 * length ln" using run_cmds_grow [OF cs(2,3)] by simp
  have "cs \<noteq> []" using cs(3) assms(1) by auto
  then have "encs cs \<noteq> []" using cs(2) by (cases cs; cases "hd cs") (auto simp: encs_def)
  then show "1 \<le> length (line_code prev ln)" by (simp add: cs(1) Suc_le_eq)
qed

subsection \<open>The whole raster\<close>

definition page_end :: "nat \<Rightarrow> byte list" where
  "page_end vs = (if (vs + 1) mod 2 \<noteq> 0 then enc cNOP else []) @ enc cEOP"

fun encode_lines :: "nat \<Rightarrow> nat \<Rightarrow> nat \<Rightarrow> byte list \<Rightarrow> byte list \<Rightarrow> byte list" where
  "encode_lines 0 ls vs prev raster = []"
| "encode_lines (Suc n) ls vs prev raster =
    (if length raster < ls then []
     else
       let ln = take ls raster;
           code = line_code (if vs = 0 then [] else prev) ln
       in code @ (if n = 0 then page_end (vs + length code)
                  else encode_lines n ls (vs + length code) ln (drop ls raster)))"

definition scoa_ok :: "('s \<Rightarrow> bool) \<Rightarrow> nat \<Rightarrow> 's scoa_streambuf \<Rightarrow> bool" where
  "scoa_ok ok ls b \<longleftrightarrow>
    (\<exists>s. rasterStream b = Some s \<and> ok s) \<and> length (sCurrLine b) = ls \<and> 1 \<le> ls \<and> ls < 2 ^ 32 \<and>
    (sVideoSize b = 0 \<or> length (sPrevLine b) = ls)"

definition scoa_rest :: "('s \<Rightarrow> byte list) \<Rightarrow> 's scoa_streambuf \<Rightarrow> byte list" where
  "scoa_rest content b =
    (case rasterStream b of None \<Rightarrow> []
     | Some s \<Rightarrow> encode_lines (linesRemain b) (length (sCurrLine b)) (sVideoSize b) (sPrevLine b) (content s))"

context line_source
begin

lemma scoa_refill:
  assumes "scoa_ok ok lineSize b" and "\<not> gpos b < length (gdata b)"
  shows "\<exists>b'. scoa_underflow io b = Inr (hd_opt (scoa_rest content b), b') \<and>
    scoa_ok ok lineSize b' \<and> drop (gpos b') (gdata b') @ scoa_rest content b' = scoa_rest content b \<and>
    (scoa_rest content b \<noteq> [] \<longrightarrow> gpos b' < length (gdata b'))"
proof -
  obtain s where s: "rasterStream b = Some s" "ok s" "length (sCurrLine b) = lineSize"
    "1 \<le> lineSize" "lineSize < 2 ^ 32" "sVideoSize b = 0 \<or> length (sPrevLine b) = lineSize"
    using assms(1) by (auto simp: scoa_ok_def)
  obtain s' where s': "sgetn io lineSize s = Inr (take lineSize (content s), s')" "ok s'"
    "content s' = drop lineSize (content s)"
    using read_line [OF s(2)] by (rule deliversE)
  define prev where "prev = (if sVideoSize b = 0 then [] else sPrevLine b)"
  define ln where "ln = take lineSize (content s)"
  define vs where "vs = sVideoSize b + length (line_code prev ln)"
  show ?thesis
  proof (cases "linesRemain b = 0 \<or> length (content s) < lineSize")
    case True
    then have "scoa_rest content b = []"
      using s by (cases "linesRemain b") (auto simp: scoa_rest_def)
    moreover have "scoa_underflow io b = Inr (None, b) \<or> scoa_underflow io b =
        Inr (None, b\<lparr>rasterStream := Some s', sCurrLine := content s @ drop (length (content s)) (sCurrLine b)\<rparr>) \<and>
        length (content s) < lineSize"
      using True s s' assms(2) by (auto simp: scoa_underflow_def)
    ultimately show ?thesis
      using assms s s' by (elim disjE; cases "linesRemain b") (auto simp: scoa_rest_def scoa_ok_def)
  next
    case False
    then obtain n where n: "linesRemain b = Suc n" by (cases "linesRemain b") auto
    have ln: "length ln = lineSize" "ln \<noteq> []" "length ln < 2 ^ 32" "prev_fits prev ln"
      using False s by (auto simp: ln_def prev_def prev_fits_def)
    then have "above prev prev ln" by (auto simp: above_def prev_fits_def)
    then obtain st where st: "newScoaState ln prev = Inr st"
      "compressLoop ln [] (sVideoSize b) st = Inr (line_code prev ln, vs)"
      using line_code_spec [OF ln(2,3)] unfolding vs_def by metis
    define buf where "buf = line_code prev ln @ (if n = 0 then page_end vs else [])"
    let ?b = "b\<lparr>rasterStream := Some s', sCurrLine := resize lineSize (sPrevLine b),
      sVideoSize := vs, sPrevLine := ln, linesRemain := n, sBuffer := buf, gdata := buf, gpos := 0\<rparr>"
    have code: "line_code prev ln \<noteq> []" using line_code_bounds [OF ln(2-4)] by auto
    then have buf: "buf \<noteq> []" by (simp add: buf_def)
    have padded: "closePage n vs (line_code prev ln) = buf"
      by (simp add: buf_def closePage_def page_end_def NOP_def EOP_def)
    have "scoa_underflow io b = Inr (Some (buf ! 0), ?b)"
      using s s' assms(2) ln(1) st n buf padded
      by (simp add: scoa_underflow_def Let_def prev_def [symmetric] ln_def [symmetric] cong: if_cong)
    moreover have "scoa_rest content b = buf @ scoa_rest content ?b"
      using False s n unfolding vs_def prev_def ln_def buf_def by (simp add: scoa_rest_def Let_def s')
    moreover have "hd_opt buf = Some (buf ! 0)" using buf by (simp add: hd_opt_def split: list.splits)
    moreover have "scoa_ok ok lineSize ?b" using s s' ln by (simp add: scoa_ok_def)
    ultimately show ?thesis using buf by (intro exI [of _ ?b]) simp
  qed
qed

end

text \<open>The raster a compressing stream reads.\<close>

locale raster_source = line_source

sublocale raster_source \<subseteq> scoa: underflow_class "scoa_underflow io" "scoa_ok ok lineSize" "scoa_rest content"
proof unfold_locales
  show "scoa_ok ok lineSize (b\<lparr>gpos := Suc (gpos b)\<rparr>)" if "scoa_ok ok lineSize b" for b
    using that by (simp add: scoa_ok_def)
  show "scoa_rest content (b\<lparr>gpos := p\<rparr>) = scoa_rest content b" for b p
    by (simp add: scoa_rest_def split: option.split)
qed (rule scoa_refill)

interpretation memory_raster: raster_source memory_ops "\<lambda>_. True" "\<lambda>s. s" ls for ls
  by unfold_locales (simp add: deliversI)

subsection \<open>Properties\<close>

text \<open>
C8. The compressing stream is the reference compressor, whatever the sizes of the reads. A
new \<open>ScoaStreambuf\<close> over the bytes of a raster, read in two requests of any sizes,
delivers the bytes of \<open>encode_lines\<close>; no assertion fails and nothing is lost or
repeated at the boundary.
\<close>

theorem compressed_stream_delivers:
  assumes "1 \<le> ls" and "ls < 2 ^ 32"
  shows "\<exists>b b'. sgetn (area_ops (scoa_underflow memory_ops)) j (newScoaStreambuf raster ls n) =
      Inr (take j (encode_lines n ls 0 [] raster), b) \<and>
    sgetn (area_ops (scoa_underflow memory_ops)) k b =
      Inr (take k (drop j (encode_lines n ls 0 [] raster)), b')"
proof -
  let ?b = "newScoaStreambuf raster ls n"
  have "scoa_ok (\<lambda>_. True) ls ?b" using assms by (simp add: newScoaStreambuf_def scoa_ok_def)
  moreover have "memory_raster.scoa.stream_content ?b = encode_lines n ls 0 [] raster"
    by (simp add: memory_raster.scoa.stream_content_def newScoaStreambuf_def scoa_rest_def)
  ultimately obtain b where "sgetn (area_ops (scoa_underflow memory_ops)) j ?b =
      Inr (take j (encode_lines n ls 0 [] raster), b)"
    "delivers (scoa_ok (\<lambda>_. True) ls) memory_raster.scoa.stream_content
      (sgetn (area_ops (scoa_underflow memory_ops)) k b)
      (take k (drop j (encode_lines n ls 0 [] raster))) (drop (j + k) (encode_lines n ls 0 [] raster))"
    using memory_raster.scoa.read_in_two [of ls ?b j k] by metis
  then show ?thesis by (blast elim: deliversE)
qed

theorem compressed_stream_delivers_witness:
  "\<exists>b b'. sgetn (area_ops (scoa_underflow memory_ops)) 2 (newScoaStreambuf [5, 5, 5, 5] 2 2) =
      Inr (take 2 (encode_lines 2 2 0 [] [5, 5, 5, 5]), b) \<and>
    sgetn (area_ops (scoa_underflow memory_ops)) 7 b =
      Inr (take 7 (drop 2 (encode_lines 2 2 0 [] [5, 5, 5, 5])), b')"
  by (rule compressed_stream_delivers) simp_all

text \<open>
\<open>Reset\<close> starts a new page. When the old page has been read to the end of the get
area, a stream that is reset delivers the compressed bytes of the new raster and nothing of
the old page; bytes still in the get area at the time of the call would be delivered before
them, since the get area is not cleared.
\<close>

theorem reset_starts_page:
  assumes "1 \<le> ls" and "ls < 2 ^ 32"
  shows "\<exists>b'. sgetn (area_ops (scoa_underflow memory_ops)) k (Reset raster ls n b) =
      Inr (take k (drop (gpos b) (gdata b) @ encode_lines n ls 0 [] raster), b')"
proof -
  let ?b = "Reset raster ls n b"
  have "scoa_ok (\<lambda>_. True) ls ?b" using assms by (simp add: Reset_def scoa_ok_def)
  moreover have "encode_lines n ls 0 prev raster = encode_lines n ls 0 [] raster" for prev
    by (cases n) (simp_all add: Let_def)
  then have "memory_raster.scoa.stream_content ?b =
      drop (gpos b) (gdata b) @ encode_lines n ls 0 [] raster"
    by (simp add: memory_raster.scoa.stream_content_def Reset_def scoa_rest_def)
  ultimately show ?thesis
    using memory_raster.scoa.read [of ls ?b k] by (simp add: delivers_def) blast
qed

theorem reset_starts_page_witness:
  "\<exists>b'. sgetn (area_ops (scoa_underflow memory_ops)) 9
      (Reset [5, 5] 2 1 (emptyScoaStreambuf\<lparr>gdata := [1, 2, 3], gpos := 2\<rparr>)) =
      Inr (take 9 (3 # encode_lines 1 2 0 [] [5, 5]), b')"
  using reset_starts_page [of 2 9 "[5, 5]" 1 "emptyScoaStreambuf\<lparr>gdata := [1, 2, 3], gpos := 2\<rparr>"]
  by (simp del: encode_lines.simps)

text \<open>
A raster with lines of no bytes is not handled: the state of the scanner on an empty
line is not empty, so the first read of a stream over such a raster fails the assertion of
\<open>Peek\<close>.
\<close>

theorem empty_line_fails:
  "scoa_underflow memory_ops (newScoaStreambuf raster 0 (Suc n)) = Inl AssertionFailed"
  by (simp add: scoa_underflow_def newScoaStreambuf_def newScoaState_def Next.simps
      compressLoop.simps nextCmd_def Get_def Peek_def Empty_def)

end
