(* ===== verification/Scoa_Roundtrip.thy ===== *)
theory Scoa_Roundtrip
  imports Scoa_Stream
begin

text \<open>
  Compressing and decoding: the decoder turns the bytes of \<open>encode_lines\<close> back into the
  raster, line by line, and meets the end of the page with an even video size. Also the
  bound on the size of a compressed raster.
\<close>

lemma page_end_cases:
  "page_end vs = (if odd vs then enc cEOP else enc cNOP @ enc cEOP)"
proof -
  have "((vs + 1) mod 2 \<noteq> 0) = even vs" by presburger
  then show ?thesis unfolding page_end_def by (simp only: append.simps if_distrib split: if_split) simp
qed

subsection \<open>Decoding the commands of one line\<close>

definition after_cmds :: "ScoaCommand list \<Rightarrow> byte list \<Rightarrow> byte list \<Rightarrow> byte list decoder \<Rightarrow> byte list decoder" where
  "after_cmds cs rest out d =
    d\<lparr>dStream := rest, dBuffer := out, dVideoSize := dVideoSize d + length (encs cs),
      dLog := map_option (\<lambda>l. l @ concat (map log_of cs)) (dLog d)\<rparr>"

lemma map_option_append_nil [simp]: "map_option (\<lambda>l. l @ []) z = z"
  by (cases z) simp_all

lemma after_cmds_fields [simp]:
  "gdata (after_cmds cs rest out d) = gdata d" "gpos (after_cmds cs rest out d) = gpos d"
  "dStream (after_cmds cs rest out d) = rest" "dBuffer (after_cmds cs rest out d) = out"
  "dLineSize (after_cmds cs rest out d) = dLineSize d"
  "dVideoSize (after_cmds cs rest out d) = dVideoSize d + length (encs cs)"
  by (simp_all add: after_cmds_def)

lemma decodeLoop_runs:
  "list_all data_cmd cs \<Longrightarrow> run_cmds (dLineSize d) cs (dBuffer d) = Inr out \<Longrightarrow>
    length out = limit \<Longrightarrow> dStream d = encs cs @ rest \<Longrightarrow>
    decodeLoop memory_ops limit d = Some (Inr (True, after_cmds cs rest out d))"
proof (induction cs arbitrary: d)
  case Nil
  then show ?case
    by (cases d) (simp add: decodeLoop.simps [of memory_ops limit] after_cmds_def option.map_ident)
next
  case (Cons c cs)
  let ?ls = "dLineSize d"
  obtain out1 where out1: "run_cmd ?ls c (dBuffer d) = Inr out1" "run_cmds ?ls cs out1 = Inr out"
    using Cons.prems(2) by (auto elim: bindR_eq_InrE)
  have c: "data_cmd c" "wf_cmd c" "c \<noteq> cEOP" using Cons.prems(1) by (auto simp: data_cmd_def)
  have less: "length (dBuffer d) < limit"
    using run_cmd_grows [OF c(1) out1(1)] run_cmds_grow [of cs ?ls out1 out] out1 Cons.prems by simp
  let ?d1 = "d\<lparr>dStream := encs cs @ rest, dLog := map_option (\<lambda>l. l @ log_of c) (dLog d),
    dBuffer := out1, dVideoSize := dVideoSize d + length (enc c)\<rparr>"
  have "decodeNext memory_ops d = executed (encs cs @ rest) (log_of c) (length (enc c)) d out1"
    using decodeNext_runs [OF c(2), of d "encs cs @ rest"] Cons.prems(4) out1(1) c(3)
    by (simp add: cmd_size_def)
  moreover have "length (enc c) \<noteq> 0" by (cases c) simp_all
  ultimately have "decodeLoop memory_ops limit d = decodeLoop memory_ops limit ?d1"
    using less by (simp add: decodeLoop.simps [of memory_ops limit d] executed_def)
  also have "\<dots> = Some (Inr (True, after_cmds cs rest out ?d1))"
    using Cons.prems out1 by (intro Cons.IH) simp_all
  also have "after_cmds cs rest out ?d1 = after_cmds (c # cs) rest out d"
    by (simp add: after_cmds_def add.assoc)
  finally show ?case .
qed

text \<open>One line: \<open>decodeLine\<close> on the code of a line appends the line.\<close>

lemma decodeLine_line:
  assumes "ln \<noteq> []" and "above (dBuffer d) prev ln" and "dLineSize d = length ln"
    and "length (dBuffer d) + length ln < 2 ^ 32" and "dStream d = line_code prev ln @ rest"
  obtains d' where "decodeLine memory_ops d = Inr (True, d')" "dStream d' = rest"
    "dBuffer d' = dBuffer d @ ln" "dLineSize d' = length ln" "gdata d' = gdata d" "gpos d' = gpos d"
    "dVideoSize d' = dVideoSize d + length (line_code prev ln)"
proof -
  have small: "length ln < 2 ^ 32" using assms(4) by simp
  obtain cs where cs: "line_code prev ln = encs cs" "list_all data_cmd cs"
    "run_cmds (length ln) cs (dBuffer d) = Inr (dBuffer d @ ln)"
    by (rule line_code_spec [OF assms(1) small assms(2)])
  have "decodeLoop memory_ops (length (dBuffer d) + length ln) d =
      Some (Inr (True, after_cmds cs rest (dBuffer d @ ln) d))"
    using cs assms by (intro decodeLoop_runs) simp_all
  then have "decodeLine memory_ops d = Inr (True, after_cmds cs rest (dBuffer d @ ln) d)"
    using assms by (simp add: decodeLine_def)
  with that show thesis using assms(3) cs(1) by simp
qed

text \<open>The end of the page: optional padding and the end marker, at an even size.\<close>

lemma decodeLine_page_end:
  assumes "dLineSize d \<noteq> 0" and "length (dBuffer d) + dLineSize d < 2 ^ 32"
    and "dStream d = page_end (dVideoSize d) @ rest"
  obtains d' where "decodeLine memory_ops d = Inr (False, d')" "dStream d' = rest"
    "dBuffer d' = dBuffer d" "dVideoSize d' = 0" "gdata d' = gdata d" "gpos d' = gpos d"
proof -
  let ?limit = "length (dBuffer d) + dLineSize d"
  have eop: "\<exists>d'. decodeLoop memory_ops ?limit d1 = Some (Inr (False, d')) \<and> dStream d' = rest \<and>
      dBuffer d' = dBuffer d1 \<and> dVideoSize d' = 0 \<and> gdata d' = gdata d1 \<and> gpos d' = gpos d1"
    if "dStream d1 = enc cEOP @ rest" "odd (dVideoSize d1)" "length (dBuffer d1) < ?limit" for d1
    using that decode_simple(1) [of d1 rest]
    by (simp add: decodeLoop.simps [of memory_ops _ d1] executed_def)
  have "\<exists>d'. decodeLoop memory_ops ?limit d = Some (Inr (False, d')) \<and> dStream d' = rest \<and>
      dBuffer d' = dBuffer d \<and> dVideoSize d' = 0 \<and> gdata d' = gdata d \<and> gpos d' = gpos d"
  proof (cases "odd (dVideoSize d)")
    case True
    with assms eop [of d] show ?thesis by (simp add: page_end_cases)
  next
    case False
    let ?d1 = "d\<lparr>dStream := enc cEOP @ rest, dLog := map_option (\<lambda>l. l @ log_of cNOP) (dLog d),
      dVideoSize := dVideoSize d + 1\<rparr>"
    have "dStream d = enc cNOP @ enc cEOP @ rest" using False assms(3) by (simp add: page_end_cases)
    then have "decodeNext memory_ops d = executed (enc cEOP @ rest) (log_of cNOP) 1 d (dBuffer d)"
      by (rule decode_simple(2))
    then have "decodeLoop memory_ops ?limit d = decodeLoop memory_ops ?limit ?d1"
      using assms(1) by (simp add: decodeLoop.simps [of memory_ops _ d] executed_def)
    with eop [of ?d1] False assms(1) show ?thesis by simp
  qed
  then show thesis using that assms(2) by (auto simp: decodeLine_def)
qed

subsection \<open>Reading from a decoder\<close>

abbreviation dec_read ::
  "'s streambuf_ops \<Rightarrow> nat \<Rightarrow> 's decoder \<Rightarrow> fault + (byte list \<times> 's decoder)" where
  "dec_read io \<equiv> xsgetn (area_sbumpc (dec_underflow io))"

lemma xsgetn_add:
  "xsgetn bump m s = Inr (bs, s') \<Longrightarrow> length bs = m \<Longrightarrow>
    xsgetn bump (m + n) s = bindR (xsgetn bump n s') (\<lambda>(cs, s''). Inr (bs @ cs, s''))"
proof (induction m arbitrary: s bs)
  case 0
  then show ?case by (cases "xsgetn bump n s'") (auto simp: bindR_def)
next
  case (Suc m)
  from Suc.prems obtain c s1 where c: "bump s = Inr (c, s1)" by (auto elim!: bindR_eq_InrE)
  with Suc.prems obtain b cs where b: "c = Some b" "xsgetn bump m s1 = Inr (cs, s')" "bs = b # cs"
    by (auto elim!: bindR_eq_InrE split: option.splits)
  with Suc.prems have "xsgetn bump (m + n) s1 = bindR (xsgetn bump n s') (\<lambda>(cs', s''). Inr (cs @ cs', s''))"
    by (intro Suc.IH) simp_all
  with c b show ?case by (cases "xsgetn bump n s'") auto
qed

lemma xsgetn_area:
  "gpos b + n \<le> length (gdata b) \<Longrightarrow>
    xsgetn (area_sbumpc underflow) n b =
      Inr (take n (drop (gpos b) (gdata b)), b\<lparr>gpos := gpos b + n\<rparr>)"
proof (induction n arbitrary: b)
  case (Suc n)
  have "xsgetn (area_sbumpc underflow) n (b\<lparr>gpos := Suc (gpos b)\<rparr>) =
      Inr (take n (drop (Suc (gpos b)) (gdata b)), b\<lparr>gpos := Suc (gpos b) + n\<rparr>)"
    using Suc.prems Suc.IH [of "b\<lparr>gpos := Suc (gpos b)\<rparr>"] by simp
  moreover have "drop (gpos b) (gdata b) = gdata b ! gpos b # drop (Suc (gpos b)) (gdata b)"
    using Suc.prems by (simp add: Cons_nth_drop_Suc)
  moreover have "area_sbumpc underflow b = Inr (Some (gdata b ! gpos b), b\<lparr>gpos := Suc (gpos b)\<rparr>)"
    using Suc.prems by (simp add: area_sbumpc_def)
  ultimately show ?case using Suc.prems by simp
qed simp

lemma xsgetn_refilled:
  assumes "\<not> gpos b < length (gdata b)" and "underflow b = Inr (Some c, b')"
    and "gpos b' < length (gdata b')" and "0 < n"
  shows "xsgetn (area_sbumpc underflow) n b = xsgetn (area_sbumpc underflow) n b'"
  using assms by (cases n) (simp_all add: area_sbumpc_def area_uflow_def)

subsection \<open>The round trip on the bytes\<close>

text \<open>A decoder between two lines of \<open>ls\<close> bytes; \<open>prev\<close> is the last line.\<close>

definition between_lines :: "nat \<Rightarrow> byte list \<Rightarrow> byte list decoder \<Rightarrow> bool" where
  "between_lines ls prev d \<longleftrightarrow>
    dLineSize d = ls \<and> \<not> gpos d < length (gdata d) \<and> ls dvd length (dBuffer d) \<and>
    (dVideoSize d = 0 \<or> length prev = ls \<and> (\<exists>before. dBuffer d = before @ prev))"

lemma dec_reads_line:
  assumes between: "between_lines ls prev d" and ln: "length ln = ls" "0 < ls"
    and small: "length (dBuffer d) + ls < 2 ^ 32"
    and stream: "dStream d = line_code (if dVideoSize d = 0 then [] else prev) ln @ rest"
  obtains d' where "dec_read memory_ops ls d = Inr (ln, d')" "between_lines ls ln d'"
    "dStream d' = rest" "length (dBuffer d') = length (dBuffer d) + ls"
    "dVideoSize d' = dVideoSize d + length (line_code (if dVideoSize d = 0 then [] else prev) ln)"
proof -
  let ?prev = "if dVideoSize d = 0 then [] else prev"
  have ne: "ln \<noteq> []" using ln by auto
  have above: "above (dBuffer d) ?prev ln" using between ln by (auto simp: above_def between_lines_def)
  have size: "dLineSize d = length ln" "length (dBuffer d) + length ln < 2 ^ 32"
    using between small ln by (simp_all add: between_lines_def)
  obtain d1 where d1: "decodeLine memory_ops d = Inr (True, d1)" "dStream d1 = rest"
    "dBuffer d1 = dBuffer d @ ln" "dLineSize d1 = length ln"
    "dVideoSize d1 = dVideoSize d + length (line_code ?prev ln)"
    by (rule decodeLine_line [OF ne above size stream])
  let ?d2 = "d1\<lparr>gdata := ln, gpos := 0\<rparr>"
  have "dec_underflow memory_ops d = Inr (Some (ln ! 0), ?d2)"
    using between d1 ne by (simp add: dec_underflow_def between_lines_def)
  then have "dec_read memory_ops ls d = dec_read memory_ops ls ?d2"
    using between ln by (intro xsgetn_refilled [where c = "ln ! 0"]) (auto simp: between_lines_def)
  also have "\<dots> = Inr (ln, ?d2\<lparr>gpos := ls\<rparr>)" using ln by (simp add: xsgetn_area)
  finally show thesis
    using between d1 ln by (intro that [of "?d2\<lparr>gpos := ls\<rparr>"]) (auto simp: between_lines_def)
qed

lemma dec_reads_page_end:
  assumes "between_lines ls prev d" and "0 < ls" and "length (dBuffer d) + ls < 2 ^ 32"
    and "dStream d = page_end (dVideoSize d) @ rest"
  obtains d' where "dec_underflow memory_ops d = Inr (None, d')" "dStream d' = rest"
proof -
  have "dLineSize d \<noteq> 0" "length (dBuffer d) + dLineSize d < 2 ^ 32" "\<not> gpos d < length (gdata d)"
    using assms by (simp_all add: between_lines_def)
  then obtain d' where "decodeLine memory_ops d = Inr (False, d')" "dStream d' = rest"
    using decodeLine_page_end [OF _ _ assms(4)] by metis
  with that show thesis using assms(1) by (simp add: dec_underflow_def between_lines_def)
qed

lemma dec_reads_raster:
  "between_lines ls prev d \<Longrightarrow> 0 < ls \<Longrightarrow> length (dBuffer d) + Suc (Suc n) * ls < 2 ^ 32 \<Longrightarrow>
    Suc n * ls \<le> length raster \<Longrightarrow>
    dStream d = encode_lines (Suc n) ls (dVideoSize d) prev raster @ rest \<Longrightarrow>
    \<exists>d' d''. dec_read memory_ops (Suc n * ls) d = Inr (take (Suc n * ls) raster, d') \<and>
      \<not> gpos d' < length (gdata d') \<and>
      dec_underflow memory_ops d' = Inr (None, d'') \<and> dStream d'' = rest"
proof (induction n arbitrary: d prev raster)
  case 0
  let ?ln = "take ls raster" and ?prev = "if dVideoSize d = 0 then [] else prev"
  let ?code = "line_code ?prev ?ln"
  have ln: "length ?ln = ls" using 0 by simp
  have small: "length (dBuffer d) + ls < 2 ^ 32" using 0 by simp
  have stream: "dStream d = ?code @ page_end (dVideoSize d + length ?code) @ rest"
    using 0 by (simp add: Let_def)
  obtain d' where d': "dec_read memory_ops ls d = Inr (?ln, d')" "between_lines ls ?ln d'"
    "dStream d' = page_end (dVideoSize d + length ?code) @ rest"
    "length (dBuffer d') = length (dBuffer d) + ls" "dVideoSize d' = dVideoSize d + length ?code"
    by (rule dec_reads_line [OF 0(1) ln 0(2) small stream])
  have "length (dBuffer d') + ls < 2 ^ 32" using d' 0 by simp
  then obtain d'' where "dec_underflow memory_ops d' = Inr (None, d'')" "dStream d'' = rest"
    using d' 0(2) by (auto intro: dec_reads_page_end [OF d'(2), of rest])
  with d' show ?case by (auto simp: between_lines_def)
next
  case (Suc n)
  let ?ln = "take ls raster" and ?prev = "if dVideoSize d = 0 then [] else prev"
  let ?code = "line_code ?prev ?ln"
  let ?rest = "encode_lines (Suc n) ls (dVideoSize d + length ?code) ?ln (drop ls raster) @ rest"
  have ln: "length ?ln = ls" using Suc.prems by simp
  have small: "length (dBuffer d) + ls < 2 ^ 32" using Suc.prems by simp
  have stream: "dStream d = ?code @ ?rest"
    using Suc.prems(4,5) by (simp add: Let_def)
  obtain d1 where d1: "dec_read memory_ops ls d = Inr (?ln, d1)" "between_lines ls ?ln d1"
    "dStream d1 = ?rest" "length (dBuffer d1) = length (dBuffer d) + ls"
    "dVideoSize d1 = dVideoSize d + length ?code"
    by (rule dec_reads_line [OF Suc.prems(1) ln Suc.prems(2) small stream])
  have "\<exists>d' d''. dec_read memory_ops (Suc n * ls) d1 = Inr (take (Suc n * ls) (drop ls raster), d') \<and>
      \<not> gpos d' < length (gdata d') \<and>
      dec_underflow memory_ops d' = Inr (None, d'') \<and> dStream d'' = rest"
    using Suc.prems d1 by (intro Suc.IH [of ?ln]) simp_all
  then obtain d' d'' where
    "dec_read memory_ops (Suc n * ls) d1 = Inr (take (Suc n * ls) (drop ls raster), d')"
    "\<not> gpos d' < length (gdata d')" "dec_underflow memory_ops d' = Inr (None, d'')" "dStream d'' = rest"
    by blast
  moreover from this(1) have "dec_read memory_ops (ls + Suc n * ls) d =
      Inr (?ln @ take (Suc n * ls) (drop ls raster), d')"
    using xsgetn_add [OF d1(1) ln, of "Suc n * ls"] by simp
  moreover have "?ln @ take (Suc n * ls) (drop ls raster) = take (ls + Suc n * ls) raster"
    by (simp only: take_add)
  ultimately show ?case by auto
qed

subsection \<open>The round trip through the streams\<close>

context byte_source
begin

lemma area_sbumpc_tracks:
  assumes "ok (dStream d)"
  shows "tracks ok content (area_sbumpc (dec_underflow io) d)
    (area_sbumpc (dec_underflow memory_ops) (dec_view content d))"
proof (cases "gpos d < length (gdata d)")
  case True
  then show ?thesis using assms by (simp add: area_sbumpc_def tracks_def dec_view_def)
next
  case False
  have "tracks ok content (dec_underflow io d) (dec_underflow memory_ops (dec_view content d))"
    using assms by (rule dec_underflow_tracks)
  then show ?thesis
    using False assms
    by (cases "dec_underflow io d")
      (auto simp: area_sbumpc_def area_uflow_def tracks_def dec_view_def split: option.splits)
qed

lemma dec_read_tracks:
  "ok (dStream d) \<Longrightarrow> tracks ok content (dec_read io n d) (dec_read memory_ops n (dec_view content d))"
proof (induction n arbitrary: d)
  case 0
  then show ?case by (simp add: tracks_def)
next
  case (Suc n)
  note step = area_sbumpc_tracks [OF Suc.prems]
  show ?case
  proof (cases "area_sbumpc (dec_underflow io) d")
    case (Inl e)
    with step show ?thesis by (simp add: tracks_def)
  next
    case (Inr p)
    obtain c d1 where p: "p = (c, d1)" by (cases p)
    have d1: "ok (dStream d1)"
      "area_sbumpc (dec_underflow memory_ops) (dec_view content d) = Inr (c, dec_view content d1)"
      using step Inr p by (simp_all add: tracks_def)
    show ?thesis
      using Suc.IH [OF d1(1)] d1 Inr p
      by (cases c; cases "dec_read io n d1") (auto simp: tracks_def)
  qed
qed

lemma decoder_restores:
  assumes "ok s" and "content s = encode_lines n ls 0 prev raster @ rest"
    and "0 < n" and "0 < ls" and "Suc n * ls < 2 ^ 32" and "n * ls \<le> length raster"
  shows "\<exists>d' d''. dec_read io (n * ls) (newDecoder s ls log) = Inr (take (n * ls) raster, d') \<and>
    dec_underflow io d' = Inr (None, d'') \<and> ok (dStream d'') \<and> content (dStream d'') = rest"
proof -
  let ?d = "newDecoder s ls log"
  obtain m where m: "n = Suc m" using assms(3) by (cases n) auto
  have "between_lines ls prev (dec_view content ?d)"
    "dStream (dec_view content ?d) = encode_lines n ls (dVideoSize (dec_view content ?d)) prev raster @ rest"
    "length (dBuffer (dec_view content ?d)) = 0"
    using assms(2) by (simp_all add: between_lines_def newDecoder_def)
  then obtain d' d'' where
    "dec_read memory_ops (n * ls) (dec_view content ?d) = Inr (take (n * ls) raster, d')"
    "dec_underflow memory_ops d' = Inr (None, d'')" "dStream d'' = rest"
    using dec_reads_raster [of ls prev "dec_view content ?d" m raster rest] assms m by auto
  moreover have "tracks ok content (dec_read io (n * ls) ?d)
      (dec_read memory_ops (n * ls) (dec_view content ?d))"
    by (rule dec_read_tracks) (simp add: newDecoder_def assms)
  ultimately obtain d1 where d1: "dec_read io (n * ls) ?d = Inr (take (n * ls) raster, d1)"
    "ok (dStream d1)" "d' = dec_view content d1"
    by (auto simp: tracks_def split: sum.splits)
  with dec_underflow_tracks [OF d1(2)] \<open>dec_underflow memory_ops d' = Inr (None, d'')\<close> \<open>dStream d'' = rest\<close>
  show ?thesis by (auto simp: tracks_def split: sum.splits)
qed

end

text \<open>Compress any raster that can be read by lines, and decode what comes out.\<close>

lemma newScoaStreambuf_ok:
  "ok raster \<Longrightarrow> 1 \<le> ls \<Longrightarrow> ls < 2 ^ 32 \<Longrightarrow> scoa_ok ok ls (newScoaStreambuf raster ls n)"
  by (simp add: newScoaStreambuf_def scoa_ok_def)

context raster_source
begin

lemma newScoaStreambuf_content:
  "scoa.stream_content (newScoaStreambuf raster lineSize n) =
    encode_lines n lineSize 0 [] (content raster)"
  by (simp add: scoa.stream_content_def newScoaStreambuf_def scoa_rest_def)

lemma compress_decode:
  assumes "ok raster" and "0 < n" and "0 < lineSize" and "Suc n * lineSize < 2 ^ 32"
    and "n * lineSize \<le> length (content raster)"
  shows "\<exists>d' d''. dec_read (area_ops (scoa_underflow io)) (n * lineSize)
      (newDecoder (newScoaStreambuf raster lineSize n) lineSize log) =
        Inr (take (n * lineSize) (content raster), d') \<and>
    dec_underflow (area_ops (scoa_underflow io)) d' = Inr (None, d'') \<and>
    scoa.stream_content (dStream d'') = []"
proof -
  have "lineSize < 2 ^ 32" using assms(4) by simp
  then have "scoa_ok ok lineSize (newScoaStreambuf raster lineSize n)"
    using assms by (intro newScoaStreambuf_ok) simp_all
  from scoa.decoder_restores [OF this _ assms(2-5), of "[]" "[]" log] show ?thesis
    using newScoaStreambuf_content by auto
qed

lemma compressed_read:
  assumes "ok raster" and "0 < lineSize" and "lineSize < 2 ^ 32"
  shows "delivers (scoa_ok ok lineSize) scoa.stream_content
    (sgetn (area_ops (scoa_underflow io)) k (newScoaStreambuf raster lineSize n))
    (take k (encode_lines n lineSize 0 [] (content raster)))
    (drop k (encode_lines n lineSize 0 [] (content raster)))"
proof -
  have "scoa_ok ok lineSize (newScoaStreambuf raster lineSize n)"
    using assms by (intro newScoaStreambuf_ok) simp_all
  from scoa.read [OF this, of k] show ?thesis by (simp add: newScoaStreambuf_content)
qed

end

subsection \<open>The size of a page\<close>

lemma encode_lines_length:
  "0 < ls \<Longrightarrow> ls < 2 ^ 32 \<Longrightarrow> vs = 0 \<or> length prev = ls \<Longrightarrow>
    length (encode_lines n ls vs prev raster) \<le> 2 * (n * ls) + 2"
proof (induction n arbitrary: vs prev raster)
  case (Suc n)
  show ?case
  proof (cases "length raster < ls")
    case False
    let ?ln = "take ls raster" and ?prev = "if vs = 0 then [] else prev"
    let ?code = "line_code ?prev ?ln"
    have "?ln \<noteq> []" "length ?ln = ls" "prev_fits ?prev ?ln"
      using Suc.prems False by (auto simp: prev_fits_def)
    then have "length ?code \<le> 2 * ls" using line_code_bounds(2) [of ?ln ?prev] Suc.prems(2) by simp
    moreover have "length (page_end (vs + length ?code)) \<le> 2" by (simp add: page_end_def)
    moreover have "length (encode_lines n ls (vs + length ?code) ?ln (drop ls raster)) \<le> 2 * (n * ls) + 2"
      using Suc.prems \<open>length ?ln = ls\<close> by (intro Suc.IH) simp_all
    ultimately show ?thesis using False by (simp add: Let_def)
  qed simp
qed simp

lemma encode_lines_even:
  "0 < ls \<Longrightarrow> ls < 2 ^ 32 \<Longrightarrow> vs = 0 \<or> length prev = ls \<Longrightarrow> 0 < n \<Longrightarrow> n * ls \<le> length raster \<Longrightarrow>
    even (vs + length (encode_lines n ls vs prev raster))"
proof (induction n arbitrary: vs prev raster)
  case (Suc n)
  let ?ln = "take ls raster" and ?prev = "if vs = 0 then [] else prev"
  let ?code = "line_code ?prev ?ln"
  have ln: "length ?ln = ls" "\<not> length raster < ls" using Suc.prems by simp_all
  show ?case
  proof (cases n)
    case 0
    then show ?thesis using ln by (simp add: Let_def page_end_cases)
  next
    case (Suc m)
    have "even ((vs + length ?code) + length (encode_lines n ls (vs + length ?code) ?ln (drop ls raster)))"
      using Suc.prems ln \<open>n = Suc m\<close> by (intro Suc.IH) simp_all
    then show ?thesis using ln \<open>n = Suc m\<close> by (simp add: Let_def add.assoc del: encode_lines.simps(2)) (simp add: Let_def add.assoc)
  qed
qed simp

lemma encode_lines_prefix:
  "length raster = n * ls \<Longrightarrow> encode_lines n ls vs prev (raster @ after) = encode_lines n ls vs prev raster"
proof (induction n arbitrary: vs prev raster)
  case (Suc n)
  then have "ls \<le> length raster" by simp
  with Suc show ?case by (simp add: Let_def)
qed simp

subsection \<open>A raster that ends early\<close>

lemma dec_fails_at_end:
  assumes "between_lines ls prev d" and "0 < ls" and "length (dBuffer d) + ls < 2 ^ 32"
    and "dStream d = []"
  shows "dec_underflow memory_ops d = Inl (DecoderFailure UnexpectedEOF)"
proof -
  have "decodeNext memory_ops d = Inl (DecoderFailure UnexpectedEOF)"
    using assms(4) by (simp add: decodeNext_def mustGet_def)
  then have "decodeLine memory_ops d = Inl (DecoderFailure UnexpectedEOF)"
    using assms by (simp add: decodeLine_def decodeLoop.simps [of memory_ops _ d] between_lines_def)
  then show ?thesis using assms(1) by (simp add: dec_underflow_def between_lines_def)
qed

lemma dec_reads_truncated:
  "between_lines ls prev d \<Longrightarrow> 0 < ls \<Longrightarrow> length (dBuffer d) + Suc m * ls < 2 ^ 32 \<Longrightarrow>
    m < n \<Longrightarrow> m * ls \<le> length raster \<Longrightarrow> length raster < Suc m * ls \<Longrightarrow>
    dStream d = encode_lines n ls (dVideoSize d) prev raster \<Longrightarrow>
    \<exists>d'. dec_read memory_ops (m * ls) d = Inr (take (m * ls) raster, d') \<and>
      dec_underflow memory_ops d' = Inl (DecoderFailure UnexpectedEOF)"
proof (induction m arbitrary: n d prev raster)
  case 0
  obtain k where "n = Suc k" using 0 by (cases n) auto
  with 0 have "dStream d = []" by simp
  with 0 dec_fails_at_end [of ls prev d] show ?case by simp
next
  case (Suc m)
  obtain k where k: "n = Suc (Suc k)" "m < Suc k" using Suc.prems(4) by (cases n; cases "n - 1") auto
  let ?ln = "take ls raster" and ?prev = "if dVideoSize d = 0 then [] else prev"
  let ?code = "line_code ?prev ?ln"
  let ?rest = "encode_lines (Suc k) ls (dVideoSize d + length ?code) ?ln (drop ls raster)"
  have ln: "length ?ln = ls" using Suc.prems by simp
  have small: "length (dBuffer d) + ls < 2 ^ 32" using Suc.prems by simp
  have stream: "dStream d = ?code @ ?rest"
    using Suc.prems(5,7) unfolding k by (simp add: Let_def)
  obtain d1 where d1: "dec_read memory_ops ls d = Inr (?ln, d1)" "between_lines ls ?ln d1"
    "dStream d1 = ?rest" "length (dBuffer d1) = length (dBuffer d) + ls"
    "dVideoSize d1 = dVideoSize d + length ?code"
    by (rule dec_reads_line [OF Suc.prems(1) ln Suc.prems(2) small stream])
  have "\<exists>d'. dec_read memory_ops (m * ls) d1 = Inr (take (m * ls) (drop ls raster), d') \<and>
      dec_underflow memory_ops d' = Inl (DecoderFailure UnexpectedEOF)"
    using Suc.prems d1 k(2) by (intro Suc.IH [of ?ln _ "Suc k"]) simp_all
  then obtain d' where "dec_read memory_ops (m * ls) d1 = Inr (take (m * ls) (drop ls raster), d')"
    "dec_underflow memory_ops d' = Inl (DecoderFailure UnexpectedEOF)" by blast
  moreover from this(1) have "dec_read memory_ops (ls + m * ls) d =
      Inr (?ln @ take (m * ls) (drop ls raster), d')"
    using xsgetn_add [OF d1(1) ln, of "m * ls"] by simp
  moreover have "?ln @ take (m * ls) (drop ls raster) = take (ls + m * ls) raster"
    by (simp only: take_add)
  ultimately show ?case by auto
qed

context byte_source
begin

lemma decoder_truncated:
  assumes "ok s" and "content s = encode_lines n ls 0 prev raster"
    and "0 < ls" and "Suc m * ls < 2 ^ 32" and "m < n"
    and "m * ls \<le> length raster" and "length raster < Suc m * ls"
  shows "\<exists>d'. dec_read io (m * ls) (newDecoder s ls log) = Inr (take (m * ls) raster, d') \<and>
    dec_underflow io d' = Inl (DecoderFailure UnexpectedEOF)"
proof -
  let ?d = "newDecoder s ls log"
  have "between_lines ls prev (dec_view content ?d)"
    "dStream (dec_view content ?d) = encode_lines n ls (dVideoSize (dec_view content ?d)) prev raster"
    "length (dBuffer (dec_view content ?d)) = 0"
    using assms(2) by (simp_all add: between_lines_def newDecoder_def)
  then obtain d' where d':
    "dec_read memory_ops (m * ls) (dec_view content ?d) = Inr (take (m * ls) raster, d')"
    "dec_underflow memory_ops d' = Inl (DecoderFailure UnexpectedEOF)"
    using dec_reads_truncated [of ls prev "dec_view content ?d" m n raster] assms by auto
  moreover have "tracks ok content (dec_read io (m * ls) ?d)
      (dec_read memory_ops (m * ls) (dec_view content ?d))"
    by (rule dec_read_tracks) (simp add: newDecoder_def assms)
  ultimately obtain d1 where d1: "dec_read io (m * ls) ?d = Inr (take (m * ls) raster, d1)"
    "ok (dStream d1)" "d' = dec_view content d1"
    by (auto simp: tracks_def split: sum.splits)
  with dec_underflow_tracks [OF d1(2)] d'(2) show ?thesis by (auto simp: tracks_def split: sum.splits)
qed

end

subsection \<open>Properties\<close>

text \<open>
C7. Decoding inverts compressing. The raster of a page with \<open>n\<close> lines of \<open>ls\<close> bytes is
read through a \<open>ScoaStreambuf\<close>, and this stream is read through a
\<open>DecoderStreambuf\<close>: the decoder delivers exactly the lines of the raster, then reports the
end of the page (so the video size is even and the end marker is in place), and the
compressed stream has been used up. The bound is the range of the decoder's
\<^verbatim>\<open>unsigned\<close> arithmetic.
\<close>

theorem scoa_roundtrip:
  assumes "0 < n" and "0 < ls" and "Suc n * ls < 2 ^ 32" and "n * ls \<le> length raster"
  shows "\<exists>d' d''.
    dec_read (area_ops (scoa_underflow memory_ops)) (n * ls)
      (newDecoder (newScoaStreambuf raster ls n) ls log) = Inr (take (n * ls) raster, d') \<and>
    dec_underflow (area_ops (scoa_underflow memory_ops)) d' = Inr (None, d'') \<and>
    memory_raster.scoa.stream_content (dStream d'') = []"
  using assms by (intro memory_raster.compress_decode) simp_all

theorem scoa_roundtrip_witness:
  "\<exists>d' d''.
    dec_read (area_ops (scoa_underflow memory_ops)) 8
      (newDecoder (newScoaStreambuf [1, 1, 1, 2, 1, 1, 1, 3, 9] 4 2) 4 None) =
        Inr ([1, 1, 1, 2, 1, 1, 1, 3], d') \<and>
    dec_underflow (area_ops (scoa_underflow memory_ops)) d' = Inr (None, d'') \<and>
    memory_raster.scoa.stream_content (dStream d'') = []"
  using scoa_roundtrip [of 2 4 "[1, 1, 1, 2, 1, 1, 1, 3, 9]" None] by simp

text \<open>
C32. A raster that ends early is noticed at the decoder. When the source has only \<open>m\<close> of the
\<open>n\<close> lines announced, the compressed stream ends without an end marker; a decoder
delivers the \<open>m\<close> whole lines and then throws \<open>unexpected EOF\<close>.
\<close>

theorem truncated_raster:
  assumes "0 < ls" and "Suc m * ls < 2 ^ 32" and "m < n"
    and "m * ls \<le> length raster" and "length raster < Suc m * ls"
  shows "\<exists>d'. dec_read (area_ops (scoa_underflow memory_ops)) (m * ls)
      (newDecoder (newScoaStreambuf raster ls n) ls log) = Inr (take (m * ls) raster, d') \<and>
    dec_underflow (area_ops (scoa_underflow memory_ops)) d' = Inl (DecoderFailure UnexpectedEOF)"
proof -
  have "scoa_ok (\<lambda>_. True) ls (newScoaStreambuf raster ls n)"
    using assms by (intro newScoaStreambuf_ok) simp_all
  from memory_raster.scoa.decoder_truncated [OF this _ assms, of "[]" log]
  show ?thesis using memory_raster.newScoaStreambuf_content [of raster ls n] by simp
qed

theorem truncated_raster_witness:
  "\<exists>d'. dec_read (area_ops (scoa_underflow memory_ops)) 4
      (newDecoder (newScoaStreambuf [1, 1, 1, 2, 1, 1] 4 2) 4 None) = Inr ([1, 1, 1, 2], d') \<and>
    dec_underflow (area_ops (scoa_underflow memory_ops)) d' = Inl (DecoderFailure UnexpectedEOF)"
  using truncated_raster [of 4 1 2 "[1, 1, 1, 2, 1, 1]" None] by simp

text \<open>
The decoder depends on the bytes only. Reading the next byte of a decoder over a
compressing stream gives the same result, the same failure and the same new state as
reading it over the bytes that stream will deliver.
\<close>

theorem decoder_sees_bytes:
  assumes "scoa_ok (\<lambda>_. True) ls (dStream d)"
  shows "tracks (scoa_ok (\<lambda>_. True) ls) memory_raster.scoa.stream_content
    (dec_underflow (area_ops (scoa_underflow memory_ops)) d)
    (dec_underflow memory_ops (dec_view memory_raster.scoa.stream_content d))"
  using assms by (rule memory_raster.scoa.dec_underflow_tracks)

theorem decoder_sees_bytes_witness:
  "tracks (scoa_ok (\<lambda>_. True) 2) memory_raster.scoa.stream_content
    (dec_underflow (area_ops (scoa_underflow memory_ops))
      (newDecoder (newScoaStreambuf [1, 2] 2 1) 2 None))
    (dec_underflow memory_ops (dec_view memory_raster.scoa.stream_content
      (newDecoder (newScoaStreambuf [1, 2] 2 1) 2 None)))"
  by (rule decoder_sees_bytes) (simp add: newDecoder_def newScoaStreambuf_def scoa_ok_def)



end
