(* ===== verification/Crop.thy ===== *)
theory Crop
  imports Stream_Buffer
begin

text \<open>
  Cropping a raster to the printable area: \<^verbatim>\<open>Utility/Crop.hpp\<close> and
  \<^verbatim>\<open>Utility/CropStreambuf.cpp\<close>.

  A \<open>crop_streambuf\<close> has no get area: it passes single bytes and blocks through from the
  raster it refers to, skips the bytes to the right of a cropped line when the line has been
  read, and the lines below the last one. After the last line of a page it goes on with the
  first line of the next page.

  \<open>crop_rest\<close> is the reference: the cropped bytes of a raster. The lemmas say that single
  bytes and line-sized blocks are delivered in this order, so that a
  \<open>ScoaStreambuf\<close> can read from it, and when a request for a block comes back short.
\<close>

subsection \<open>Sizes\<close>

definition CropLineSize1 :: "nat \<Rightarrow> nat" where
  "CropLineSize1 lsize = lsize - lsize mod 4"

definition CropLineSize :: "nat \<Rightarrow> nat \<Rightarrow> nat" where
  "CropLineSize lsize paperWidth = CropLineSize1 (min lsize (paperWidth div 8))"

definition CropLinesCount1 :: "nat \<Rightarrow> nat" where
  "CropLinesCount1 count = count - count mod 32"

definition CropLinesCount :: "nat \<Rightarrow> nat \<Rightarrow> nat" where
  "CropLinesCount count paperHeight = CropLinesCount1 (min count paperHeight)"

subsection \<open>The stream\<close>

record 's crop_streambuf =
  cRaster :: 's
  origLineSize :: nat
  origLines :: nat
  cropLineSize :: nat
  cropLines :: nat
  currentLine :: nat
  lineRead :: nat

definition newCropStreambuf :: "'s \<Rightarrow> nat \<Rightarrow> nat \<Rightarrow> nat \<Rightarrow> nat \<Rightarrow> 's crop_streambuf" where
  "newCropStreambuf raster ols ol cls cl =
    \<lparr>cRaster = raster, origLineSize = ols, origLines = ol, cropLineSize = cls, cropLines = cl,
     currentLine = 0, lineRead = 0\<rparr>"

text \<open>Subtraction of \<^verbatim>\<open>unsigned\<close> values wraps.\<close>

definition unsigned_sub :: "nat \<Rightarrow> nat \<Rightarrow> nat" where
  "unsigned_sub a b = to_unsigned (a + 2 ^ 32 - b)"

lemma unsigned_sub_id: "b \<le> a \<Longrightarrow> a < 2 ^ 32 \<Longrightarrow> unsigned_sub a b = a - b"
proof -
  assume "b \<le> a" "a < 2 ^ 32"
  then have "a + 2 ^ 32 - b = (a - b) + 2 ^ 32" "a - b < 2 ^ 32" by simp_all
  then show ?thesis unfolding unsigned_sub_def to_unsigned_def by (simp only: mod_add_self2 mod_less)
qed

text \<open>
  \<^verbatim>\<open>discard\<close> counts the byte it asks for before it looks whether there was
  one, so at the end of the stream it returns one more than it skipped.
\<close>

fun discard :: "'s streambuf_ops \<Rightarrow> nat \<Rightarrow> 's \<Rightarrow> fault + (nat \<times> 's)" where
  "discard io 0 s = Inr (0, s)"
| "discard io (Suc n) s = bindR (sbumpc io s) (\<lambda>(c, s').
    case c of None \<Rightarrow> Inr (1, s')
    | Some _ \<Rightarrow> bindR (discard io n s') (\<lambda>(r, s''). Inr (Suc r, s'')))"

text \<open>
  The loop runs while \<^verbatim>\<open>currentLine != origLines\<close>; the assertion before
  it makes this the same as less than.
\<close>

function discardLinesLoop :: "'s streambuf_ops \<Rightarrow> 's crop_streambuf \<Rightarrow> fault + 's crop_streambuf" where
  "discardLinesLoop io b =
    (if currentLine b < origLines b then
       (case discard io (origLineSize b) (cRaster b) of
          Inl e \<Rightarrow> Inl e
        | Inr (r, s) \<Rightarrow>
            if r = 0 then Inr (b\<lparr>cRaster := s\<rparr>)
            else discardLinesLoop io (b\<lparr>cRaster := s, currentLine := currentLine b + 1\<rparr>))
     else Inr b)"
  by pat_completeness auto
termination
  by (relation "measure (\<lambda>(io, b). origLines b - currentLine b)") auto

declare discardLinesLoop.simps [simp del]

definition discardLines :: "'s streambuf_ops \<Rightarrow> 's crop_streambuf \<Rightarrow> fault + 's crop_streambuf" where
  "discardLines io b = assertR (currentLine b \<le> origLines b)
    (bindR (discardLinesLoop io b) (\<lambda>b. Inr (b\<lparr>currentLine := 0\<rparr>)))"

definition crop_endLine :: "'s streambuf_ops \<Rightarrow> 's crop_streambuf \<Rightarrow> fault + 's crop_streambuf" where
  "crop_endLine io b =
    bindR (discard io (unsigned_sub (origLineSize b) (cropLineSize b)) (cRaster b)) (\<lambda>(_, s).
      let b1 = b\<lparr>cRaster := s, lineRead := 0, currentLine := to_unsigned (currentLine b + 1)\<rparr>
      in if currentLine b1 = cropLines b1 then discardLines io b1 else Inr b1)"

definition crop_underflow ::
  "'s streambuf_ops \<Rightarrow> 's crop_streambuf \<Rightarrow> fault + (byte option \<times> 's crop_streambuf)" where
  "crop_underflow io b = assertR (lineRead b < cropLineSize b)
    (bindR (sgetc io (cRaster b)) (\<lambda>(c, s). Inr (c, b\<lparr>cRaster := s\<rparr>)))"

text \<open>
  \<^verbatim>\<open>xsgetn\<close> calls itself for the blocks of a request that is longer than a
  line; such a call asks for exactly one line, so of its own body only the part after the
  loop runs: \<open>crop_block\<close>.
\<close>

definition crop_block ::
  "'s streambuf_ops \<Rightarrow> nat \<Rightarrow> 's crop_streambuf \<Rightarrow> fault + (byte list \<times> 's crop_streambuf)" where
  "crop_block io n b =
    (let count = min (to_unsigned n) (unsigned_sub (cropLineSize b) (lineRead b))
     in bindR (sgetn io count (cRaster b)) (\<lambda>(bs, s).
          let b1 = b\<lparr>cRaster := s, lineRead := to_unsigned (lineRead b + length bs)\<rparr>
          in assertR (lineRead b1 \<le> cropLineSize b1)
               (if lineRead b1 = cropLineSize b1
                then bindR (crop_endLine io b1) (\<lambda>b2. Inr (bs, b2))
                else Inr (bs, b1))))"

function crop_xsgetn ::
  "'s streambuf_ops \<Rightarrow> nat \<Rightarrow> 's crop_streambuf \<Rightarrow> fault + (byte list \<times> 's crop_streambuf)" where
  "crop_xsgetn io n b =
    (if n = 0 then Inr ([], b)
     else if to_unsigned n > cropLineSize b then
       (case (if cropLineSize b = 0 then Inr ([], b) else crop_block io (cropLineSize b) b) of
          Inl e \<Rightarrow> Inl e
        | Inr (bs, b1) \<Rightarrow>
            if bs = [] then Inr ([], b1)
            else bindR (crop_xsgetn io (n - length bs) b1) (\<lambda>(cs, b2). Inr (bs @ cs, b2)))
     else crop_block io n b)"
  by pat_completeness auto
termination
  by (relation "measure (\<lambda>(io, n, b). n)") auto

declare crop_xsgetn.simps [simp del]

definition crop_uflow ::
  "'s streambuf_ops \<Rightarrow> 's crop_streambuf \<Rightarrow> fault + (byte option \<times> 's crop_streambuf)" where
  "crop_uflow io b = bindR (crop_xsgetn io 1 b) (\<lambda>(bs, b1).
    case bs of [] \<Rightarrow> Inr (None, b1) | c # _ \<Rightarrow> Inr (Some c, b1))"

definition crop_ops :: "'s streambuf_ops \<Rightarrow> 's crop_streambuf streambuf_ops" where
  "crop_ops io = \<lparr>sgetc = crop_underflow io, sbumpc = crop_uflow io, sgetn = crop_xsgetn io\<rparr>"

subsection \<open>The reference\<close>

text \<open>
  The cropped bytes of \<open>raster\<close>, which continues at byte \<open>lr\<close> of line \<open>cur\<close> of a
  page of \<open>ol\<close> lines of \<open>ols\<close> bytes, \<open>cl\<close> lines of \<open>cls\<close> bytes of which are kept.
\<close>

definition crop_skip :: "nat \<Rightarrow> nat \<Rightarrow> nat \<Rightarrow> nat \<Rightarrow> nat \<Rightarrow> nat" where
  "crop_skip ols ol cl cur lr = ols - lr + (if Suc cur = cl then ols * (ol - cl) else 0)"

lemma crop_skip_pos: "lr < ols \<Longrightarrow> 0 < crop_skip ols ol cl cur lr"
  by (simp add: crop_skip_def)

function crop_rest :: "nat \<Rightarrow> nat \<Rightarrow> nat \<Rightarrow> nat \<Rightarrow> nat \<Rightarrow> nat \<Rightarrow> byte list \<Rightarrow> byte list" where
  "crop_rest ols ol cls cl cur lr raster =
    (if raster = [] \<or> ols \<le> lr then []
     else take (cls - lr) raster @
       crop_rest ols ol cls cl (if Suc cur = cl then 0 else Suc cur) 0
         (drop (crop_skip ols ol cl cur lr) raster))"
  by pat_completeness auto
termination
  by (relation "measure (\<lambda>(ols, ol, cls, cl, cur, lr, raster). length raster)") (auto simp: crop_skip_pos)

declare crop_rest.simps [simp del]

definition crop_ok :: "('s \<Rightarrow> bool) \<Rightarrow> nat \<Rightarrow> 's crop_streambuf \<Rightarrow> bool" where
  "crop_ok ok cls b \<longleftrightarrow>
    ok (cRaster b) \<and> cropLineSize b = cls \<and> 1 \<le> cls \<and> cls \<le> origLineSize b \<and>
    origLineSize b < 2 ^ 32 \<and> 1 \<le> cropLines b \<and> cropLines b \<le> origLines b \<and>
    origLines b < 2 ^ 32 \<and> currentLine b < cropLines b \<and> lineRead b < cls"

definition crop_content :: "('s \<Rightarrow> byte list) \<Rightarrow> 's crop_streambuf \<Rightarrow> byte list" where
  "crop_content content b =
    crop_rest (origLineSize b) (origLines b) (cropLineSize b) (cropLines b) (currentLine b)
      (lineRead b) (content (cRaster b))"

lemma crop_rest_nil [simp]: "crop_rest ols ol cls cl cur lr [] = []"
  by (simp add: crop_rest.simps)

context byte_source
begin

lemma discard_delivers:
  "ok s \<Longrightarrow> \<exists>r s'. discard io n s = Inr (r, s') \<and> ok s' \<and> content s' = drop n (content s) \<and>
    (0 < n \<longrightarrow> 0 < r)"
proof (induction n arbitrary: s)
  case (Suc n)
  obtain s' where s': "sbumpc io s = Inr (hd_opt (content s), s')" "ok s'" "content s' = tl (content s)"
    using bump [OF Suc.prems] by (rule deliversE)
  show ?case
  proof (cases "content s")
    case Nil
    with s' show ?thesis by simp
  next
    case (Cons c cs)
    with Suc.IH [OF s'(2)] s' show ?thesis by fastforce
  qed
qed simp

lemma discardLinesLoop_delivers:
  "ok (cRaster b) \<Longrightarrow> 0 < origLineSize b \<Longrightarrow> currentLine b \<le> origLines b \<Longrightarrow>
    \<exists>s'. discardLinesLoop io b = Inr (b\<lparr>cRaster := s', currentLine := origLines b\<rparr>) \<and> ok s' \<and>
      content s' = drop (origLineSize b * (origLines b - currentLine b)) (content (cRaster b))"
proof (induction "origLines b - currentLine b" arbitrary: b)
  case 0
  then have "currentLine b = origLines b" by simp
  with 0 show ?case by (intro exI [of _ "cRaster b"]) (simp add: discardLinesLoop.simps [of io b])
next
  case (Suc k)
  obtain r s1 where s1: "discard io (origLineSize b) (cRaster b) = Inr (r, s1)" "ok s1"
    "content s1 = drop (origLineSize b) (content (cRaster b))" "0 < r"
    using discard_delivers [OF Suc.prems(1), of "origLineSize b"] Suc.prems(2) by auto
  let ?b = "b\<lparr>cRaster := s1, currentLine := currentLine b + 1\<rparr>"
  have "\<exists>s'. discardLinesLoop io ?b = Inr (?b\<lparr>cRaster := s', currentLine := origLines ?b\<rparr>) \<and> ok s' \<and>
      content s' = drop (origLineSize ?b * (origLines ?b - currentLine ?b)) (content (cRaster ?b))"
    using Suc.hyps(2) Suc.prems s1 by (intro Suc.hyps(1)) simp_all
  moreover have "k = origLines b - Suc (currentLine b)" using Suc.hyps(2) by simp
  ultimately obtain s' where s': "discardLinesLoop io ?b = Inr (b\<lparr>cRaster := s', currentLine := origLines b\<rparr>)"
    "ok s'" "content s' = drop (origLineSize b * k + origLineSize b) (content (cRaster b))"
    using s1(3) by (auto simp: add.commute)
  have "currentLine b < origLines b" using Suc.hyps(2) by simp
  with s1 s' Suc.hyps(2) [symmetric] show ?case
    by (intro exI [of _ s']) (simp add: discardLinesLoop.simps [of io b] add.commute)
qed

end

subsection \<open>A block within one line\<close>

lemma crop_rest_split:
  assumes "n \<le> cls - lr" and "lr + n < cls" and "cls \<le> ols"
  shows "crop_rest ols ol cls cl cur (lr + n) (drop n raster) =
    drop n (crop_rest ols ol cls cl cur lr raster)"
    and "take n (crop_rest ols ol cls cl cur lr raster) = take n raster"
proof -
  have skip: "crop_skip ols ol cl cur (lr + n) + n = crop_skip ols ol cl cur lr"
    using assms by (simp add: crop_skip_def)
  have "\<not> n \<le> length raster \<Longrightarrow> length raster \<le> crop_skip ols ol cl cur lr" using skip by auto
  then show "take n (crop_rest ols ol cls cl cur lr raster) = take n raster"
    using assms by (cases "raster = []"; cases "n \<le> length raster")
      (simp_all add: crop_rest.simps [of ols ol cls cl cur lr raster] min_absorb1)
  show "crop_rest ols ol cls cl cur (lr + n) (drop n raster) =
    drop n (crop_rest ols ol cls cl cur lr raster)"
  proof (cases "length raster \<le> n")
    case True
    then have "drop (crop_skip ols ol cl cur lr) raster = []" using skip by simp
    with True assms show ?thesis
      by (simp add: crop_rest.simps [of ols ol cls cl cur lr raster])
  next
    case False
    then have "drop n raster \<noteq> []" "raster \<noteq> []" by auto
    moreover have "drop n (take (cls - lr) raster) = take (cls - (lr + n)) (drop n raster)"
      by (simp add: drop_take)
    ultimately show ?thesis
      using assms False
      by (simp add: crop_rest.simps [of ols ol cls cl cur lr raster]
          crop_rest.simps [of ols ol cls cl cur "lr + n" "drop n raster"] skip min_def)
  qed
qed

lemma crop_rest_line:
  assumes "lr < cls" and "cls \<le> ols"
  shows "crop_rest ols ol cls cl (if Suc cur = cl then 0 else Suc cur) 0
      (drop (crop_skip ols ol cl cur lr) raster) = drop (cls - lr) (crop_rest ols ol cls cl cur lr raster)"
    and "take (cls - lr) (crop_rest ols ol cls cl cur lr raster) = take (cls - lr) raster"
proof -
  have skip: "cls - lr \<le> crop_skip ols ol cl cur lr" using assms by (simp add: crop_skip_def)
  show "take (cls - lr) (crop_rest ols ol cls cl cur lr raster) = take (cls - lr) raster"
  proof (cases "length raster < cls - lr")
    case True
    then have "drop (crop_skip ols ol cl cur lr) raster = []" using skip by simp
    then show ?thesis using assms by (simp add: crop_rest.simps [of ols ol cls cl cur lr raster])
  qed (use assms in \<open>simp add: crop_rest.simps [of ols ol cls cl cur lr raster]\<close>)
  show "crop_rest ols ol cls cl (if Suc cur = cl then 0 else Suc cur) 0
      (drop (crop_skip ols ol cl cur lr) raster) = drop (cls - lr) (crop_rest ols ol cls cl cur lr raster)"
  proof (cases "length raster < cls - lr")
    case True
    then have "drop (crop_skip ols ol cl cur lr) raster = []" using skip by simp
    with True show ?thesis using assms by (simp add: crop_rest.simps [of ols ol cls cl cur lr raster])
  next
    case False
    with assms show ?thesis
      by (cases "raster = []") (simp_all add: crop_rest.simps [of ols ol cls cl cur lr raster])
  qed
qed

context byte_source
begin

lemma crop_endLine_delivers:
  assumes "crop_ok ok cls b" and "ok s" and "content s = drop (cls - lineRead b) (content (cRaster b))"
  shows "\<exists>b'. crop_endLine io (b\<lparr>cRaster := s, lineRead := cls\<rparr>) = Inr b' \<and> crop_ok ok cls b' \<and>
    lineRead b' = 0 \<and> crop_content content b' = drop (cls - lineRead b) (crop_content content b) \<and>
    (content (cRaster b) = [] \<longrightarrow> content (cRaster b') = [])"
proof -
  let ?ols = "origLineSize b" and ?raster = "content (cRaster b)"
  have b: "cropLineSize b = cls" "1 \<le> cls" "cls \<le> ?ols" "?ols < 2 ^ 32" "1 \<le> cropLines b"
    "cropLines b \<le> origLines b" "origLines b < 2 ^ 32" "currentLine b < cropLines b" "lineRead b < cls"
    using assms(1) by (simp_all add: crop_ok_def)
  have next_line: "to_unsigned (currentLine b + 1) = Suc (currentLine b)"
    using b by (simp add: to_unsigned_def)
  have right: "unsigned_sub ?ols cls = ?ols - cls" using b by (simp add: unsigned_sub_id)
  obtain r s1 where s1: "discard io (?ols - cls) s = Inr (r, s1)" "ok s1"
    "content s1 = drop (?ols - lineRead b) ?raster"
    using discard_delivers [OF assms(2), of "?ols - cls"] assms(3) b by (auto simp: add.commute)
  let ?b1 = "b\<lparr>cRaster := s1, lineRead := 0, currentLine := Suc (currentLine b)\<rparr>"
  show ?thesis
  proof (cases "Suc (currentLine b) = cropLines b")
    case False
    have "crop_endLine io (b\<lparr>cRaster := s, lineRead := cls\<rparr>) = Inr ?b1"
      using s1(1) b right next_line False by (simp add: crop_endLine_def)
    moreover have "crop_ok ok cls ?b1" using b s1 False by (simp add: crop_ok_def)
    moreover have "crop_content content ?b1 = drop (cls - lineRead b) (crop_content content b)"
      using crop_rest_line(1) [OF b(9,3), of "origLines b" "cropLines b" "currentLine b" ?raster] False s1 b(1)
      by (simp add: crop_content_def crop_skip_def)
    ultimately show ?thesis using s1(3) by auto
  next
    case True
    obtain s2 where s2: "discardLinesLoop io ?b1 = Inr (?b1\<lparr>cRaster := s2, currentLine := origLines b\<rparr>)"
      "ok s2" "content s2 = drop (?ols * (origLines b - cropLines b)) (content s1)"
      using discardLinesLoop_delivers [of ?b1] s1 b True by auto
    let ?b2 = "b\<lparr>cRaster := s2, lineRead := 0, currentLine := 0\<rparr>"
    have "crop_endLine io (b\<lparr>cRaster := s, lineRead := cls\<rparr>) = Inr ?b2"
      using s1(1) s2(1) b right next_line True by (simp add: crop_endLine_def discardLines_def)
    moreover have "crop_ok ok cls ?b2" using b s2 by (simp add: crop_ok_def)
    moreover have "content s2 = drop (crop_skip ?ols (origLines b) (cropLines b) (currentLine b) (lineRead b)) ?raster"
      using s1(3) s2(3) True by (simp add: crop_skip_def add.commute)
    then have "crop_content content ?b2 = drop (cls - lineRead b) (crop_content content b)"
      using crop_rest_line(1) [OF b(9,3), of "origLines b" "cropLines b" "currentLine b" ?raster] True b(1)
      by (simp add: crop_content_def)
    ultimately show ?thesis using s1(3) s2(3) by auto
  qed
qed

lemma crop_block_delivers:
  assumes "crop_ok ok cls b" and "n < 2 ^ 32" and m: "m = min n (cls - lineRead b)"
  shows "\<exists>b'. crop_block io n b = Inr (take m (crop_content content b), b') \<and> crop_ok ok cls b' \<and>
    crop_content content b' = drop m (crop_content content b) \<and>
    (content (cRaster b) = [] \<longrightarrow> content (cRaster b') = []) \<and>
    (lineRead b' = 0 \<or> content (cRaster b') = [] \<or> lineRead b' = lineRead b + m)"
proof -
  let ?ols = "origLineSize b" and ?raster = "content (cRaster b)"
  have b: "cropLineSize b = cls" "cls \<le> ?ols" "?ols < 2 ^ 32" "lineRead b < cls" "ok (cRaster b)"
    using assms(1) by (simp_all add: crop_ok_def)
  have count: "min (to_unsigned n) (unsigned_sub cls (lineRead b)) = m"
    using assms(2) b m by (simp add: unsigned_sub_id)
  obtain s where s: "sgetn io m (cRaster b) = Inr (take m ?raster, s)" "ok s" "content s = drop m ?raster"
    using read [OF b(5)] by (rule deliversE)
  let ?lr = "lineRead b + min (length ?raster) m"
  have lr: "to_unsigned (lineRead b + length (take m ?raster)) = ?lr" "?lr \<le> cls"
    using b m by (auto simp: to_unsigned_def)
  let ?b1 = "b\<lparr>cRaster := s, lineRead := ?lr\<rparr>"
  have "to_unsigned cls = cls" using b by (simp add: to_unsigned_def)
  then have block: "crop_block io n b =
      (if ?lr = cls then bindR (crop_endLine io ?b1) (\<lambda>b2. Inr (take m ?raster, b2))
       else Inr (take m ?raster, ?b1))"
    using count s(1) lr b(1) by (simp add: crop_block_def Let_def)
  show ?thesis
  proof (cases "?lr = cls")
    case True
    then have m': "m = cls - lineRead b" using b m by (auto simp: min_def split: if_splits)
    then have take_m: "take m (crop_content content b) = take m ?raster"
      using crop_rest_line(2) [OF b(4,2)] b(1) by (simp add: crop_content_def)
    obtain b' where "crop_endLine io (b\<lparr>cRaster := s, lineRead := cls\<rparr>) = Inr b'" "crop_ok ok cls b'"
      "lineRead b' = 0" "crop_content content b' = drop m (crop_content content b)"
      "?raster = [] \<longrightarrow> content (cRaster b') = []"
      using crop_endLine_delivers [OF assms(1) s(2)] s(3) m' by auto
    then show ?thesis using block True take_m by simp
  next
    case False
    have ok1: "crop_ok ok cls ?b1" using assms(1) s(2) lr(2) False by (auto simp: crop_ok_def)
    show ?thesis
    proof (cases "m \<le> length ?raster")
      case True
      then have "?lr = lineRead b + m" "lineRead b + m < cls" "m \<le> cls - lineRead b"
        using False lr(2) m by auto
      then show ?thesis
        using block ok1 s(3) b(1) crop_rest_split [of m cls "lineRead b" ?ols, OF _ _ b(2)]
        by (simp add: crop_content_def)
    next
      case short: False
      let ?n = "length ?raster"
      have n: "?lr = lineRead b + ?n" "lineRead b + ?n < cls" "?n \<le> cls - lineRead b"
        using short False lr(2) m by (auto simp: min_def split: if_splits)
      have empty: "content s = []" using s(3) short by simp
      have drop_n: "drop ?n (crop_content content b) = []"
        using crop_rest_split(1) [OF n(3,2) b(2), of "origLines b" "cropLines b" "currentLine b" ?raster] b(1)
        by (simp add: crop_content_def)
      moreover have "take ?n (crop_content content b) = ?raster"
        using crop_rest_split(2) [OF n(3,2) b(2), of "origLines b" "cropLines b" "currentLine b" ?raster] b(1)
        by (simp add: crop_content_def)
      ultimately have "crop_content content b = ?raster" by (metis append_take_drop_id append.right_neutral)
      then show ?thesis using block ok1 empty n short False by (simp add: crop_content_def)
    qed
  qed
qed

subsection \<open>Requests of any size\<close>

text \<open>
  A request is served in full when it stays within the current line or is longer than a
  line; in between it comes back short at the end of the line.
\<close>

lemma crop_xsgetn_block:
  "0 < n \<Longrightarrow> n \<le> cropLineSize b \<Longrightarrow> cropLineSize b < 2 ^ 32 \<Longrightarrow> crop_xsgetn io n b = crop_block io n b"
  by (simp add: crop_xsgetn.simps [of io n b])

lemma crop_xsgetn_delivers:
  "crop_ok ok cls b \<Longrightarrow> n < 2 ^ 32 \<Longrightarrow> cls < n \<or> lineRead b + n \<le> cls \<or> content (cRaster b) = [] \<Longrightarrow>
    delivers (crop_ok ok cls) (crop_content content) (crop_xsgetn io n b)
      (take n (crop_content content b)) (drop n (crop_content content b))"
proof (induction n arbitrary: b rule: less_induct)
  case (less n)
  have b: "cropLineSize b = cls" "1 \<le> cls" "cls < 2 ^ 32" "lineRead b < cls"
    using less.prems(1) by (auto simp: crop_ok_def)
  show ?case
  proof (cases "cls < n")
    case False
    show ?thesis
    proof (cases "n = 0")
      case True
      then show ?thesis using less.prems(1) by (simp add: crop_xsgetn.simps [of io 0 b] deliversI)
    next
      case pos: False
      let ?m = "min n (cls - lineRead b)"
      obtain b' where b': "crop_block io n b = Inr (take ?m (crop_content content b), b')"
        "crop_ok ok cls b'" "crop_content content b' = drop ?m (crop_content content b)"
        using crop_block_delivers [OF less.prems(1,2) refl] by blast
      have "?m = n \<or> crop_content content b = []"
        using less.prems(3) False by (auto simp: crop_content_def)
      then show ?thesis
        using b' False pos b by (auto simp: crop_xsgetn_block delivers_def)
    qed
  next
    case True
    let ?m = "min cls (cls - lineRead b)"
    obtain b1 where b1: "crop_block io cls b = Inr (take ?m (crop_content content b), b1)"
      "crop_ok ok cls b1" "crop_content content b1 = drop ?m (crop_content content b)"
      "content (cRaster b) = [] \<longrightarrow> content (cRaster b1) = []"
      "lineRead b1 = 0 \<or> content (cRaster b1) = [] \<or> lineRead b1 = lineRead b + ?m"
      using crop_block_delivers [OF less.prems(1) b(3) refl] by blast
    have aligned: "lineRead b1 = 0 \<or> content (cRaster b1) = []"
      using b1(2,5) b(4) by (auto simp: crop_ok_def)
    have unfold: "crop_xsgetn io n b =
        (if take ?m (crop_content content b) = [] then Inr ([], b1)
         else bindR (crop_xsgetn io (n - length (take ?m (crop_content content b))) b1)
           (\<lambda>(cs, b2). Inr (take ?m (crop_content content b) @ cs, b2)))"
      using True b less.prems(2) b1(1) by (simp add: crop_xsgetn.simps [of io n b])
    show ?thesis
    proof (cases "crop_content content b = []")
      case True
      then show ?thesis using unfold b1 by (simp add: deliversI)
    next
      case ne: False
      define k where "k = length (take ?m (crop_content content b))"
      have k: "0 < k" "k \<le> ?m" "k \<le> cls" using ne b by (auto simp: k_def)
      have len: "min (length (crop_content content b)) k = k" by (simp add: k_def)
      have eq: "take ?m (crop_content content b) = take k (crop_content content b)"
        "drop ?m (crop_content content b) = drop k (crop_content content b)"
        by (auto simp: k_def min_def)
      have "n - k < n" using k True by simp
      moreover have "n - k < 2 ^ 32" using less.prems(2) by simp
      moreover have "cls < n - k \<or> lineRead b1 + (n - k) \<le> cls \<or> content (cRaster b1) = []"
        using aligned by auto
      ultimately have "delivers (crop_ok ok cls) (crop_content content) (crop_xsgetn io (n - k) b1)
          (take (n - k) (crop_content content b1)) (drop (n - k) (crop_content content b1))"
        using b1(2) by (intro less.IH)
      then obtain b2 where b2: "crop_xsgetn io (n - k) b1 = Inr (take (n - k) (drop k (crop_content content b)), b2)"
        "crop_ok ok cls b2" "crop_content content b2 = drop (n - k) (drop k (crop_content content b))"
        unfolding b1(3) eq(2) by (rule deliversE)
      have "crop_xsgetn io n b =
          Inr (take k (crop_content content b) @ take (n - k) (drop k (crop_content content b)), b2)"
        using unfold b2(1) ne k(1) b len unfolding k_def [symmetric] eq(1) by auto
      moreover have "take k (crop_content content b) @ take (n - k) (drop k (crop_content content b)) =
          take n (crop_content content b)"
        using take_add [of k "n - k" "crop_content content b"] k True by simp
      ultimately show ?thesis using b2 k True by (simp add: deliversI)
    qed
  qed
qed

lemma crop_short:
  assumes "crop_ok ok cls b" and "n \<le> cls" and "cls - lineRead b < n"
  shows "delivers (crop_ok ok cls) (crop_content content) (crop_xsgetn io n b)
    (take (cls - lineRead b) (crop_content content b)) (drop (cls - lineRead b) (crop_content content b))"
proof -
  have b: "cropLineSize b = cls" "cls < 2 ^ 32" "0 < n" using assms by (auto simp: crop_ok_def)
  then have "n < 2 ^ 32" using assms(2) by simp
  from crop_block_delivers [OF assms(1) this refl] show ?thesis
    using assms b by (auto simp: crop_xsgetn_block delivers_def)
qed

lemma crop_uflow_delivers:
  assumes "crop_ok ok cls b"
  shows "delivers (crop_ok ok cls) (crop_content content) (crop_uflow io b)
    (hd_opt (crop_content content b)) (tl (crop_content content b))"
proof -
  have "cls < 1 \<or> lineRead b + 1 \<le> cls \<or> content (cRaster b) = []"
    using assms by (auto simp: crop_ok_def)
  then obtain b' where "crop_xsgetn io 1 b = Inr (take 1 (crop_content content b), b')"
    "crop_ok ok cls b'" "crop_content content b' = drop 1 (crop_content content b)"
    using crop_xsgetn_delivers [OF assms, of 1] by (auto elim: deliversE)
  then show ?thesis
    by (cases "crop_content content b") (simp_all add: crop_uflow_def deliversI)
qed

lemma crop_underflow_delivers:
  assumes "crop_ok ok cls b"
  shows "delivers (crop_ok ok cls) (crop_content content) (crop_underflow io b)
    (hd_opt (crop_content content b)) (crop_content content b)"
proof -
  have b: "ok (cRaster b)" "lineRead b < cls" "cropLineSize b = cls" "cls \<le> origLineSize b"
    using assms by (auto simp: crop_ok_def)
  obtain s where s: "sgetc io (cRaster b) = Inr (hd_opt (content (cRaster b)), s)" "ok s"
    "content s = content (cRaster b)"
    using peek [OF b(1)] by (rule deliversE)
  have "hd_opt (crop_content content b) = hd_opt (content (cRaster b))"
    using b by (cases "content (cRaster b)")
      (auto simp: crop_content_def crop_rest.simps [of _ _ _ _ _ _ "c # cs" for c cs] take_Cons split: nat.splits)
  then show ?thesis
    using s b assms by (simp add: crop_underflow_def delivers_def crop_ok_def crop_content_def)
qed

end

text \<open>
  The states in which the stream stands at the start of a line, or its raster has ended:
  a reader of whole lines only meets these. \<open>line_reader\<close> is that reader's view.
\<close>

definition crop_line_ok :: "('s \<Rightarrow> bool) \<Rightarrow> ('s \<Rightarrow> byte list) \<Rightarrow> nat \<Rightarrow> 's crop_streambuf \<Rightarrow> bool" where
  "crop_line_ok ok content cls b \<longleftrightarrow>
    crop_ok ok cls b \<and> (lineRead b = 0 \<or> content (cRaster b) = [])"

locale cropped_source = byte_source io ok content for io :: "'s streambuf_ops" and ok content

sublocale cropped_source \<subseteq> crop: line_source "crop_ops io" "crop_line_ok ok content cls"
  "crop_content content" cls for cls
proof unfold_locales
  fix b assume b: "crop_line_ok ok content cls b"
  then have ok: "crop_ok ok cls b" and at: "lineRead b = 0 \<or> content (cRaster b) = []"
    by (simp_all add: crop_line_ok_def)
  have cls: "cropLineSize b = cls" "0 < cls" "cls < 2 ^ 32" "lineRead b < cls"
    using ok by (auto simp: crop_ok_def)
  obtain b' where b': "crop_block io cls b = Inr (take (cls - lineRead b) (crop_content content b), b')"
    "crop_ok ok cls b'" "crop_content content b' = drop (cls - lineRead b) (crop_content content b)"
    "content (cRaster b) = [] \<longrightarrow> content (cRaster b') = []"
    "lineRead b' = 0 \<or> content (cRaster b') = [] \<or> lineRead b' = cls"
    using crop_block_delivers [OF ok cls(3) refl] cls by auto
  have "lineRead b' < cls" using b'(2) by (simp add: crop_ok_def)
  then have "crop_line_ok ok content cls b'" using b' by (auto simp: crop_line_ok_def)
  moreover have "lineRead b \<noteq> 0 \<Longrightarrow> crop_content content b = []"
    using at by (simp add: crop_content_def)
  ultimately show "delivers (crop_line_ok ok content cls) (crop_content content)
      (sgetn (crop_ops io) cls b) (take cls (crop_content content b)) (drop cls (crop_content content b))"
    using b' cls by (cases "lineRead b = 0") (simp_all add: crop_ops_def crop_xsgetn_block delivers_def)
qed

interpretation memory_crop: cropped_source memory_ops "\<lambda>_. True" "\<lambda>s. s" ..

subsection \<open>Whole pages\<close>

definition crop_page :: "nat \<Rightarrow> nat \<Rightarrow> nat \<Rightarrow> byte list \<Rightarrow> byte list" where
  "crop_page ols cls cl raster = concat (map (\<lambda>k. take cls (drop (k * ols) raster)) [0..<cl])"

lemma crop_page_Suc:
  "crop_page ols cls (Suc n) raster = take cls raster @ crop_page ols cls n (drop ols raster)"
proof -
  have "[0..<Suc n] = 0 # map Suc [0..<n]" by (simp only: upt_conv_Cons map_Suc_upt zero_less_Suc)
  then show ?thesis by (simp add: crop_page_def comp_def add.commute del: upt_Suc)
qed

lemma crop_rest_page:
  "cur < cl \<Longrightarrow> cl \<le> ol \<Longrightarrow> 0 < cls \<Longrightarrow> cls \<le> ols \<Longrightarrow> (ol - cur) * ols \<le> length raster \<Longrightarrow>
    crop_rest ols ol cls cl cur 0 raster =
      crop_page ols cls (cl - cur) raster @
      crop_rest ols ol cls cl 0 0 (drop ((ol - cur) * ols) raster)"
proof (induction "cl - cur" arbitrary: cur raster)
  case (Suc m)
  have "0 < (ol - cur) * ols" using Suc.prems by simp
  then have ne: "raster \<noteq> []" using Suc.prems(5) by auto
  show ?case
  proof (cases "Suc cur = cl")
    case True
    have "ols + ols * (ol - cl) = (ol - cur) * ols"
    proof -
      have "ol - cur = Suc (ol - cl)" using True Suc.prems by simp
      then show ?thesis by (simp add: mult.commute)
    qed
    moreover have "cl - cur = Suc 0" using True by simp
    ultimately show ?thesis
      using ne True Suc.prems
      by (simp add: crop_rest.simps [of ols ol cls cl cur 0 raster] crop_skip_def crop_page_def)
  next
    case False
    have k: "cl - cur = Suc (cl - Suc cur)" "ol - cur = Suc (ol - Suc cur)"
      using Suc.hyps(2) Suc.prems by simp_all
    have "crop_rest ols ol cls cl (Suc cur) 0 (drop ols raster) =
      crop_page ols cls (cl - Suc cur) (drop ols raster) @
      crop_rest ols ol cls cl 0 0 (drop ((ol - Suc cur) * ols) (drop ols raster))"
      using Suc.hyps(2) Suc.prems False k(2) by (intro Suc.hyps(1)) simp_all
    then show ?thesis
      using ne False Suc.prems unfolding k crop_page_Suc
      by (simp add: crop_rest.simps [of ols ol cls cl cur 0 raster] crop_skip_def add.commute)
  qed
qed simp

lemma length_crop_page:
  "cl * ols \<le> length raster \<Longrightarrow> cls \<le> ols \<Longrightarrow> length (crop_page ols cls cl raster) = cl * cls"
proof (induction cl arbitrary: raster)
  case (Suc cl)
  then have "length (crop_page ols cls cl (drop ols raster)) = cl * cls" by simp
  moreover have "cls \<le> length raster" using Suc.prems by simp
  ultimately show ?case by (simp add: crop_page_Suc min_absorb2)
qed (simp add: crop_page_def)

lemma newCropStreambuf_ok:
  assumes "ok raster" "0 < cls" "cls \<le> ols" "ols < 2 ^ 32" "0 < cl" "cl \<le> ol" "ol < 2 ^ 32"
  shows "crop_line_ok ok content cls (newCropStreambuf raster ols ol cls cl)"
    and "crop_ok ok cls (newCropStreambuf raster ols ol cls cl)"
  using assms by (simp_all add: crop_line_ok_def crop_ok_def newCropStreambuf_def)

lemma newCropStreambuf_content:
  assumes "0 < cls" "cls \<le> ols" "0 < cl" "cl \<le> ol" "ol * ols \<le> length (content raster)"
  shows "crop_content content (newCropStreambuf raster ols ol cls cl) =
    crop_page ols cls cl (content raster) @
    crop_rest ols ol cls cl 0 0 (drop (ol * ols) (content raster))"
  using crop_rest_page [of 0 cl ol cls ols "content raster"] assms
  by (simp add: crop_content_def newCropStreambuf_def)

subsection \<open>Properties\<close>

text \<open>
C38. Cropping keeps the left part of the upper lines. A request of any size below
\<open>2 ^ 32\<close> to a new \<open>CropStreambuf\<close> over a raster that begins with a page of \<open>ol\<close>
lines of \<open>ols\<close> bytes delivers the first \<open>cls\<close> bytes of each of the first \<open>cl\<close> lines, and
then goes on in the same way with the page that follows in the raster.
\<close>

theorem crop_delivers:
  assumes "0 < cls" "cls \<le> ols" "ols < 2 ^ 32" "0 < cl" "cl \<le> ol" "ol < 2 ^ 32"
    and "ol * ols \<le> length raster" and "n < 2 ^ 32"
  shows "\<exists>b. sgetn (crop_ops memory_ops) n (newCropStreambuf raster ols ol cls cl) =
    Inr (take n (crop_page ols cls cl raster @ crop_rest ols ol cls cl 0 0 (drop (ol * ols) raster)), b)"
proof -
  let ?b = "newCropStreambuf raster ols ol cls cl"
  have "crop_ok (\<lambda>_. True) cls ?b" using assms by (intro newCropStreambuf_ok(2)) simp_all
  moreover have "cls < n \<or> lineRead ?b + n \<le> cls \<or> cRaster ?b = []"
    by (auto simp: newCropStreambuf_def)
  ultimately show ?thesis
    using memory.crop_xsgetn_delivers [of cls ?b n] assms(8)
      newCropStreambuf_content [where content = "\<lambda>s. s", OF assms(1,2,4,5,7)]
    by (auto simp: crop_ops_def delivers_def)
qed

theorem crop_delivers_witness:
  "\<exists>b. sgetn (crop_ops memory_ops) 8
      (newCropStreambuf [1, 2, 3, 4, 5, 6, 7, 8, 9, 1, 2, 3, 4, 5, 6, 7, 8, 9] 3 3 2 2) =
    Inr ([1, 2, 4, 5, 1, 2, 4, 5], b)"
proof -
  have "crop_page 3 2 2 [1, 2, 3, 4, 5, 6, 7, 8, 9, 1, 2, 3, 4, 5, 6, 7, 8, 9] = [1, 2, 4, 5]"
    "crop_rest 3 3 2 2 0 0 [1, 2, 3, 4, 5, 6, 7, 8, 9] = [1, 2, 4, 5]"
    by (simp_all add: crop_page_def crop_rest.simps crop_skip_def numeral_2_eq_2)
  then show ?thesis
    using crop_delivers [of 2 3 2 3 "[1, 2, 3, 4, 5, 6, 7, 8, 9, 1, 2, 3, 4, 5, 6, 7, 8, 9]" 8] by simp
qed

text \<open>
Single bytes. In every state of the stream, within a line or at its start,
\<open>sgetc\<close> shows the next cropped byte and leaves it, \<open>sbumpc\<close> returns it and moves past
it, and both report the end exactly when there is no cropped byte left; the assertion of
\<open>underflow\<close> holds.
\<close>

theorem crop_bytes:
  assumes "crop_ok (\<lambda>_. True) cls b"
  shows "delivers (crop_ok (\<lambda>_. True) cls) (crop_content (\<lambda>s. s)) (sgetc (crop_ops memory_ops) b)
      (hd_opt (crop_content (\<lambda>s. s) b)) (crop_content (\<lambda>s. s) b) \<and>
    delivers (crop_ok (\<lambda>_. True) cls) (crop_content (\<lambda>s. s)) (sbumpc (crop_ops memory_ops) b)
      (hd_opt (crop_content (\<lambda>s. s) b)) (tl (crop_content (\<lambda>s. s) b))"
  using memory.crop_underflow_delivers [OF assms] memory.crop_uflow_delivers [OF assms]
  by (simp add: crop_ops_def)

theorem crop_bytes_witness:
  "delivers (crop_ok (\<lambda>_. True) 2) (crop_content (\<lambda>s. s))
      (sgetc (crop_ops memory_ops) ((newCropStreambuf [2, 3, 4, 5, 6] 3 3 2 2)\<lparr>lineRead := 1\<rparr>))
      (hd_opt (crop_content (\<lambda>s. s) ((newCropStreambuf [2, 3, 4, 5, 6] 3 3 2 2)\<lparr>lineRead := 1\<rparr>)))
      (crop_content (\<lambda>s. s) ((newCropStreambuf [2, 3, 4, 5, 6] 3 3 2 2)\<lparr>lineRead := 1\<rparr>)) \<and>
    delivers (crop_ok (\<lambda>_. True) 2) (crop_content (\<lambda>s. s))
      (sbumpc (crop_ops memory_ops) ((newCropStreambuf [2, 3, 4, 5, 6] 3 3 2 2)\<lparr>lineRead := 1\<rparr>))
      (hd_opt (crop_content (\<lambda>s. s) ((newCropStreambuf [2, 3, 4, 5, 6] 3 3 2 2)\<lparr>lineRead := 1\<rparr>)))
      (tl (crop_content (\<lambda>s. s) ((newCropStreambuf [2, 3, 4, 5, 6] 3 3 2 2)\<lparr>lineRead := 1\<rparr>)))"
  by (rule crop_bytes) (simp add: crop_ok_def newCropStreambuf_def)

text \<open>
A request that straddles the end of a line comes back short, although the stream has
more bytes: it is served up to the end of the line only. (A caller that takes a short
\<open>sgetn\<close> for the end of the stream, as \<open>std::istream::read\<close> does, stops there.)
\<close>

theorem crop_short_read:
  assumes "crop_ok (\<lambda>_. True) cls b" and "n \<le> cls" and "cls - lineRead b < n"
    and "n \<le> length (crop_content (\<lambda>s. s) b)"
  shows "\<exists>bs b'. sgetn (crop_ops memory_ops) n b = Inr (bs, b') \<and>
    bs = take (cls - lineRead b) (crop_content (\<lambda>s. s) b) \<and> length bs < n \<and>
    crop_content (\<lambda>s. s) b' \<noteq> []"
proof -
  obtain b' where "crop_xsgetn memory_ops n b = Inr (take (cls - lineRead b) (crop_content (\<lambda>s. s) b), b')"
    "crop_content (\<lambda>s. s) b' = drop (cls - lineRead b) (crop_content (\<lambda>s. s) b)"
    using memory.crop_short [OF assms(1-3)] by (rule deliversE)
  then show ?thesis using assms(3,4) by (auto simp: crop_ops_def)
qed

theorem crop_short_read_witness:
  "\<exists>bs b'. sgetn (crop_ops memory_ops) 2
      ((newCropStreambuf [2, 3, 4, 5, 6, 7, 8, 9] 3 3 2 2)\<lparr>lineRead := 1\<rparr>) = Inr (bs, b') \<and>
    bs = [2] \<and> length bs < 2 \<and> crop_content (\<lambda>s. s) b' \<noteq> []"
proof -
  let ?b = "(newCropStreambuf [2, 3, 4, 5, 6, 7, 8, 9 :: byte] 3 3 2 2)\<lparr>lineRead := 1\<rparr>"
  have "crop_content (\<lambda>s. s) ?b = [2, 4, 5]"
    by (simp add: crop_content_def newCropStreambuf_def crop_rest.simps crop_skip_def numeral_2_eq_2)
  with crop_short_read [of 2 ?b 2] show ?thesis
    by (simp add: crop_ok_def newCropStreambuf_def)
qed

text \<open>
C39. The sizes a page is cropped to: never more than the page or the paper has, a whole
number of 4 byte groups per line and of 32 lines per page, and less than one group away from
the largest possible.
\<close>

theorem crop_sizes:
  "CropLineSize ls width \<le> ls \<and> 8 * CropLineSize ls width \<le> width \<and> 4 dvd CropLineSize ls width \<and>
    min ls (width div 8) < CropLineSize ls width + 4 \<and>
    CropLinesCount count height \<le> min count height \<and> 32 dvd CropLinesCount count height \<and>
    min count height < CropLinesCount count height + 32"
proof -
  have "min ls (width div 8) mod 4 < 4" "min count height mod 32 < 32" by simp_all
  moreover have "8 * (width div 8) \<le> width" by simp
  moreover have "4 dvd (min ls (width div 8) - min ls (width div 8) mod 4)"
    "32 dvd (min count height - min count height mod 32)" by (rule dvd_minus_mod)+
  ultimately show ?thesis
    unfolding CropLineSize_def CropLineSize1_def CropLinesCount_def CropLinesCount1_def
    by linarith
qed

end
