(* ===== verification/Protocol_Data.thy ===== *)
theory Protocol_Data
  imports Capt_Prelude
begin

text \<open>
  The data of the CAPT protocol: \<^verbatim>\<open>Protocol/Enums.hpp\<close>,
  \<^verbatim>\<open>ExtendedStatus.{hpp,cpp}\<close>, \<^verbatim>\<open>ReprintStatus.hpp\<close>,
  \<^verbatim>\<open>PageParams.hpp\<close> and \<^verbatim>\<open>PrinterInfo.hpp\<close>.

  The enumerations of flags have a fixed underlying type, so a value of such a type is any
  word of that size; their constants are the masks below. The predicates of
  \<^verbatim>\<open>ExtendedStatus\<close> are transcribed with their masks, and the lemmas say
  what they mean bit by bit.
\<close>

subsection \<open>Flags\<close>

definition RES_300 :: byte where "RES_300 = 0"
definition RES_600 :: byte where "RES_600 = 0x11"

definition NOT_READY :: byte where "NOT_READY = 2"
definition CMD_BUSY :: byte where "CMD_BUSY = 4"
definition IM_DATA_BUSY :: byte where "IM_DATA_BUSY = 8"
definition OFFLINE :: byte where "OFFLINE = 0x10"
definition UNIT_FREE :: byte where "UNIT_FREE = 0x40"
definition ERROR_BIT :: byte where "ERROR_BIT = 0x80"

definition PRINTER_BUSY :: byte where "PRINTER_BUSY = 2"
definition PAPER_DELIVERY :: byte where "PAPER_DELIVERY = 4"
definition SAFE_TIMER :: byte where "SAFE_TIMER = 0x80"

definition ENGINE_RESET_IN_PROGRESS :: byte where "ENGINE_RESET_IN_PROGRESS = 0x20"
definition INVALID_DATA :: byte where "INVALID_DATA = 8"
definition MISSING_EOP :: byte where "MISSING_EOP = 4"
definition UNDERRUN :: byte where "UNDERRUN = 2"
definition OVERRUN :: byte where "OVERRUN = 1"
definition ENGINE_COMM_ERROR :: byte where "ENGINE_COMM_ERROR = 0x10"
definition PRINT_REJECTED :: byte where "PRINT_REJECTED = 0x40"

definition DOOR_OPEN :: u16 where "DOOR_OPEN = 0x4000"
definition NO_CARTRIDGE :: u16 where "NO_CARTRIDGE = 0x2000"
definition WAITING :: u16 where "WAITING = 0x1000"
definition TEST_PRINTING :: u16 where "TEST_PRINTING = 0x400"
definition NO_PRINT_PAPER :: u16 where "NO_PRINT_PAPER = 0x200"
definition JAM :: u16 where "JAM = 0x100"
definition CLEANING :: u16 where "CLEANING = 4"
definition SERVICE_CALL :: u16 where "SERVICE_CALL = 2"
definition MIS_PRINT :: u16 where "MIS_PRINT = 0x80"
definition MIS_PRINT_2 :: u16 where "MIS_PRINT_2 = 0x40"

lemmas basic_flags = NOT_READY_def CMD_BUSY_def IM_DATA_BUSY_def OFFLINE_def UNIT_FREE_def ERROR_BIT_def
lemmas aux_flags = PRINTER_BUSY_def PAPER_DELIVERY_def SAFE_TIMER_def
lemmas controller_flags = ENGINE_RESET_IN_PROGRESS_def INVALID_DATA_def MISSING_EOP_def UNDERRUN_def
  OVERRUN_def ENGINE_COMM_ERROR_def PRINT_REJECTED_def
lemmas engine_flags = DOOR_OPEN_def NO_CARTRIDGE_def WAITING_def TEST_PRINTING_def NO_PRINT_PAPER_def
  JAM_def CLEANING_def SERVICE_CALL_def MIS_PRINT_def MIS_PRINT_2_def
lemmas status_flags = basic_flags aux_flags controller_flags engine_flags

subsection \<open>The records\<close>

record PageParams =
  PaperSize :: byte
  TonerDensity :: byte
  Mode :: byte
  Resolution :: byte
  SmoothEnable :: bool
  TonerSaving :: bool
  MarginLeft :: u16
  MarginTop :: u16
  ImageLineSize :: u16
  ImageLines :: u16
  PaperWidth :: u16
  PaperHeight :: u16

text \<open>The parameters \<^verbatim>\<open>examples/printerinfo.cpp\<close> sends to measure the video buffer.\<close>

definition dummyParams :: PageParams where
  "dummyParams =
    \<lparr>PaperSize = 0x09, TonerDensity = 0x3f, Mode = 0, Resolution = RES_600, SmoothEnable = True,
     TonerSaving = False, MarginLeft = 1, MarginTop = 1, ImageLineSize = 620, ImageLines = 7014,
     PaperWidth = 4960, PaperHeight = 7014\<rparr>"

record PrinterInfo =
  DeviceId :: byte
  infoType :: byte
  VersionMajor :: byte
  VersionMinor :: byte
  BlockSize :: u16
  Buffers :: u16

datatype ReprintStatus = rsNone | rsPrev | rsCurrent

record ExtendedStatus =
  Basic :: byte
  Changed :: byte
  Aux :: byte
  Controller :: byte
  PaperAvailableBits :: byte
  Engine :: u16
  Start :: u16
  Printing :: u16
  Shipped :: u16
  Printed :: u16

subsection \<open>The predicates of the status\<close>

text \<open>The operands of \<open>&\<close> and \<open>>>\<close> are promoted to \<^verbatim>\<open>int\<close>.\<close>

definition CheckSlotPaper :: "int \<Rightarrow> ExtendedStatus \<Rightarrow> bool" where
  "CheckSlotPaper slot ex \<longleftrightarrow>
    uint (PaperAvailableBits ex) AND drop_bit (nat (slot AND 0x1f)) 0x80 \<noteq> 0"

definition Ready :: "ExtendedStatus \<Rightarrow> bool" where
  "Ready ex \<longleftrightarrow> Basic ex AND NOT_READY = 0"

definition UnitReserved :: "ExtendedStatus \<Rightarrow> bool" where
  "UnitReserved ex \<longleftrightarrow> Basic ex AND UNIT_FREE = 0"

definition Online :: "ExtendedStatus \<Rightarrow> bool" where
  "Online ex \<longleftrightarrow> Basic ex AND OFFLINE = 0"

definition IsPrinting :: "ExtendedStatus \<Rightarrow> bool" where
  "IsPrinting ex \<longleftrightarrow>
    Aux ex AND PAPER_DELIVERY \<noteq> 0 \<or> Aux ex AND SAFE_TIMER \<noteq> 0 \<or>
    (Online ex \<and> Start ex \<noteq> Printing ex) \<or> Engine ex AND CLEANING \<noteq> 0"

definition VideoDataError :: "ExtendedStatus \<Rightarrow> bool" where
  "VideoDataError ex \<longleftrightarrow>
    Controller ex AND OVERRUN \<noteq> 0 \<or> Controller ex AND UNDERRUN \<noteq> 0 \<or>
    Controller ex AND INVALID_DATA \<noteq> 0 \<or> Controller ex AND MISSING_EOP \<noteq> 0"

definition Rejected :: "ExtendedStatus \<Rightarrow> bool" where
  "Rejected ex \<longleftrightarrow> Controller ex AND PRINT_REJECTED \<noteq> 0"

text \<open>\<open>Printed + 1\<close> is computed as \<^verbatim>\<open>int\<close>: it does not wrap.\<close>

definition GetReprintStatus :: "ExtendedStatus \<Rightarrow> ReprintStatus" where
  "GetReprintStatus ex =
    (if \<not> Rejected ex then rsNone
     else if uint (Printed ex) + 1 \<noteq> uint (Start ex) then rsPrev else rsCurrent)"

definition Misprint :: "ExtendedStatus \<Rightarrow> bool" where
  "Misprint ex \<longleftrightarrow> Engine ex AND MIS_PRINT \<noteq> 0 \<or> Engine ex AND MIS_PRINT_2 \<noteq> 0"

definition ClearErrorNeeded :: "ExtendedStatus \<Rightarrow> bool" where
  "ClearErrorNeeded ex \<longleftrightarrow>
    VideoDataError ex \<or> Rejected ex \<or> Misprint ex \<or> Controller ex AND ENGINE_COMM_ERROR \<noteq> 0"

definition ServiceCall :: "ExtendedStatus \<Rightarrow> bool" where
  "ServiceCall ex \<longleftrightarrow> Engine ex AND SERVICE_CALL \<noteq> 0"

definition FatalError :: "ExtendedStatus \<Rightarrow> bool" where
  "FatalError ex \<longleftrightarrow>
    Basic ex AND ERROR_BIT \<noteq> 0 \<or> Basic ex AND CMD_BUSY \<noteq> 0 \<or> Engine ex AND SERVICE_CALL \<noteq> 0"

subsection \<open>Printing a status\<close>

text \<open>
  \<^verbatim>\<open>operator<<\<close> on a stream in its default format; \<open>show_base\<close> is what
  the number inserters write, \<open>padded\<close> is \<^verbatim>\<open>setw\<close> with fill
  \<open>0\<close>.
\<close>

definition digit :: "nat \<Rightarrow> char" where
  "digit d = char_of (if d < 10 then d + 48 else d + 87)"

fun show_base :: "nat \<Rightarrow> nat \<Rightarrow> string" where
  "show_base b n = (if b \<le> 1 \<or> n < b then [] else show_base b (n div b)) @ [digit (n mod b)]"

declare show_base.simps [simp del]

definition padded :: "nat \<Rightarrow> string \<Rightarrow> string" where
  "padded w s = replicate (w - length s) (CHR ''0'') @ s"

definition show_status :: "ExtendedStatus \<Rightarrow> string" where
  "show_status ex =
    ''ExtendedStatus[Basic=0x'' @ padded 2 (show_base 16 (unat (Basic ex))) @
    '' Aux=0x'' @ padded 2 (show_base 16 (unat (Aux ex))) @
    '' Controller=0x'' @ padded 2 (show_base 16 (unat (Controller ex))) @
    '' Engine=0x'' @ padded 4 (show_base 16 (unat (Engine ex))) @
    '' PaperAvailableBits=0x'' @ padded 2 (show_base 16 (unat (PaperAvailableBits ex))) @
    '' Start='' @ show_base 10 (unat (Start ex)) @
    '' Printing='' @ show_base 10 (unat (Printing ex)) @
    '' Shipped='' @ show_base 10 (unat (Shipped ex)) @
    '' Printed='' @ show_base 10 (unat (Printed ex)) @ '']''"

subsection \<open>What the predicates mean\<close>

lemma and_flag: "(w :: 'a :: len word) AND push_bit n 1 \<noteq> 0 \<longleftrightarrow> bit w n"
proof -
  have "bit (push_bit n 1 :: 'a word) k = (k = n \<and> k < LENGTH('a))" for k
    by (auto simp: bit_simps)
  then have "w AND push_bit n 1 = (if bit w n then push_bit n 1 else 0)"
    by (intro bit_word_eqI) (auto simp: bit_simps)
  moreover have "push_bit n 1 \<noteq> (0 :: 'a word)" if "bit w n"
    using that bit_imp_le_length [of w n] by (metis bit_push_bit_iff bit_0_eq bot_apply bot_bool_def bit_1_iff cancel_comm_monoid_add_class.diff_cancel order_refl possible_bit_word)
  ultimately show ?thesis by auto
qed

lemma and_flag_zero: "(w :: 'a :: len word) AND push_bit n 1 = 0 \<longleftrightarrow> \<not> bit w n"
  using and_flag [of w n] by blast

lemma flag_bits:
  "w AND NOT_READY = 0 \<longleftrightarrow> \<not> bit w 1" "w AND CMD_BUSY = 0 \<longleftrightarrow> \<not> bit w 2"
  "w AND IM_DATA_BUSY = 0 \<longleftrightarrow> \<not> bit w 3" "w AND OFFLINE = 0 \<longleftrightarrow> \<not> bit w 4"
  "w AND UNIT_FREE = 0 \<longleftrightarrow> \<not> bit w 6" "w AND ERROR_BIT = 0 \<longleftrightarrow> \<not> bit w 7"
  "w AND PAPER_DELIVERY = 0 \<longleftrightarrow> \<not> bit w 2" "w AND SAFE_TIMER = 0 \<longleftrightarrow> \<not> bit w 7"
  "w AND OVERRUN = 0 \<longleftrightarrow> \<not> bit w 0" "w AND UNDERRUN = 0 \<longleftrightarrow> \<not> bit w 1"
  "w AND MISSING_EOP = 0 \<longleftrightarrow> \<not> bit w 2" "w AND INVALID_DATA = 0 \<longleftrightarrow> \<not> bit w 3"
  "w AND ENGINE_COMM_ERROR = 0 \<longleftrightarrow> \<not> bit w 4" "w AND PRINT_REJECTED = 0 \<longleftrightarrow> \<not> bit w 6"
  "v AND SERVICE_CALL = 0 \<longleftrightarrow> \<not> bit v 1" "v AND CLEANING = 0 \<longleftrightarrow> \<not> bit v 2"
  "v AND MIS_PRINT_2 = 0 \<longleftrightarrow> \<not> bit v 6" "v AND MIS_PRINT = 0 \<longleftrightarrow> \<not> bit v 7"
  using and_flag_zero [of w 0] and_flag_zero [of w 1] and_flag_zero [of w 2] and_flag_zero [of w 3]
    and_flag_zero [of w 4] and_flag_zero [of w 6] and_flag_zero [of w 7] and_flag_zero [of v 1]
    and_flag_zero [of v 2] and_flag_zero [of v 6] and_flag_zero [of v 7]
  by (simp_all add: status_flags)

subsection \<open>Properties\<close>

text \<open>
The predicates of a status read the bits the protocol assigns to them: which bit of
which field decides each of them, and how they combine.
\<close>

theorem status_predicates_bits:
  "(Ready ex \<longleftrightarrow> \<not> bit (Basic ex) 1) \<and> (Online ex \<longleftrightarrow> \<not> bit (Basic ex) 4) \<and>
   (UnitReserved ex \<longleftrightarrow> \<not> bit (Basic ex) 6) \<and>
   (FatalError ex \<longleftrightarrow> bit (Basic ex) 7 \<or> bit (Basic ex) 2 \<or> ServiceCall ex) \<and>
   (ServiceCall ex \<longleftrightarrow> bit (Engine ex) 1) \<and>
   (IsPrinting ex \<longleftrightarrow> bit (Aux ex) 2 \<or> bit (Aux ex) 7 \<or>
     (Online ex \<and> Start ex \<noteq> Printing ex) \<or> bit (Engine ex) 2) \<and>
   (VideoDataError ex \<longleftrightarrow> (\<exists>n \<in> {0, 1, 2, 3}. bit (Controller ex) n)) \<and>
   (Rejected ex \<longleftrightarrow> bit (Controller ex) 6) \<and> (Misprint ex \<longleftrightarrow> bit (Engine ex) 6 \<or> bit (Engine ex) 7) \<and>
   (ClearErrorNeeded ex \<longleftrightarrow> VideoDataError ex \<or> Rejected ex \<or> Misprint ex \<or> bit (Controller ex) 4)"
  unfolding Ready_def Online_def UnitReserved_def FatalError_def ServiceCall_def IsPrinting_def
    VideoDataError_def Rejected_def Misprint_def ClearErrorNeeded_def flag_bits
  by auto

text \<open>
Paper slots. Slots 0 to 7 are the bits of \<open>PaperAvailableBits\<close> from the highest to the
lowest; slots 8 to 31 never have paper; other numbers, negative ones included, are taken
modulo 32.
\<close>

theorem slot_paper:
  "CheckSlotPaper slot ex \<longleftrightarrow>
    slot mod 32 < 8 \<and> bit (PaperAvailableBits ex) (7 - nat (slot mod 32))"
proof -
  define k where "k = nat (slot mod 32)"
  have "slot AND mask 5 = slot mod 32" by (simp only: take_bit_eq_mask [symmetric] take_bit_eq_mod) simp
  then have and5: "nat (slot AND 0x1f) = k" by (simp add: mask_eq_exp_minus_1 k_def)
  have less: "slot mod 32 < 8 \<longleftrightarrow> k < 8" by (auto simp: k_def)
  show ?thesis
  proof (cases "k < 8")
    case True
    then have "drop_bit k (0x80 :: int) = push_bit (7 - k) 1"
      using bit_index_cases [of k] by auto
    moreover have "uint w AND push_bit m 1 \<noteq> 0 \<longleftrightarrow> bit w m" for w :: byte and m
    proof -
      have "uint w AND push_bit m 1 = (if bit w m then push_bit m 1 else 0)"
        by (intro bit_eqI) (auto simp: bit_simps)
      then show ?thesis by (simp add: push_bit_eq_mult)
    qed
    ultimately show ?thesis using True and5 less by (simp add: CheckSlotPaper_def k_def)
  next
    case False
    then have "(2 :: int) ^ 8 \<le> 2 ^ k" by (intro power_increasing) simp_all
    then have "drop_bit k (0x80 :: int) = 0" by (simp add: drop_bit_eq_div div_pos_pos_trivial)
    then show ?thesis using False and5 less by (simp add: CheckSlotPaper_def)
  qed
qed

text \<open>
C40. What has to be printed again. Nothing when the printer did not reject a page; the
current page when the page that was started is the one after the last printed one; else the
previous page. At the wrap-around of the 16 bit counters (65535 pages printed, page 0
started) the comparison is made with 65536, so the previous page is requested.
\<close>

theorem reprint_status:
  "(GetReprintStatus ex = rsNone \<longleftrightarrow> \<not> Rejected ex) \<and>
   (GetReprintStatus ex = rsCurrent \<longleftrightarrow> Rejected ex \<and> Printed ex \<noteq> -1 \<and> Start ex = Printed ex + 1) \<and>
   list_all (\<lambda>s. GetReprintStatus (ex\<lparr>Controller := 0x40, Printed := 0xffff, Start := s\<rparr>) = rsPrev) [0, 1, 0xffff]"
proof -
  have wrap: "uint (Printed ex) + 1 = uint (Start ex) \<longleftrightarrow> Printed ex \<noteq> -1 \<and> Start ex = Printed ex + 1"
  proof (cases "Printed ex = -1")
    case True
    then have "uint (Printed ex) = 65535"
      by (simp add: unsigned_minus_1_eq_mask mask_eq_exp_minus_1)
    moreover have "uint (Start ex) < 65536" using uint_lt2p [of "Start ex"] by simp
    ultimately show ?thesis using True by auto
  next
    case False
    have "uint (- 1 :: u16) = 65535" by (simp add: unsigned_minus_1_eq_mask mask_eq_exp_minus_1)
    then have "uint (Printed ex) \<noteq> 65535" using False by (metis word_uint_eq_iff)
    moreover have "uint (Printed ex) < 65536" using uint_lt2p [of "Printed ex"] by simp
    moreover have "0 \<le> uint (Printed ex)" by simp
    ultimately have "uint (Printed ex + 1) = uint (Printed ex) + 1" by (simp add: uint_word_ariths)
    then show ?thesis using False by (metis word_uint_eq_iff)
  qed
  then show ?thesis by (simp add: GetReprintStatus_def Rejected_def PRINT_REJECTED_def)
qed

end
