(* ===== verification/Buffered_Page.thy ===== *)
theory Buffered_Page
  imports Stream_Buffer Protocol_Data
begin

text \<open>
  A page that can be sent again: \<^verbatim>\<open>Utility/BufferedPage.{hpp,cpp}\<close>.

  A \<open>buffered_page\<close> reads its video stream in blocks and keeps everything it has read; the
  get area is the whole buffer, so seeking goes back to bytes that were delivered before.
  \<open>page_rest\<close> is what the video stream still has. The sublocale makes the page a byte
  source; \<open>page_whole\<close>, which no read changes, is what a seek to the start delivers again.

  Positions are integers; a position outside the get area is undefined behaviour.
\<close>

record 's buffered_page = getarea +
  bpBuffer :: "byte list"
  bpVideo :: "'s option"
  bpBlockSize :: nat
  PageNumber :: nat
  pageParams :: PageParams

definition emptyBufferedPage :: "PageParams \<Rightarrow> 's buffered_page" where
  "emptyBufferedPage uninit =
    \<lparr>gdata = [], gpos = 0, bpBuffer = [], bpVideo = None, bpBlockSize = 4096, PageNumber = 0,
     pageParams = uninit\<rparr>"

definition newBufferedPage :: "nat \<Rightarrow> PageParams \<Rightarrow> 's option \<Rightarrow> nat \<Rightarrow> 's buffered_page" where
  "newBufferedPage page params stream blockSize =
    \<lparr>gdata = [], gpos = 0, bpBuffer = [], bpVideo = stream, bpBlockSize = blockSize,
     PageNumber = page, pageParams = params\<rparr>"

definition page_underflow ::
  "'s streambuf_ops \<Rightarrow> 's buffered_page \<Rightarrow> fault + (byte option \<times> 's buffered_page)" where
  "page_underflow io b =
    (if gpos b < length (gdata b) then Inr (Some (gdata b ! gpos b), b)
     else case bpVideo b of
       None \<Rightarrow> Inr (None, b)
     | Some s \<Rightarrow>
         let oldSize = length (bpBuffer b)
         in bindR (sgetn io (bpBlockSize b) s) (\<lambda>(bs, s').
              let buffer = bpBuffer b @ bs;
                  b' = b\<lparr>bpVideo := Some s', bpBuffer := buffer, gdata := buffer, gpos := oldSize\<rparr>
              in if length bs = 0 then Inr (None, b') else Inr (Some (gdata b' ! gpos b'), b')))"

text \<open>Setting the read position; \<open>to_int\<close> is the narrowing to \<^verbatim>\<open>int\<close> of \<^verbatim>\<open>gbump\<close>.\<close>

definition to_int :: "int \<Rightarrow> int" where
  "to_int n = (n + 2 ^ 31) mod 2 ^ 32 - 2 ^ 31"

definition set_pos :: "int \<Rightarrow> 'z getarea_scheme \<Rightarrow> fault + (int \<times> 'z getarea_scheme)" where
  "set_pos p b =
    (if p < 0 \<or> p > int (length (gdata b)) then Inl UndefinedBehaviour
     else Inr (p, b\<lparr>gpos := nat p\<rparr>))"

definition page_seekpos :: "int \<Rightarrow> bool \<Rightarrow> 's buffered_page \<Rightarrow> fault + (int \<times> 's buffered_page)" where
  "page_seekpos pos in_mode b = (if \<not> in_mode then Inr (- 1, b) else set_pos pos b)"

datatype seekdir = seek_beg | seek_cur | seek_end

definition page_seekoff ::
  "int \<Rightarrow> seekdir \<Rightarrow> bool \<Rightarrow> 's buffered_page \<Rightarrow> fault + (int \<times> 's buffered_page)" where
  "page_seekoff off dir in_mode b =
    (if \<not> in_mode then Inr (- 1, b)
     else case dir of
       seek_cur \<Rightarrow> set_pos (int (gpos b) + to_int off) b
     | seek_beg \<Rightarrow> set_pos off b
     | seek_end \<Rightarrow> set_pos (int (length (gdata b)) + off) b)"

text \<open>
  The move operations return the new page and what is left in the moved one. The stream
  of the other page is not taken over, and an assignment keeps the stream of its target.
\<close>

definition page_move_ctor :: "'s buffered_page \<Rightarrow> 's buffered_page \<times> 's buffered_page" where
  "page_move_ctor other =
    (\<lparr>gdata = bpBuffer other, gpos = 0, bpBuffer = bpBuffer other, bpVideo = None, bpBlockSize = 4096,
      PageNumber = PageNumber other, pageParams = pageParams other\<rparr>,
     other\<lparr>bpBuffer := []\<rparr>)"

definition page_move_assign ::
  "'s buffered_page \<Rightarrow> 's buffered_page \<Rightarrow> 's buffered_page \<times> 's buffered_page" where
  "page_move_assign this other =
    (this\<lparr>bpBuffer := bpBuffer other, PageNumber := PageNumber other, pageParams := pageParams other,
      gdata := bpBuffer other, gpos := 0\<rparr>,
     other\<lparr>bpBuffer := []\<rparr>)"

subsection \<open>The page as a byte source\<close>

definition page_ok :: "('s \<Rightarrow> bool) \<Rightarrow> nat \<Rightarrow> 's buffered_page \<Rightarrow> bool" where
  "page_ok ok bs b \<longleftrightarrow>
    0 < bs \<and> bpBlockSize b = bs \<and> gdata b = bpBuffer b \<and> gpos b \<le> length (gdata b) \<and>
    (case bpVideo b of None \<Rightarrow> True | Some s \<Rightarrow> ok s)"

definition page_rest :: "('s \<Rightarrow> byte list) \<Rightarrow> 's buffered_page \<Rightarrow> byte list" where
  "page_rest content b = (case bpVideo b of None \<Rightarrow> [] | Some s \<Rightarrow> content s)"

definition page_whole :: "('s \<Rightarrow> byte list) \<Rightarrow> 's buffered_page \<Rightarrow> byte list" where
  "page_whole content b = gdata b @ page_rest content b"

text \<open>The video stream of a page is read in blocks of one size.\<close>

locale page_source = line_source

context page_source
begin

lemma page_refill:
  assumes "page_ok ok lineSize b" and "\<not> gpos b < length (gdata b)"
  shows "\<exists>b'. page_underflow io b = Inr (hd_opt (page_rest content b), b') \<and>
    page_ok ok lineSize b' \<and> drop (gpos b') (gdata b') @ page_rest content b' = page_rest content b \<and>
    (page_rest content b \<noteq> [] \<longrightarrow> gpos b' < length (gdata b')) \<and>
    page_whole content b' = page_whole content b"
proof (cases "bpVideo b")
  case None
  with assms show ?thesis by (simp add: page_underflow_def page_rest_def page_ok_def)
next
  case (Some s)
  with assms have s: "ok s" "0 < lineSize" "bpBlockSize b = lineSize" "gdata b = bpBuffer b"
    by (simp_all add: page_ok_def)
  obtain s' where s': "sgetn io lineSize s = Inr (take lineSize (content s), s')" "ok s'"
    "content s' = drop lineSize (content s)"
    using read_line [OF s(1)] by (rule deliversE)
  have "hd_opt (content s) = (if content s = [] then None else Some (hd (content s)))"
    by (cases "content s") simp_all
  then show ?thesis
    using Some assms s s'
    by (auto simp: page_underflow_def page_rest_def page_ok_def page_whole_def Let_def nth_append hd_conv_nth)
qed

end

sublocale page_source \<subseteq> page: underflow_class "page_underflow io" "page_ok ok lineSize" "page_rest content"
proof unfold_locales
  show "page_ok ok lineSize (b\<lparr>gpos := Suc (gpos b)\<rparr>)"
    if "page_ok ok lineSize b" "gpos b < length (gdata b)" for b
    using that by (simp add: page_ok_def)
  show "page_rest content (b\<lparr>gpos := p\<rparr>) = page_rest content b" for b p
    by (simp add: page_rest_def)
  show "\<exists>b'. page_underflow io b = Inr (hd_opt (page_rest content b), b') \<and>
    page_ok ok lineSize b' \<and> drop (gpos b') (gdata b') @ page_rest content b' = page_rest content b \<and>
    (page_rest content b \<noteq> [] \<longrightarrow> gpos b' < length (gdata b'))"
    if "page_ok ok lineSize b" "\<not> gpos b < length (gdata b)" for b
    using page_refill [OF that] by blast
qed

context page_source
begin

lemma page_bump_whole:
  assumes "page_ok ok lineSize b" and "area_sbumpc (page_underflow io) b = Inr (c, b')"
  shows "page_ok ok lineSize b' \<and> page_whole content b' = page_whole content b"
proof (cases "gpos b < length (gdata b)")
  case True
  with assms show ?thesis
    by (auto simp: area_sbumpc_def page_whole_def page_rest_def page_ok_def)
next
  case False
  obtain b1 where b1: "page_underflow io b = Inr (hd_opt (page_rest content b), b1)" "page_ok ok lineSize b1"
    "page_whole content b1 = page_whole content b"
    using page_refill [OF assms(1) False] by blast
  have "page_whole content (b1\<lparr>gpos := p\<rparr>) = page_whole content b1" for p
    by (simp add: page_whole_def page_rest_def)
  moreover have "page_ok ok lineSize (b1\<lparr>gpos := Suc (gpos b1)\<rparr>)" if "gpos b1 < length (gdata b1)"
    using that b1(2) by (simp add: page_ok_def)
  ultimately show ?thesis
    using assms(2) False b1
    by (auto simp: area_sbumpc_def area_uflow_def split: option.splits if_splits)
qed

lemma page_read_whole:
  "page_ok ok lineSize b \<Longrightarrow> xsgetn (area_sbumpc (page_underflow io)) n b = Inr (bs, b') \<Longrightarrow>
    page_ok ok lineSize b' \<and> page_whole content b' = page_whole content b"
proof (induction n arbitrary: b bs)
  case (Suc n)
  then obtain c b1 where b1: "area_sbumpc (page_underflow io) b = Inr (c, b1)"
    by (auto elim!: bindR_eq_InrE)
  note w = page_bump_whole [OF Suc.prems(1) b1]
  show ?case
  proof (cases c)
    case None
    with b1 Suc.prems(2) w show ?thesis by simp
  next
    case (Some x)
    with b1 Suc.prems(2) obtain cs where "xsgetn (area_sbumpc (page_underflow io)) n b1 = Inr (cs, b')"
      by (auto elim!: bindR_eq_InrE)
    with Suc.IH [of b1 cs] w show ?thesis by simp
  qed
qed simp

text \<open>Read, go back within what was read, read again.\<close>

lemma page_replay:
  assumes "page_ok ok lineSize b" and "gpos b = 0" and "p \<le> n" and "p \<le> length (page_whole content b)"
  obtains b1 b2 where "sgetn (area_ops (page_underflow io)) n b = Inr (take n (page_whole content b), b1)"
    "page_seekpos (int p) True b1 = Inr (int p, b2)" "page_ok ok lineSize b2"
    "page.stream_content b2 = drop p (page_whole content b)"
proof -
  have whole: "page.stream_content b = page_whole content b"
    using assms(2) by (simp add: page.stream_content_def page_whole_def)
  obtain b1 where b1: "sgetn (area_ops (page_underflow io)) n b = Inr (take n (page_whole content b), b1)"
    "page_ok ok lineSize b1" "page.stream_content b1 = drop n (page_whole content b)"
    using page.read [OF assms(1), of n] unfolding whole by (rule deliversE)
  have "page_whole content b1 = page_whole content b"
    using page_read_whole [OF assms(1), of n] b1(1) by (simp add: area_ops_def)
  moreover have "page_whole content b1 = take (gpos b1) (gdata b1) @ page.stream_content b1"
    by (simp add: page_whole_def page.stream_content_def)
  ultimately have "length (page_whole content b) = min (gpos b1) (length (gdata b1)) + (length (page_whole content b) - n)"
    using b1(3) by (metis length_append length_drop length_take min.commute)
  moreover have "gpos b1 \<le> length (gdata b1)" using b1(2) unfolding page_ok_def by blast
  ultimately have p: "p \<le> length (gdata b1)" using assms(3,4) by linarith
  let ?b2 = "b1\<lparr>gpos := p\<rparr>"
  have "page.stream_content ?b2 = drop p (page_whole content b1)"
    using p by (simp add: page.stream_content_def page_whole_def page_rest_def)
  then show thesis
    using that [OF b1(1), of ?b2] b1(2) p \<open>page_whole content b1 = page_whole content b\<close>
    by (simp add: page_seekpos_def set_pos_def page_ok_def)
qed

end

interpretation memory_page: page_source memory_ops "\<lambda>_. True" "\<lambda>s. s" bs for bs
  by unfold_locales (simp add: deliversI)

subsection \<open>Properties\<close>

text \<open>
C37. A page can be sent again from any byte it has delivered. A new page over a video stream
delivers the bytes of the stream in requests of any size; after a seek back to a position
\<open>p\<close> within what was read it delivers the same bytes again from \<open>p\<close> on, and goes on with
the rest of the stream.
\<close>

theorem page_replays:
  assumes "0 < bs" and "p \<le> n" and "p \<le> length video"
  shows "\<exists>b1 b2 b3.
    sgetn (area_ops (page_underflow memory_ops)) n (newBufferedPage page params (Some video) bs) =
      Inr (take n video, b1) \<and>
    page_seekpos (int p) True b1 = Inr (int p, b2) \<and>
    sgetn (area_ops (page_underflow memory_ops)) m b2 = Inr (take m (drop p video), b3)"
proof -
  let ?b = "newBufferedPage page params (Some video) bs"
  have whole: "page_whole (\<lambda>s. s) ?b = video"
    by (simp add: page_whole_def page_rest_def newBufferedPage_def)
  have "page_ok (\<lambda>_. True) bs ?b" "gpos ?b = 0" "p \<le> length (page_whole (\<lambda>s. s) ?b)"
    using assms(1,3) by (simp add: page_ok_def newBufferedPage_def, simp add: newBufferedPage_def, simp add: whole)
  then obtain b1 b2 where
    "sgetn (area_ops (page_underflow memory_ops)) n ?b = Inr (take n video, b1)"
    "page_seekpos (int p) True b1 = Inr (int p, b2)" "page_ok (\<lambda>_. True) bs b2"
    "memory_page.page.stream_content b2 = drop p video"
    using memory_page.page_replay [of bs ?b p n] assms(2) unfolding whole by metis
  moreover from this obtain b3 where
    "sgetn (area_ops (page_underflow memory_ops)) m b2 = Inr (take m (drop p video), b3)"
    using memory_page.page.read [of bs b2 m] by (auto elim: deliversE)
  ultimately show ?thesis by blast
qed

theorem page_replays_witness:
  "\<exists>b1 b2 b3.
    sgetn (area_ops (page_underflow memory_ops)) 3 (newBufferedPage 1 dummyParams (Some [1, 2, 3, 4, 5]) 2) =
      Inr ([1, 2, 3], b1) \<and>
    page_seekpos 1 True b1 = Inr (1, b2) \<and>
    sgetn (area_ops (page_underflow memory_ops)) 9 b2 = Inr ([2, 3, 4, 5], b3)"
  using page_replays [of 2 1 3 "[1, 2, 3, 4, 5]" 1 dummyParams 9] by simp

text \<open>
What a moved page delivers. Assigning a page that was read up to some point to another
one gives a page that delivers the bytes buffered so far, from the first one, under the
number and parameters of the source; the part of the video stream that was not read is lost,
and when the target had a stream of its own, the bytes of that stream follow.
\<close>

theorem moved_page_content:
  assumes "0 < bpBlockSize this" and "bpVideo this = old"
  shows "\<exists>b. sgetn (area_ops (page_underflow memory_ops)) n (fst (page_move_assign this other)) =
      Inr (take n (bpBuffer other @ (case old of None \<Rightarrow> [] | Some s \<Rightarrow> s)), b) \<and>
    PageNumber (fst (page_move_assign this other)) = PageNumber other \<and>
    pageParams (fst (page_move_assign this other)) = pageParams other"
proof -
  let ?b = "fst (page_move_assign this other)"
  have "page_ok (\<lambda>_. True) (bpBlockSize this) ?b"
    using assms(1) by (simp add: page_ok_def page_move_assign_def split: option.split)
  moreover have "memory_page.page.stream_content ?b = bpBuffer other @ (case old of None \<Rightarrow> [] | Some s \<Rightarrow> s)"
    using assms(2) by (simp add: memory_page.page.stream_content_def page_move_assign_def page_rest_def)
  ultimately show ?thesis
    using memory_page.page.read [of "bpBlockSize this" ?b n]
    by (auto simp: page_move_assign_def elim: deliversE)
qed

theorem moved_page_content_witness:
  "\<exists>b. sgetn (area_ops (page_underflow memory_ops)) 9
      (fst (page_move_assign (newBufferedPage 1 dummyParams (Some [7, 8]) 2)
        ((newBufferedPage 4 dummyParams (Some [3]) 2)\<lparr>bpBuffer := [1, 2]\<rparr>))) = Inr ([1, 2, 7, 8], b)"
  using moved_page_content [of "newBufferedPage 1 dummyParams (Some [7, 8]) 2" "Some [7, 8]" 9
      "(newBufferedPage 4 dummyParams (Some [3]) 2)\<lparr>bpBuffer := [1, 2]\<rparr>"]
  by (simp add: newBufferedPage_def)

end
