(* ===== verification/Pipeline.thy ===== *)
theory Pipeline
  imports Scoa_Roundtrip Crop Buffered_Page
begin

text \<open>
  The streams of the library stacked as a printing program stacks them: a raster, cropped
  by a \<open>CropStreambuf\<close>, compressed by a \<open>ScoaStreambuf\<close>, kept by a
  \<open>BufferedPage\<close>. Each layer is an interpretation of the contract of the layer above it,
  so the statements about the stack are consequences of those about its parts.
\<close>

interpretation cropped: raster_source "crop_ops memory_ops" "crop_line_ok (\<lambda>_. True) (\<lambda>s. s) cls"
  "crop_content (\<lambda>s. s)" cls for cls
  by (rule raster_source.intro) unfold_locales

interpretation printed: page_source "area_ops (scoa_underflow (crop_ops memory_ops))"
  "scoa_ok (crop_line_ok (\<lambda>_. True) (\<lambda>s. s) cls) cls" cropped.scoa.stream_content bs for cls bs
  by (rule page_source.intro) unfold_locales

text \<open>The stack for one page.\<close>

definition page_stack ::
  "byte list \<Rightarrow> nat \<Rightarrow> nat \<Rightarrow> nat \<Rightarrow> nat \<Rightarrow> nat \<Rightarrow> PageParams \<Rightarrow> nat \<Rightarrow>
    byte list crop_streambuf scoa_streambuf buffered_page" where
  "page_stack raster ols ol cls cl page params bs =
    newBufferedPage page params (Some (newScoaStreambuf (newCropStreambuf raster ols ol cls cl) cls cl)) bs"

abbreviation stack_ops :: "byte list crop_streambuf scoa_streambuf buffered_page streambuf_ops" where
  "stack_ops \<equiv> area_ops (page_underflow (area_ops (scoa_underflow (crop_ops memory_ops))))"

lemma page_stack_ok:
  assumes "0 < cls" "cls \<le> ols" "ols < 2 ^ 32" "0 < cl" "cl \<le> ol" "ol < 2 ^ 32" "0 < bs"
  shows "page_ok (scoa_ok (crop_line_ok (\<lambda>_. True) (\<lambda>s. s) cls) cls) bs
    (page_stack raster ols ol cls cl page params bs)"
proof -
  have "crop_line_ok (\<lambda>_. True) (\<lambda>s. s) cls (newCropStreambuf raster ols ol cls cl)"
    using assms by (intro newCropStreambuf_ok) simp_all
  then show ?thesis
    using assms by (simp add: page_ok_def page_stack_def newBufferedPage_def newScoaStreambuf_ok)
qed

lemma page_stack_content:
  assumes "0 < cls" "cls \<le> ols" "0 < cl" "cl \<le> ol" "ol * ols \<le> length raster"
  shows "printed.page.stream_content (page_stack raster ols ol cls cl page params bs) =
    encode_lines cl cls 0 [] (crop_page ols cls cl raster)"
proof -
  have "cl * ols \<le> length raster" using mult_le_mono1 [OF assms(4), of ols] assms(5) by (rule le_trans)
  then have "length (crop_page ols cls cl raster) = cl * cls"
    using assms by (intro length_crop_page) simp_all
  then have "encode_lines cl cls 0 []
      (crop_page ols cls cl raster @ crop_rest ols ol cls cl 0 0 (drop (ol * ols) raster)) =
      encode_lines cl cls 0 [] (crop_page ols cls cl raster)"
    by (rule encode_lines_prefix)
  moreover have "crop_content (\<lambda>s. s) (newCropStreambuf raster ols ol cls cl) =
      crop_page ols cls cl raster @ crop_rest ols ol cls cl 0 0 (drop (ol * ols) raster)"
    using assms by (intro newCropStreambuf_content)
  ultimately show ?thesis
    using cropped.newScoaStreambuf_content [of "newCropStreambuf raster ols ol cls cl" cls cl]
    by (simp add: printed.page.stream_content_def page_stack_def newBufferedPage_def page_rest_def)
qed

subsection \<open>Properties\<close>

text \<open>
C5. The whole path of a page. The raster of a page is cropped, compressed and buffered; a
decoder over the page delivers exactly the left \<open>cls\<close> bytes of each of the upper \<open>cl\<close>
lines, then the end of the page, and no layer fails an assertion, for every size of the
blocks the page is buffered in.
\<close>

theorem pipeline_roundtrip:
  assumes "0 < cls" "cls \<le> ols" "ols < 2 ^ 32" "0 < cl" "cl \<le> ol" "ol < 2 ^ 32" "0 < bs"
    and "Suc cl * cls < 2 ^ 32" and "ol * ols \<le> length raster"
  shows "\<exists>d d'. dec_read stack_ops (cl * cls)
      (newDecoder (page_stack raster ols ol cls cl page params bs) cls log) =
        Inr (crop_page ols cls cl raster, d) \<and>
    dec_underflow stack_ops d = Inr (None, d')"
proof -
  have "cl * ols \<le> length raster" using mult_le_mono1 [OF assms(5), of ols] assms(9) by (rule le_trans)
  then have len: "length (crop_page ols cls cl raster) = cl * cls"
    using assms by (intro length_crop_page) simp_all
  have content: "printed.page.stream_content (page_stack raster ols ol cls cl page params bs) =
      encode_lines cl cls 0 [] (crop_page ols cls cl raster) @ []"
    using page_stack_content assms by simp
  have "page_ok (scoa_ok (crop_line_ok (\<lambda>_. True) (\<lambda>s. s) cls) cls) bs
      (page_stack raster ols ol cls cl page params bs)"
    using assms(1-7) by (rule page_stack_ok)
  from printed.page.decoder_restores [OF this content assms(4,1,8), of log] len
  show ?thesis by auto
qed

theorem pipeline_roundtrip_witness:
  "\<exists>d d'. dec_read stack_ops 2
      (newDecoder (page_stack [1, 2, 3, 4, 5, 6] 2 3 1 2 7 dummyParams 5) 1 None) = Inr ([1, 3], d) \<and>
    dec_underflow stack_ops d = Inr (None, d')"
proof -
  have "crop_page 2 1 2 [1, 2, 3, 4, 5, 6] = [1, 3]" by (simp add: crop_page_def numeral_2_eq_2)
  then show ?thesis
    using pipeline_roundtrip [of 1 2 2 3 5 "[1, 2, 3, 4, 5, 6]" 7 dummyParams None] by simp
qed



end
