(* ===== verification/Capt_Io.thy ===== *)
theory Capt_Io
  imports Protocol_Data
begin

text \<open>
  Input and output of the protocol layer.

  An action \<open>('w, 'a) act\<close> takes a state to a result and the state it leaves. Other than the
  results of the stream classes, an action that throws keeps the effects it had: a caller
  that catches the exception goes on with the same stream, and destructors run on the way.

  \<open>device_ops\<close> is the stream buffer behind a \<^verbatim>\<open>std::iostream\<close>, the
  only part of the outside world the protocol layer sees; \<open>iostream\<close> adds
  \<^verbatim>\<open>good()\<close>, with the unformatted operations of the standard library that
  the code uses. The locale \<open>input_device\<close> is what reading relies on: bytes that wait are
  read in order, and reading leaves alone whatever is \<open>kept\<close>. The locale \<open>duplex\<close> adds that
  what is written is accepted. How a device answers what it is sent is left open.

  The end of the theory models \<^verbatim>\<open>Core/Internal/Integer.hpp\<close>.
\<close>

subsection \<open>Actions\<close>

type_synonym ('w, 'a) act = "'w \<Rightarrow> (fault + 'a) \<times> 'w"

named_theorems run_simps \<open>running composed actions\<close>

definition ret :: "'a \<Rightarrow> ('w, 'a) act" where
  "ret x w = (Inr x, w)"

definition raise :: "fault \<Rightarrow> ('w, 'a) act" where
  "raise e w = (Inl e, w)"

definition bnd :: "('w, 'a) act \<Rightarrow> ('a \<Rightarrow> ('w, 'b) act) \<Rightarrow> ('w, 'b) act" where
  "bnd m f w = (case m w of (Inl e, w') \<Rightarrow> (Inl e, w') | (Inr x, w') \<Rightarrow> f x w')"

definition andthen :: "('w, 'a) act \<Rightarrow> ('w, 'b) act \<Rightarrow> ('w, 'b) act" where
  "andthen m k = bnd m (\<lambda>_. k)"

definition assertM :: "bool \<Rightarrow> ('w, unit) act" where
  "assertM P = (if P then ret () else raise AssertionFailed)"

text \<open>A part of the state is left alone; the left component here.\<close>

definition lift :: "('w, 'a) act \<Rightarrow> ('p \<times> 'w, 'a) act" where
  "lift m s = (case m (snd s) of (r, w) \<Rightarrow> (r, (fst s, w)))"

text \<open>
  A local object with a destructor: \<open>body\<close> runs on the object \<open>p\<close> and the state, and the
  destructor runs whether it returned or threw. (When the behaviour was undefined or an
  assertion failed there is no state to clean up; running it all the same does no harm.)
\<close>

definition with_local :: "'p \<Rightarrow> ('p \<times> 'w \<Rightarrow> 'w) \<Rightarrow> ('p \<times> 'w, 'a) act \<Rightarrow> ('w, 'a) act" where
  "with_local p destroy body w = (case body (p, w) of (r, s) \<Rightarrow> (r, destroy s))"

lemma run_bnd [run_simps]:
  "m w = (Inl e, w') \<Longrightarrow> bnd m f w = (Inl e, w')"
  "m w = (Inr x, w') \<Longrightarrow> bnd m f w = f x w'"
  by (simp_all add: bnd_def)

lemma run_andthen [run_simps]:
  "m w = (Inl e, w') \<Longrightarrow> andthen m k w = (Inl e, w')"
  "m w = (Inr x, w') \<Longrightarrow> andthen m k w = k w'"
  by (simp_all add: andthen_def bnd_def)

lemma run_ret [run_simps]: "ret x w = (Inr x, w)"
  by (simp add: ret_def)

lemma run_raise [run_simps]: "raise e w = (Inl e, w)"
  by (simp add: raise_def)

lemma run_assertM [run_simps]:
  "P \<Longrightarrow> assertM P w = (Inr (), w)" "\<not> P \<Longrightarrow> assertM P w = (Inl AssertionFailed, w)"
  by (simp_all add: assertM_def ret_def raise_def)

lemma run_lift [run_simps]: "m w = (r, w') \<Longrightarrow> lift m (p, w) = (r, (p, w'))"
  by (simp add: lift_def)

lemma run_with_local [run_simps]:
  "body (p, w) = (r, s) \<Longrightarrow> with_local p destroy body w = (r, destroy s)"
  by (simp add: with_local_def)

lemma bnd_assoc: "bnd (bnd m f) g = bnd m (\<lambda>x. bnd (f x) g)"
  by (auto simp: bnd_def fun_eq_iff split: prod.splits sum.splits)

lemma bnd_ret: "bnd m ret = m" and ret_bnd: "bnd (ret x) f = f x"
  by (auto simp: bnd_def ret_def fun_eq_iff split: prod.splits sum.splits)

subsection \<open>Loops\<close>

text \<open>
  \<^verbatim>\<open>while (true)\<close> around a body that goes on, with new values for the local
  variables, or leaves the loop with a result. A loop that never leaves is \<open>Diverges\<close>.
\<close>

datatype ('s, 'a) ctrl = Continue 's | Leave 'a

partial_function (option) iterate ::
  "('s \<Rightarrow> ('w, ('s, 'a) ctrl) act) \<Rightarrow> 's \<Rightarrow> 'w \<Rightarrow> ((fault + 'a) \<times> 'w) option" where
  "iterate body s w =
    (case body s w of
       (Inl e, w') \<Rightarrow> Some (Inl e, w')
     | (Inr c, w') \<Rightarrow>
         (case c of
            Leave x \<Rightarrow> Some (Inr x, w')
          | Continue s' \<Rightarrow> iterate body s' w'))"

definition forever :: "('s \<Rightarrow> ('w, ('s, 'a) ctrl) act) \<Rightarrow> 's \<Rightarrow> ('w, 'a) act" where
  "forever body s w = (case iterate body s w of None \<Rightarrow> (Inl Diverges, w) | Some r \<Rightarrow> r)"

lemma forever_throw: "body s w = (Inl e, w') \<Longrightarrow> forever body s w = (Inl e, w')"
  and forever_leave: "body s w = (Inr (Leave x), w') \<Longrightarrow> forever body s w = (Inr x, w')"
  by (simp_all add: forever_def iterate.simps [of body s w])

lemma forever_step:
  assumes "body s w = (Inr (Continue s'), w1)" and "forever body s' w1 = (r, w2)" and "r \<noteq> Inl Diverges"
  shows "forever body s w = (r, w2)"
  using assms by (simp add: forever_def iterate.simps [of body s w] split: option.splits)

subsection \<open>Devices and streams\<close>

record 'd device_ops =
  dRead :: "nat \<Rightarrow> 'd \<Rightarrow> byte list \<times> 'd"
  dBump :: "'d \<Rightarrow> byte option \<times> 'd"
  dWrite :: "byte list \<Rightarrow> 'd \<Rightarrow> nat \<times> 'd"
  dSync :: "'d \<Rightarrow> bool \<times> 'd"

record 'd iostream =
  isGood :: bool
  isDev :: 'd

text \<open>
  \<^verbatim>\<open>istream::read\<close>, \<^verbatim>\<open>ostream::write\<close> and
  \<^verbatim>\<open>std::flush\<close>: nothing happens on a stream that is not good, and a short
  transfer or a failed flush ends the good state.
\<close>

definition is_read :: "'d device_ops \<Rightarrow> nat \<Rightarrow> ('d iostream, byte list) act" where
  "is_read dops n io =
    (if \<not> isGood io then (Inr [], io)
     else case dRead dops n (isDev io) of (bs, d) \<Rightarrow>
       (Inr bs, io\<lparr>isGood := (length bs = n), isDev := d\<rparr>))"

definition os_write :: "'d device_ops \<Rightarrow> byte list \<Rightarrow> ('d iostream, unit) act" where
  "os_write dops bs io =
    (if \<not> isGood io then (Inr (), io)
     else case dWrite dops bs (isDev io) of (n, d) \<Rightarrow>
       (Inr (), io\<lparr>isGood := (n = length bs), isDev := d\<rparr>))"

definition os_flush :: "'d device_ops \<Rightarrow> ('d iostream, unit) act" where
  "os_flush dops io =
    (if \<not> isGood io then (Inr (), io)
     else case dSync dops (isDev io) of (ok, d) \<Rightarrow> (Inr (), io\<lparr>isGood := ok, isDev := d\<rparr>))"

definition good :: "('d iostream, bool) act" where
  "good io = (Inr (isGood io), io)"

locale input_device =
  fixes dops :: "'d device_ops"
    and dok :: "'d \<Rightarrow> bool"
    and pending :: "'d \<Rightarrow> byte list"
    and kept :: "'d \<Rightarrow> 'k"
  assumes dev_read: "dok d \<Longrightarrow> \<exists>d'. dRead dops n d = (take n (pending d), d') \<and> dok d' \<and>
      pending d' = drop n (pending d) \<and> kept d' = kept d"
    and dev_bump: "dok d \<Longrightarrow> \<exists>d'. dBump dops d = (hd_opt (pending d), d') \<and> dok d' \<and>
      pending d' = tl (pending d) \<and> kept d' = kept d"
begin

definition usable :: "'d iostream \<Rightarrow> bool" where
  "usable io \<longleftrightarrow> isGood io \<and> dok (isDev io)"

abbreviation waiting :: "'d iostream \<Rightarrow> byte list" where
  "waiting io \<equiv> pending (isDev io)"

abbreviation held :: "'d iostream \<Rightarrow> 'k" where
  "held io \<equiv> kept (isDev io)"

lemma is_read_ok:
  assumes "usable io" and "n \<le> length (waiting io)"
  obtains io' where "is_read dops n io = (Inr (take n (waiting io)), io')" "usable io'"
    "waiting io' = drop n (waiting io)" "held io' = held io"
proof -
  obtain d where "dRead dops n (isDev io) = (take n (waiting io), d)" "dok d"
    "pending d = drop n (waiting io)" "kept d = held io"
    using dev_read [of "isDev io" n] assms(1) by (auto simp: usable_def)
  with that [of "io\<lparr>isGood := True, isDev := d\<rparr>"] assms show thesis
    by (simp add: is_read_def usable_def)
qed

end

locale duplex = input_device dops dok pending sent
  for dops :: "'d device_ops"
    and dok :: "'d \<Rightarrow> bool"
    and pending :: "'d \<Rightarrow> byte list"
    and sent :: "'d \<Rightarrow> byte list" +
  assumes dev_write: "dok d \<Longrightarrow> \<exists>d'. dWrite dops bs d = (length bs, d') \<and> dok d' \<and> sent d' = sent d @ bs"
    and dev_sync: "dok d \<Longrightarrow> \<exists>d'. dSync dops d = (True, d') \<and> dok d' \<and> sent d' = sent d"
begin

abbreviation written :: "'d iostream \<Rightarrow> byte list" where
  "written io \<equiv> sent (isDev io)"

lemma os_write_ok:
  assumes "usable io"
  obtains io' where "os_write dops bs io = (Inr (), io')" "usable io'" "written io' = written io @ bs"
proof -
  obtain d where "dWrite dops bs (isDev io) = (length bs, d)" "dok d" "sent d = written io @ bs"
    using dev_write [of "isDev io" bs] assms by (auto simp: usable_def)
  with that [of "io\<lparr>isGood := True, isDev := d\<rparr>"] assms show thesis
    by (simp add: os_write_def usable_def)
qed

lemma os_flush_ok:
  assumes "usable io"
  obtains io' where "os_flush dops io = (Inr (), io')" "usable io'" "written io' = written io"
proof -
  obtain d where "dSync dops (isDev io) = (True, d)" "dok d" "sent d = written io"
    using dev_sync [of "isDev io"] assms by (auto simp: usable_def)
  with that [of "io\<lparr>isGood := True, isDev := d\<rparr>"] assms show thesis
    by (simp add: os_flush_def usable_def)
qed

end

subsection \<open>Integers in little-endian order\<close>

text \<open>
  The bytes of a value, the lowest first, and back. The width is that of the template argument.
\<close>

fun le_bytes :: "nat \<Rightarrow> nat \<Rightarrow> byte list" where
  "le_bytes 0 v = []"
| "le_bytes (Suc n) v = word_of_nat (v mod 256) # le_bytes n (v div 256)"

fun le_value :: "byte list \<Rightarrow> nat" where
  "le_value [] = 0"
| "le_value (b # bs) = unat b + 256 * le_value bs"

lemma length_le_bytes [simp]: "length (le_bytes n v) = n"
  by (induction n v rule: le_bytes.induct) simp_all

lemma le_value_le_bytes: "le_value (le_bytes n v) = v mod 256 ^ n"
proof (induction n v rule: le_bytes.induct)
  case (2 n v)
  then show ?case by (simp add: unat_byte_of_nat mod_mult2_eq add.commute)
qed simp

lemma le_bytes_le_value: "le_bytes (length bs) (le_value bs) = bs"
proof (induction bs)
  case (Cons b bs)
  have "unat b < 256" by simp
  then have "(unat b + 256 * le_value bs) mod 256 = unat b"
    "(unat b + 256 * le_value bs) div 256 = le_value bs" by simp_all
  with Cons show ?case by simp
qed simp

lemma le_value_less: "le_value bs < 256 ^ length bs"
proof (induction bs)
  case (Cons b bs)
  have "unat b < 256" by simp
  then have "unat b + 256 * le_value bs < 256 * Suc (le_value bs)" by simp
  also have "\<dots> \<le> 256 * 256 ^ length bs" using Cons by (intro mult_le_mono2) simp
  finally show ?case by simp
qed simp

text \<open>
  \<^verbatim>\<open>LittleToCpu\<close> swaps the bytes of a value on a big-endian machine and
  leaves it alone on a little-endian one. On both, the converted value has the bytes \<open>le_bytes\<close> in
  memory (\<open>object_bytes\<close>, lowest address first), and a value with the bytes \<open>bs\<close> in memory is
  converted to \<open>le_value bs\<close>: the functions below are the same on every machine.
\<close>

definition bswap :: "nat \<Rightarrow> nat \<Rightarrow> nat" where
  "bswap n v = le_value (rev (le_bytes n v))"

definition LittleToCpu :: "bool \<Rightarrow> nat \<Rightarrow> nat \<Rightarrow> nat" where
  "LittleToCpu big n v = (if big then bswap n v else v)"

definition object_bytes :: "bool \<Rightarrow> nat \<Rightarrow> nat \<Rightarrow> byte list" where
  "object_bytes big n v = (if big then rev (le_bytes n v) else le_bytes n v)"

lemma LittleToCpu_bytes: "object_bytes big n (LittleToCpu big n v) = le_bytes n v"
  using le_bytes_le_value [of "rev (le_bytes n v)"] by (simp add: object_bytes_def LittleToCpu_def bswap_def)

lemma LittleToCpu_value:
  assumes "v < 256 ^ n" and "object_bytes big n v = bs"
  shows "LittleToCpu big n v = le_value bs"
  using assms by (auto simp: object_bytes_def LittleToCpu_def bswap_def le_value_le_bytes)

text \<open>
  A value read from a stream that ends within it is indeterminate: using it is undefined
  behaviour. From a stream that is no longer good it is 0.
\<close>

definition ReadLittle :: "'d device_ops \<Rightarrow> nat \<Rightarrow> ('d iostream, nat) act" where
  "ReadLittle dops n =
    bnd good (\<lambda>g.
      if \<not> g then ret 0
      else bnd (is_read dops n) (\<lambda>bs.
        if length bs = n then ret (le_value bs) else raise UndefinedBehaviour))"

definition WriteLittle :: "'d device_ops \<Rightarrow> nat \<Rightarrow> nat \<Rightarrow> ('d iostream, unit) act" where
  "WriteLittle dops n v = bnd good (\<lambda>g. if g then os_write dops (le_bytes n v) else ret ())"

context input_device
begin

lemma ReadLittle_ok:
  assumes "usable io" and "waiting io = bs @ rest" and "length bs = n"
  obtains io' where "ReadLittle dops n io = (Inr (le_value bs), io')" "usable io'" "waiting io' = rest"
    "held io' = held io"
proof -
  have "n \<le> length (waiting io)" using assms(2,3) by simp
  then obtain io' where "is_read dops n io = (Inr bs, io')" "usable io'" "waiting io' = rest"
    "held io' = held io"
    using is_read_ok [OF assms(1), of n] assms(2,3) by auto
  with that [of io'] assms show thesis
    by (simp add: ReadLittle_def good_def run_simps usable_def)
qed

lemma ReadLittle_short:
  assumes "usable io" and "length (waiting io) < n"
  shows "fst (ReadLittle dops n io) = Inl UndefinedBehaviour"
proof -
  obtain d where "dRead dops n (isDev io) = (waiting io, d)"
    using dev_read [of "isDev io" n] assms by (auto simp: usable_def)
  then show ?thesis
    using assms by (simp add: ReadLittle_def good_def is_read_def run_simps usable_def bnd_def raise_def)
qed

end

context duplex
begin

lemma WriteLittle_ok:
  assumes "usable io"
  obtains io' where "WriteLittle dops n v io = (Inr (), io')" "usable io'"
    "written io' = written io @ le_bytes n v"
  using os_write_ok [OF assms, of "le_bytes n v"] assms
  by (auto simp: WriteLittle_def good_def run_simps usable_def)

end

end
