(* ===== verification/Packet.thy ===== *)
theory Packet
  imports Capt_Io
begin

text \<open>
  Packets: \<^verbatim>\<open>Core/PacketHeader\<close>, \<^verbatim>\<open>PacketBuilder\<close>,
  \<^verbatim>\<open>PacketReader\<close> and \<^verbatim>\<open>StreamPacket\<close>.

  A packet is a header of four bytes (opcode, size of the whole packet) and a payload. A
  \<open>StreamPacket\<close> refers to the stream its payload is read from, which is the stream the
  actions run on; \<open>pAttached\<close> tells whether the pointer is set. Its actions run on the
  pair of the packet and the stream.

  The main lemma is \<open>packet_boundary\<close>: a local \<open>StreamPacket\<close> takes exactly one
  packet from the stream, whatever its user reads and however it leaves.
\<close>

subsection \<open>Headers\<close>

record PacketHeader =
  Opcode :: u16
  PayloadSize :: u16

definition emptyPacketHeader :: PacketHeader where
  "emptyPacketHeader = \<lparr>Opcode = 0, PayloadSize = 0\<rparr>"

definition header_Size :: "PacketHeader \<Rightarrow> nat" where
  "header_Size h = unat (PayloadSize h) + 4"

definition WriteTo :: "'d device_ops \<Rightarrow> u16 \<Rightarrow> byte list \<Rightarrow> ('d iostream, unit) act" where
  "WriteTo dops opcode payload =
    bnd good (\<lambda>g.
      if \<not> g then ret ()
      else
        let sz = 4 + length payload
        in if sz > 65535 then raise (CaptFailure PacketSizeOverflow)
           else
             andthen (WriteLittle dops 2 (unat opcode))
            (andthen (WriteLittle dops 2 sz)
                     (os_write dops payload)))"

text \<open>
  \<^verbatim>\<open>operator>>\<close>: the opcode is stored before the size is looked at. When the
  stream fails in between, the old payload size stays.
\<close>

definition read_header :: "'d device_ops \<Rightarrow> (PacketHeader \<times> 'd iostream, unit) act" where
  "read_header dops =
    bnd (lift (ReadLittle dops 2)) (\<lambda>op s.
      (bnd (lift (ReadLittle dops 2)) (\<lambda>sz.
        bnd (lift good) (\<lambda>g.
          if \<not> g then ret ()
          else if sz < 4 then raise (CaptFailure ImpossiblePacketSize)
          else (\<lambda>(h, io). (Inr (), (h\<lparr>PayloadSize := word_of_nat (sz - 4)\<rparr>, io))))))
      ((fst s)\<lparr>Opcode := word_of_nat op\<rparr>, snd s))"

subsection \<open>Building a payload\<close>

text \<open>
  The type \<^verbatim>\<open>PacketBuilder<Size>\<close> is the list of its bytes; that it is
  instantiated for a size at all is its static assertion, \<open>builder_fits\<close>.
\<close>

definition builder_fits :: "byte list \<Rightarrow> bool" where
  "builder_fits b \<longleftrightarrow> length b + 4 \<le> 65535"

definition AppendByte :: "byte \<Rightarrow> byte list \<Rightarrow> byte list" where
  "AppendByte v b = b @ [v]"

definition AppendUint16 :: "u16 \<Rightarrow> byte list \<Rightarrow> byte list" where
  "AppendUint16 v b = b @ [ucast (v AND 0xff), ucast (drop_bit 8 v AND 0xff)]"

definition AppendUint32 :: "u32 \<Rightarrow> byte list \<Rightarrow> byte list" where
  "AppendUint32 v b = b @ [ucast (v AND 0xff), ucast (drop_bit 8 v AND 0xff),
    ucast (drop_bit 16 v AND 0xff), ucast (drop_bit 24 v AND 0xff)]"

definition AppendBytes :: "byte list \<Rightarrow> byte list \<Rightarrow> byte list" where
  "AppendBytes data b = b @ data"

subsection \<open>Reading a payload in memory\<close>

record PacketReader =
  prPayload :: "byte list"
  prIter :: nat

definition newPacketReader :: "byte list \<Rightarrow> PacketReader" where
  "newPacketReader payload = \<lparr>prPayload = payload, prIter = 0\<rparr>"

definition pr_ReadByte :: "(PacketReader, byte) act" where
  "pr_ReadByte r =
    (if prIter r = length (prPayload r) then (Inl (CaptFailure OutOfRange), r)
     else (Inr (prPayload r ! prIter r), r\<lparr>prIter := prIter r + 1\<rparr>))"

definition pr_ReadUint16 :: "(PacketReader, u16) act" where
  "pr_ReadUint16 =
    bnd pr_ReadByte (\<lambda>lo. bnd pr_ReadByte (\<lambda>hi. ret (push_bit 8 (ucast hi) OR ucast lo)))"

definition pr_ReadUint32 :: "(PacketReader, u32) act" where
  "pr_ReadUint32 =
    bnd pr_ReadByte (\<lambda>a. bnd pr_ReadByte (\<lambda>b. bnd pr_ReadByte (\<lambda>c. bnd pr_ReadByte (\<lambda>d.
      ret (((ucast a OR push_bit 8 (ucast b)) OR push_bit 16 (ucast c)) OR push_bit 24 (ucast d))))))"

definition pr_ReadBytes :: "nat \<Rightarrow> (PacketReader, byte list) act" where
  "pr_ReadBytes count r =
    (if length (prPayload r) - prIter r < count then (Inl (CaptFailure OutOfRange), r)
     else (Inr (take count (drop (prIter r) (prPayload r))), r\<lparr>prIter := prIter r + count\<rparr>))"

subsection \<open>Packets on a stream\<close>

record StreamPacket =
  pAttached :: bool
  pRemain :: nat
  pHeader :: PacketHeader

definition emptyStreamPacket :: StreamPacket where
  "emptyStreamPacket = \<lparr>pAttached = False, pRemain = 0, pHeader = emptyPacketHeader\<rparr>"

definition newStreamPacket :: "PacketHeader \<Rightarrow> StreamPacket" where
  "newStreamPacket h = \<lparr>pAttached = True, pRemain = unat (PayloadSize h), pHeader = h\<rparr>"

fun skip_bytes :: "'d device_ops \<Rightarrow> nat \<Rightarrow> 'd \<Rightarrow> 'd" where
  "skip_bytes dops 0 d = d"
| "skip_bytes dops (Suc n) d = skip_bytes dops n (snd (dBump dops d))"

definition Discard :: "'d device_ops \<Rightarrow> StreamPacket \<times> 'd iostream \<Rightarrow> StreamPacket \<times> 'd iostream" where
  "Discard dops s =
    (let p = fst s; io = snd s
     in if pRemain p = 0 then (p, io)
        else (p\<lparr>pRemain := 0\<rparr>,
              if pAttached p \<and> isGood io then io\<lparr>isDev := skip_bytes dops (pRemain p) (isDev io)\<rparr>
              else io))"

definition destroyStreamPacket :: "'d device_ops \<Rightarrow> StreamPacket \<times> 'd iostream \<Rightarrow> 'd iostream" where
  "destroyStreamPacket dops s = snd (Discard dops s)"

definition sp_ReadInt :: "'d device_ops \<Rightarrow> nat \<Rightarrow> (StreamPacket \<times> 'd iostream, nat) act" where
  "sp_ReadInt dops n s =
    (let p = fst s
     in andthen (assertM (pAttached p))
         (if pRemain p < n then raise (CaptFailure OutOfRange)
          else (\<lambda>(p, io). lift (ReadLittle dops n) (p\<lparr>pRemain := pRemain p - n\<rparr>, io))) s)"

definition sp_ReadByte :: "'d device_ops \<Rightarrow> (StreamPacket \<times> 'd iostream, byte) act" where
  "sp_ReadByte dops = bnd (sp_ReadInt dops 1) (\<lambda>v. ret (word_of_nat v))"

definition sp_ReadUint16 :: "'d device_ops \<Rightarrow> (StreamPacket \<times> 'd iostream, u16) act" where
  "sp_ReadUint16 dops = bnd (sp_ReadInt dops 2) (\<lambda>v. ret (word_of_nat v))"

definition sp_ReadUint32 :: "'d device_ops \<Rightarrow> (StreamPacket \<times> 'd iostream, u32) act" where
  "sp_ReadUint32 dops = bnd (sp_ReadInt dops 4) (\<lambda>v. ret (word_of_nat v))"

text \<open>\<open>dest\<close> is the old content of the destination; the new content is returned.\<close>

definition sp_ReadBytes :: "'d device_ops \<Rightarrow> byte list \<Rightarrow> (StreamPacket \<times> 'd iostream, byte list) act" where
  "sp_ReadBytes dops dest s =
    (let p = fst s
     in andthen (assertM (pAttached p))
         (if length dest > pRemain p then raise (CaptFailure OutOfRange)
          else bnd (lift (is_read dops (length dest))) (\<lambda>bs (p, io).
            (Inr (bs @ drop (length bs) dest), (p\<lparr>pRemain := pRemain p - length dest\<rparr>, io)))) s)"

definition read_packet :: "'d device_ops \<Rightarrow> (StreamPacket \<times> 'd iostream, unit) act" where
  "read_packet dops s =
    (let (p, io) = Discard dops s
     in case read_header dops (pHeader p, io) of
          (Inl e, (h, io')) \<Rightarrow> (Inl e, (p\<lparr>pHeader := h\<rparr>, io'))
        | (Inr _, (h, io')) \<Rightarrow>
            (Inr (), (p\<lparr>pHeader := h, pRemain := unat (PayloadSize h), pAttached := True\<rparr>, io')))"

text \<open>Moving: the new packet and what is left of the other one.\<close>

definition sp_move_ctor :: "StreamPacket \<Rightarrow> StreamPacket \<times> StreamPacket" where
  "sp_move_ctor other =
    (\<lparr>pAttached = pAttached other, pRemain = pRemain other, pHeader = pHeader other\<rparr>,
     other\<lparr>pAttached := False, pRemain := 0\<rparr>)"

definition sp_move_assign :: "StreamPacket \<Rightarrow> StreamPacket \<Rightarrow> StreamPacket \<times> StreamPacket" where
  "sp_move_assign this other =
    (this\<lparr>pAttached := pAttached other, pRemain := pRemain other, pHeader := pHeader other\<rparr>,
     other\<lparr>pAttached := False, pRemain := 0\<rparr>)"

subsection \<open>Bytes of integers\<close>

lemma low_byte: "(ucast ((v :: 'a :: len word) AND 0xff) :: byte) = word_of_nat (unat v mod 256)"
proof -
  have m: "v AND 0xff = take_bit 8 v" by (simp only: take_bit_eq_mask) (simp add: mask_eq_exp_minus_1)
  have "unat (ucast (v AND 0xff) :: byte) = take_bit 8 (take_bit LENGTH(8) (unat v))"
    by (simp only: m unsigned_ucast_eq unsigned_take_bit_eq)
  then show ?thesis
    by (simp only: word_unat_eq_iff) (simp add: unat_of_nat take_bit_eq_mod)
qed

lemma high_byte:
  "(ucast (drop_bit n (v :: 'a :: len word) AND 0xff) :: byte) = word_of_nat (unat v div 2 ^ n mod 256)"
  by (simp only: low_byte unat_drop_bit_eq drop_bit_eq_div [where ?'a = nat])

lemma le_bytes_2: "le_bytes 2 n = [word_of_nat (n mod 256), word_of_nat (n div 256 mod 256)]"
proof -
  have "(2 :: nat) = Suc (Suc 0)" by simp
  then show ?thesis by (simp only: le_bytes.simps)
qed

lemma le_bytes_4: "le_bytes 4 n = [word_of_nat (n mod 256), word_of_nat (n div 256 mod 256),
  word_of_nat (n div 256 div 256 mod 256), word_of_nat (n div 256 div 256 div 256 mod 256)]"
proof -
  have "(4 :: nat) = Suc (Suc (Suc (Suc 0)))" by simp
  then show ?thesis by (simp only: le_bytes.simps)
qed

lemma AppendUint16_bytes: "AppendUint16 v b = b @ le_bytes 2 (unat v)"
proof -
  have e: "(2 :: nat) ^ 8 = 256" by simp
  show ?thesis unfolding AppendUint16_def high_byte le_bytes_2 by (simp only: low_byte e)
qed

lemma AppendUint32_bytes: "AppendUint32 v b = b @ le_bytes 4 (unat v)"
proof -
  have e: "(2 :: nat) ^ 8 = 256" "(2 :: nat) ^ 16 = 256 * 256" "(2 :: nat) ^ 24 = 256 * 256 * 256" by simp_all
  show ?thesis unfolding AppendUint32_def high_byte le_bytes_4 by (simp only: low_byte e div_mult2_eq)
qed

subsection \<open>Packets on a lawful device\<close>

definition packet_bytes :: "u16 \<Rightarrow> byte list \<Rightarrow> byte list" where
  "packet_bytes opcode payload = le_bytes 2 (unat opcode) @ le_bytes 2 (4 + length payload) @ payload"

text \<open>Reading an integer, on the payload alone.\<close>

definition take_int :: "nat \<Rightarrow> (byte list, nat) act" where
  "take_int n pl =
    (if length pl < n then (Inl (CaptFailure OutOfRange), pl)
     else (Inr (le_value (take n pl)), drop n pl))"

definition take_byte :: "(byte list, byte) act" where
  "take_byte = bnd (take_int 1) (\<lambda>v. ret (word_of_nat v))"

definition take_uint16 :: "(byte list, u16) act" where
  "take_uint16 = bnd (take_int 2) (\<lambda>v. ret (word_of_nat v))"

lemma unat_u16_less: "unat (v :: u16) < 65536"
  using unsigned_less [of v] by simp

lemma le_value_2: "word_of_nat (le_value (le_bytes 2 (unat (v :: u16)))) = v"
proof -
  have "unat v mod 65536 = unat v" by (rule mod_less [OF unat_u16_less])
  then show ?thesis by (simp add: le_value_le_bytes)
qed

named_theorems payload_steps \<open>actions on a packet that are actions on its payload\<close>

context duplex
begin

lemma WriteTo_ok:
  assumes "usable io" and "length payload + 4 \<le> 65535"
  obtains io' where "WriteTo dops opcode payload io = (Inr (), io')" "usable io'"
    "written io' = written io @ packet_bytes opcode payload"
proof -
  obtain io1 where io1: "WriteLittle dops 2 (unat opcode) io = (Inr (), io1)" "usable io1"
    "written io1 = written io @ le_bytes 2 (unat opcode)"
    using assms(1) by (rule WriteLittle_ok)
  obtain io2 where io2: "WriteLittle dops 2 (4 + length payload) io1 = (Inr (), io2)" "usable io2"
    "written io2 = written io1 @ le_bytes 2 (4 + length payload)"
    using io1(2) by (rule WriteLittle_ok)
  obtain io3 where io3: "os_write dops payload io2 = (Inr (), io3)" "usable io3"
    "written io3 = written io2 @ payload"
    using io2(2) by (rule os_write_ok)
  have "isGood io" using assms(1) by (simp add: usable_def)
  with io1 io2 io3 assms(2) that [of io3] show thesis
    by (simp add: WriteTo_def good_def run_simps packet_bytes_def)
qed

end

context input_device
begin

lemma skip_bytes_ok:
  "dok d \<Longrightarrow> dok (skip_bytes dops n d) \<and> pending (skip_bytes dops n d) = drop n (pending d) \<and>
    kept (skip_bytes dops n d) = kept d"
proof (induction n arbitrary: d)
  case (Suc n)
  obtain d' where "dBump dops d = (hd_opt (pending d), d')" "dok d'" "pending d' = tl (pending d)"
    "kept d' = kept d"
    using dev_bump [OF Suc.prems] by blast
  with Suc.IH [of d'] show ?case by (simp add: drop_Suc)
qed simp

text \<open>
  The state while a packet is read: \<open>pl\<close> is the payload not yet read, \<open>rest\<close> what
  follows the packet, \<open>W\<close> what is kept.
\<close>

definition holds ::
  "PacketHeader \<Rightarrow> byte list \<Rightarrow> byte list \<Rightarrow> 'k \<Rightarrow> StreamPacket \<times> 'd iostream \<Rightarrow> bool" where
  "holds hdr pl rest W s \<longleftrightarrow>
    pAttached (fst s) \<and> pRemain (fst s) = length pl \<and> pHeader (fst s) = hdr \<and>
    usable (snd s) \<and> waiting (snd s) = pl @ rest \<and> held (snd s) = W"

definition on_payload ::
  "PacketHeader \<Rightarrow> (StreamPacket \<times> 'd iostream, 'a) act \<Rightarrow> (byte list, 'a) act \<Rightarrow> bool" where
  "on_payload hdr m f \<longleftrightarrow>
    (\<forall>pl rest W s. holds hdr pl rest W s \<longrightarrow>
      (\<exists>s'. m s = (fst (f pl), s') \<and> holds hdr (snd (f pl)) rest W s'))"

lemma on_payloadE:
  assumes "on_payload hdr m f" and "holds hdr pl rest W s"
  obtains s' where "m s = (fst (f pl), s')" "holds hdr (snd (f pl)) rest W s'"
  using assms unfolding on_payload_def by blast

lemma on_payload_ret [payload_steps]: "on_payload hdr (ret x) (ret x)"
  and on_payload_raise [payload_steps]: "on_payload hdr (raise e) (raise e)"
  by (simp_all add: on_payload_def ret_def raise_def)

lemma on_payload_if [payload_steps]:
  "(P \<Longrightarrow> on_payload hdr m f) \<Longrightarrow> (\<not> P \<Longrightarrow> on_payload hdr m' f') \<Longrightarrow>
    on_payload hdr (if P then m else m') (if P then f else f')"
  by simp

lemma on_payload_bnd [payload_steps]:
  assumes "on_payload hdr m f" and "\<And>x. on_payload hdr (k x) (g x)"
  shows "on_payload hdr (bnd m k) (bnd f g)"
  unfolding on_payload_def
proof (intro allI impI)
  fix pl rest W s assume "holds hdr pl rest W s"
  with assms(1) obtain s1 where s1: "m s = (fst (f pl), s1)" "holds hdr (snd (f pl)) rest W s1"
    by (rule on_payloadE)
  show "\<exists>s'. bnd m k s = (fst (bnd f g pl), s') \<and> holds hdr (snd (bnd f g pl)) rest W s'"
  proof (cases "fst (f pl)")
    case (Inl e)
    then have "f pl = (Inl e, snd (f pl))" by (metis prod.collapse)
    with s1 Inl show ?thesis using run_bnd(1) [of f pl e "snd (f pl)" g] by (simp add: run_simps)
  next
    case (Inr x)
    then have f: "f pl = (Inr x, snd (f pl))" by (metis prod.collapse)
    obtain s2 where "k x s1 = (fst (g x (snd (f pl))), s2)" "holds hdr (snd (g x (snd (f pl)))) rest W s2"
      using assms(2) s1(2) by (rule on_payloadE)
    with s1 Inr show ?thesis using run_bnd(2) [of f pl x "snd (f pl)" g] f by (simp add: run_simps)
  qed
qed

lemma on_payload_andthen [payload_steps]:
  "on_payload hdr m f \<Longrightarrow> on_payload hdr k g \<Longrightarrow> on_payload hdr (andthen m k) (andthen f g)"
  unfolding andthen_def by (rule on_payload_bnd)

lemma sp_ReadInt_payload [payload_steps]: "on_payload hdr (sp_ReadInt dops n) (take_int n)"
  unfolding on_payload_def
proof (intro allI impI)
  fix pl rest W and s :: "StreamPacket \<times> 'd iostream"
  assume s: "holds hdr pl rest W s"
  obtain p io where p: "s = (p, io)" by (cases s)
  show "\<exists>s'. sp_ReadInt dops n s = (fst (take_int n pl), s') \<and> holds hdr (snd (take_int n pl)) rest W s'"
  proof (cases "length pl < n")
    case True
    with s p show ?thesis by (simp add: sp_ReadInt_def take_int_def holds_def run_simps)
  next
    case False
    have "usable io" "waiting io = take n pl @ (drop n pl @ rest)" "length (take n pl) = n"
      using s p False by (simp_all add: holds_def)
    then obtain io' where "ReadLittle dops n io = (Inr (le_value (take n pl)), io')" "usable io'"
      "waiting io' = drop n pl @ rest" "held io' = held io"
      by (rule ReadLittle_ok)
    with s p False show ?thesis by (simp add: sp_ReadInt_def take_int_def holds_def run_simps)
  qed
qed

lemma sp_ReadByte_payload [payload_steps]: "on_payload hdr (sp_ReadByte dops) take_byte"
  and sp_ReadUint16_payload [payload_steps]: "on_payload hdr (sp_ReadUint16 dops) take_uint16"
  unfolding sp_ReadByte_def sp_ReadUint16_def take_byte_def take_uint16_def
  by (intro payload_steps)+

lemma destroy_holds:
  assumes "holds hdr pl rest W s"
  shows "usable (destroyStreamPacket dops s)" "waiting (destroyStreamPacket dops s) = rest"
    "held (destroyStreamPacket dops s) = W"
  using assms skip_bytes_ok [of "isDev (snd s)" "length pl"]
  by (auto simp: destroyStreamPacket_def Discard_def holds_def usable_def Let_def)

lemma read_header_ok:
  assumes "usable io" and "waiting io = packet_bytes opcode payload @ rest"
    and "length payload + 4 \<le> 65535"
  obtains io' where "read_header dops (h, io) =
      (Inr (), (\<lparr>Opcode = opcode, PayloadSize = word_of_nat (length payload)\<rparr>, io'))"
    "usable io'" "waiting io' = payload @ rest" "held io' = held io"
proof -
  obtain io1 where io1: "ReadLittle dops 2 io = (Inr (le_value (le_bytes 2 (unat opcode))), io1)"
    "usable io1" "waiting io1 = le_bytes 2 (4 + length payload) @ payload @ rest" "held io1 = held io"
    by (rule ReadLittle_ok [OF assms(1), of "le_bytes 2 (unat opcode)"
        "le_bytes 2 (4 + length payload) @ payload @ rest" 2])
      (simp_all add: assms(2) packet_bytes_def)
  obtain io2 where io2: "ReadLittle dops 2 io1 = (Inr (le_value (le_bytes 2 (4 + length payload))), io2)"
    "usable io2" "waiting io2 = payload @ rest" "held io2 = held io1"
    by (rule ReadLittle_ok [OF io1(2,3)]) simp
  have sz: "le_value (le_bytes 2 (4 + length payload)) = 4 + length payload"
    using assms(3) by (simp add: le_value_le_bytes)
  have "isGood io2" using io2(2) by (simp add: usable_def)
  with io1 io2 sz that [of io2] show thesis
    by (cases h) (simp add: read_header_def run_simps good_def le_value_2)
qed

lemma read_packet_ok:
  assumes "usable io" and "waiting io = packet_bytes opcode payload @ rest"
    and "length payload + 4 \<le> 65535"
  obtains s where "read_packet dops (emptyStreamPacket, io) = (Inr (), s)"
    "holds \<lparr>Opcode = opcode, PayloadSize = word_of_nat (length payload)\<rparr> payload rest (held io) s"
proof -
  obtain io' where io': "read_header dops (emptyPacketHeader, io) =
      (Inr (), (\<lparr>Opcode = opcode, PayloadSize = word_of_nat (length payload)\<rparr>, io'))"
    "usable io'" "waiting io' = payload @ rest" "held io' = held io"
    using assms by (rule read_header_ok)
  have "unat (word_of_nat (length payload) :: u16) = length payload"
    using assms(3) by (simp add: unat_of_nat)
  with io' that show thesis
    by (simp add: read_packet_def Discard_def emptyStreamPacket_def holds_def Let_def)
qed

text \<open>
  A local packet: the result is that of the body on the payload, and the stream stands at
  the byte after the packet, also when the body throws or leaves bytes unread.
\<close>

lemma packet_boundary:
  assumes "usable io" and "waiting io = packet_bytes opcode payload @ rest"
    and "length payload + 4 \<le> 65535"
    and "on_payload \<lparr>Opcode = opcode, PayloadSize = word_of_nat (length payload)\<rparr> body f"
  obtains io' where
    "with_local emptyStreamPacket (destroyStreamPacket dops) (andthen (read_packet dops) body) io =
      (fst (f payload), io')"
    "usable io'" "waiting io' = rest" "held io' = held io"
proof -
  obtain s where s: "read_packet dops (emptyStreamPacket, io) = (Inr (), s)"
    "holds \<lparr>Opcode = opcode, PayloadSize = word_of_nat (length payload)\<rparr> payload rest (held io) s"
    using assms(1-3) by (rule read_packet_ok)
  obtain s' where s': "body s = (fst (f payload), s')"
    "holds \<lparr>Opcode = opcode, PayloadSize = word_of_nat (length payload)\<rparr> (snd (f payload)) rest (held io) s'"
    using assms(4) s(2) by (rule on_payloadE)
  show thesis
    by (rule that [of "destroyStreamPacket dops s'"])
      (use s s' destroy_holds [OF s'(2)] in \<open>simp_all add: run_simps\<close>)
qed

end

end
