(* ===== verification/Protocol.thy ===== *)
theory Protocol
  imports Packet
begin

text \<open>
  The commands of the protocol: \<^verbatim>\<open>Protocol/Protocol.cpp\<close>.

  A command writes its request and flushes; those with an answer then read one packet into
  a local \<open>StreamPacket\<close>, check its opcode and read their results from the payload. An
  exception leaves through the destructor of the packet, which skips what was not read.

  For each answer the part that reads the payload is also given as an action on the payload
  alone (\<open>reply_\<close>); the lemmas in \<open>payload_steps\<close> relate the two, and
  \<open>exchange_ok\<close> says what a command does on a device that answers with any packet.
\<close>

subsection \<open>Requests\<close>

definition request :: "'d device_ops \<Rightarrow> u16 \<Rightarrow> byte list \<Rightarrow> ('d iostream, unit) act" where
  "request dops opcode payload = andthen (WriteTo dops opcode payload) (os_flush dops)"

definition begin_page_payload :: "PageParams \<Rightarrow> byte list" where
  "begin_page_payload params =
    (AppendUint16 (PaperHeight params) \<circ>
     AppendUint16 (PaperWidth params) \<circ>
     AppendUint16 (ImageLines params) \<circ>
     AppendUint16 (ImageLineSize params) \<circ>
     AppendUint16 (MarginTop params) \<circ>
     AppendUint16 (MarginLeft params) \<circ>
     AppendByte 0 \<circ>
     AppendByte 0 \<circ>
     AppendByte (if TonerSaving params then 1 else 0) \<circ>
     AppendByte (if SmoothEnable params then 2 else 0) \<circ>
     AppendByte 1 \<circ>
     AppendByte 1 \<circ>
     AppendByte 1 \<circ>
     AppendByte 3 \<circ>
     AppendByte (Resolution params) \<circ>
     AppendByte (Mode params) \<circ>
     AppendByte (TonerDensity params) \<circ>
     AppendByte (TonerDensity params) \<circ>
     AppendByte (TonerDensity params) \<circ>
     AppendByte (TonerDensity params) \<circ>
     AppendByte 0 \<circ>
     AppendByte 1 \<circ>
     AppendByte 1 \<circ>
     AppendByte (PaperSize params) \<circ>
     AppendUint16 0x03fc \<circ>
     AppendUint16 0) []"

definition IC_BEGIN_PAGE :: "'d device_ops \<Rightarrow> PageParams \<Rightarrow> ('d iostream, unit) act" where
  "IC_BEGIN_PAGE dops params = request dops 0xD0A0 (begin_page_payload params)"

definition IC_BEGIN_DATA :: "'d device_ops \<Rightarrow> ('d iostream, unit) act" where
  "IC_BEGIN_DATA dops = request dops 0xD0A1 []"

definition IC_END_PAGE :: "'d device_ops \<Rightarrow> ('d iostream, unit) act" where
  "IC_END_PAGE dops = request dops 0xD0A2 []"

definition IC_VIDEO_DATA :: "'d device_ops \<Rightarrow> byte list \<Rightarrow> ('d iostream, unit) act" where
  "IC_VIDEO_DATA dops data = request dops 0xC0A0 data"

subsection \<open>Answers\<close>

definition checkOpcode :: "u16 \<Rightarrow> u16 \<Rightarrow> ('w, unit) act" where
  "checkOpcode actual expected =
    (if actual \<noteq> expected then raise (CaptFailure (UnexpectedOpcode actual expected)) else ret ())"

definition packet_opcode :: "(StreamPacket \<times> 'd iostream, u16) act" where
  "packet_opcode s = (Inr (Opcode (pHeader (fst s))), s)"

text \<open>\<^verbatim>\<open>StreamPacket packet; stream >> packet; checkOpcode(...)\<close> and the rest of the scope.\<close>

definition answer ::
  "'d device_ops \<Rightarrow> u16 \<Rightarrow> (StreamPacket \<times> 'd iostream, 'a) act \<Rightarrow> ('d iostream, 'a) act" where
  "answer dops expected body =
    with_local emptyStreamPacket (destroyStreamPacket dops)
      (andthen (read_packet dops)
        (bnd packet_opcode (\<lambda>op. andthen (checkOpcode op expected) body)))"

definition status_body :: "'d device_ops \<Rightarrow> (StreamPacket \<times> 'd iostream, ExtendedStatus) act" where
  "status_body dops =
    bnd (sp_ReadByte dops) (\<lambda>basic.
      if basic AND ERROR_BIT \<noteq> 0 then raise (CaptFailure (StatusError basic))
      else
        bnd (sp_ReadByte dops) (\<lambda>changed.
        bnd (sp_ReadByte dops) (\<lambda>aux.
        bnd (sp_ReadByte dops) (\<lambda>controller.
        bnd (sp_ReadByte dops) (\<lambda>paper.
        bnd (sp_ReadByte dops) (\<lambda>_.
        bnd (sp_ReadUint16 dops) (\<lambda>engine.
        bnd (sp_ReadUint16 dops) (\<lambda>start.
        bnd (sp_ReadUint16 dops) (\<lambda>printing.
        bnd (sp_ReadUint16 dops) (\<lambda>shipped.
        bnd (sp_ReadUint16 dops) (\<lambda>printed.
          ret \<lparr>Basic = basic, Changed = changed, Aux = aux, Controller = controller,
               PaperAvailableBits = paper, Engine = engine, Start = start, Printing = printing,
               Shipped = shipped, Printed = printed\<rparr>)))))))))))"

definition PC_GET_EXTENDED_STATUS :: "'d device_ops \<Rightarrow> ('d iostream, ExtendedStatus) act" where
  "PC_GET_EXTENDED_STATUS dops =
    andthen (request dops 0xA0A0 []) (answer dops 0xA0A0 (status_body dops))"

definition info_body :: "'d device_ops \<Rightarrow> (StreamPacket \<times> 'd iostream, PrinterInfo) act" where
  "info_body dops =
    bnd (sp_ReadByte dops) (\<lambda>_.
    bnd (sp_ReadByte dops) (\<lambda>_.
    bnd (sp_ReadByte dops) (\<lambda>deviceId.
    bnd (sp_ReadByte dops) (\<lambda>type.
    bnd (sp_ReadByte dops) (\<lambda>major.
    bnd (sp_ReadByte dops) (\<lambda>minor.
    bnd (sp_ReadUint16 dops) (\<lambda>blockSize.
    bnd (sp_ReadUint16 dops) (\<lambda>buffers.
      ret \<lparr>DeviceId = deviceId, infoType = type, VersionMajor = major, VersionMinor = minor,
           BlockSize = blockSize, Buffers = buffers\<rparr>))))))))"

definition PC_GET_PRINTER_INFO :: "'d device_ops \<Rightarrow> ('d iostream, PrinterInfo) act" where
  "PC_GET_PRINTER_INFO dops =
    andthen (request dops 0xA1A1 []) (answer dops 0xA1A1 (info_body dops))"

text \<open>The flag is whether the pointer \<^verbatim>\<open>changed\<close> is set; then its value is returned, too.\<close>

definition basic_body :: "'d device_ops \<Rightarrow> bool \<Rightarrow> (StreamPacket \<times> 'd iostream, byte \<times> byte option) act" where
  "basic_body dops changed =
    bnd (sp_ReadByte dops) (\<lambda>status.
      if changed then bnd (sp_ReadByte dops) (\<lambda>c. ret (status, Some c)) else ret (status, None))"

definition PCR_GET_BASIC_STATUS ::
  "'d device_ops \<Rightarrow> bool \<Rightarrow> ('d iostream, byte \<times> byte option) act" where
  "PCR_GET_BASIC_STATUS dops changed =
    andthen (request dops 0xE0A0 []) (answer dops 0xE0A0 (basic_body dops changed))"

definition online_payload :: "u16 \<Rightarrow> byte list" where
  "online_payload pageNumber =
    (AppendByte 0 \<circ> AppendByte 0 \<circ> AppendUint16 pageNumber \<circ> AppendUint32 0xadeadbee) []"

definition PCR_GO_ONLINE :: "'d device_ops \<Rightarrow> u16 \<Rightarrow> ('d iostream, byte) act" where
  "PCR_GO_ONLINE dops pageNumber =
    andthen (request dops 0xE0A5 (online_payload pageNumber))
      (answer dops 0xE0A5 (sp_ReadByte dops))"

definition PCR_CLEANING :: "'d device_ops \<Rightarrow> ('d iostream, byte) act" where
  "PCR_CLEANING dops =
    andthen (request dops 0xE0AD
        ((AppendByte 0 \<circ> AppendByte 0 \<circ> AppendUint16 1 \<circ> AppendUint32 0xadeadbee) []))
      (answer dops 0xE0AD (sp_ReadByte dops))"

definition execCmd :: "'d device_ops \<Rightarrow> u16 \<Rightarrow> ('d iostream, byte) act" where
  "execCmd dops opcode = andthen (request dops opcode []) (answer dops opcode (sp_ReadByte dops))"

definition PC_RESERVE_UNIT :: "'d device_ops \<Rightarrow> ('d iostream, byte) act" where
  "PC_RESERVE_UNIT dops = execCmd dops 0xA2A0"

definition PCR_DISCARD_DATA :: "'d device_ops \<Rightarrow> ('d iostream, byte) act" where
  "PCR_DISCARD_DATA dops = execCmd dops 0xE0A4"

definition PCR_CLEAR_ERROR :: "'d device_ops \<Rightarrow> ('d iostream, byte) act" where
  "PCR_CLEAR_ERROR dops = execCmd dops 0xE0A2"

definition PCR_GO_OFFLINE :: "'d device_ops \<Rightarrow> ('d iostream, byte) act" where
  "PCR_GO_OFFLINE dops = execCmd dops 0xE0A6"

definition PCR_RELEASE_UNIT :: "'d device_ops \<Rightarrow> ('d iostream, byte) act" where
  "PCR_RELEASE_UNIT dops = execCmd dops 0xE0A9"

definition PCR_CLEAR_MISPRINT :: "'d device_ops \<Rightarrow> ('d iostream, byte) act" where
  "PCR_CLEAR_MISPRINT dops = execCmd dops 0xE0A3"

definition PCR_RESET_ENGINE :: "'d device_ops \<Rightarrow> ('d iostream, byte) act" where
  "PCR_RESET_ENGINE dops = execCmd dops 0xE0A1"

subsection \<open>The payload of an answer\<close>

definition checked :: "u16 \<Rightarrow> u16 \<Rightarrow> (byte list, 'a) act \<Rightarrow> (byte list, 'a) act" where
  "checked actual expected f = andthen (checkOpcode actual expected) f"

definition reply_status :: "(byte list, ExtendedStatus) act" where
  "reply_status =
    bnd take_byte (\<lambda>basic.
      if basic AND ERROR_BIT \<noteq> 0 then raise (CaptFailure (StatusError basic))
      else
        bnd take_byte (\<lambda>changed. bnd take_byte (\<lambda>aux. bnd take_byte (\<lambda>controller.
        bnd take_byte (\<lambda>paper. bnd take_byte (\<lambda>_. bnd take_uint16 (\<lambda>engine.
        bnd take_uint16 (\<lambda>start. bnd take_uint16 (\<lambda>printing. bnd take_uint16 (\<lambda>shipped.
        bnd take_uint16 (\<lambda>printed.
          ret \<lparr>Basic = basic, Changed = changed, Aux = aux, Controller = controller,
               PaperAvailableBits = paper, Engine = engine, Start = start, Printing = printing,
               Shipped = shipped, Printed = printed\<rparr>)))))))))))"

definition reply_info :: "(byte list, PrinterInfo) act" where
  "reply_info =
    bnd take_byte (\<lambda>_. bnd take_byte (\<lambda>_. bnd take_byte (\<lambda>deviceId. bnd take_byte (\<lambda>type.
    bnd take_byte (\<lambda>major. bnd take_byte (\<lambda>minor. bnd take_uint16 (\<lambda>blockSize.
    bnd take_uint16 (\<lambda>buffers.
      ret \<lparr>DeviceId = deviceId, infoType = type, VersionMajor = major, VersionMinor = minor,
           BlockSize = blockSize, Buffers = buffers\<rparr>))))))))"

definition reply_basic :: "bool \<Rightarrow> (byte list, byte \<times> byte option) act" where
  "reply_basic changed =
    bnd take_byte (\<lambda>status.
      if changed then bnd take_byte (\<lambda>c. ret (status, Some c)) else ret (status, None))"

context input_device
begin

lemma packet_opcode_payload [payload_steps]: "on_payload hdr packet_opcode (ret (Opcode hdr))"
  by (simp add: on_payload_def packet_opcode_def holds_def ret_def)

lemma checkOpcode_payload [payload_steps]: "on_payload hdr (checkOpcode a e) (checkOpcode a e)"
  unfolding checkOpcode_def by (intro payload_steps)

lemma status_payload_steps [payload_steps]: "on_payload hdr (status_body dops) reply_status"
  and info_payload_steps [payload_steps]: "on_payload hdr (info_body dops) reply_info"
  and basic_payload_steps [payload_steps]: "on_payload hdr (basic_body dops changed) (reply_basic changed)"
  unfolding status_body_def reply_status_def info_body_def reply_info_def basic_body_def reply_basic_def
  by (intro payload_steps)+

lemma answer_ok:
  assumes "usable io" and "waiting io = packet_bytes opcode payload @ rest"
    and "length payload + 4 \<le> 65535" and "\<And>hdr. on_payload hdr body f"
  obtains io' where "answer dops expected body io = (fst (checked opcode expected f payload), io')"
    "usable io'" "waiting io' = rest" "held io' = held io"
proof -
  let ?hdr = "\<lparr>Opcode = opcode, PayloadSize = word_of_nat (length payload)\<rparr>"
  have "on_payload ?hdr (bnd packet_opcode (\<lambda>op. andthen (checkOpcode op expected) body))
      (bnd (ret (Opcode ?hdr)) (\<lambda>op. andthen (checkOpcode op expected) f))"
    by (intro payload_steps assms(4))
  then have "on_payload ?hdr (bnd packet_opcode (\<lambda>op. andthen (checkOpcode op expected) body))
      (checked opcode expected f)"
    by (simp add: ret_bnd checked_def)
  from packet_boundary [OF assms(1-3) this] that show thesis
    unfolding answer_def by blast
qed

end

context duplex
begin

lemma request_ok:
  assumes "usable io" and "length payload + 4 \<le> 65535"
  obtains io' where "request dops opcode payload io = (Inr (), io')" "usable io'"
    "written io' = written io @ packet_bytes opcode payload"
proof -
  obtain io1 where io1: "WriteTo dops opcode payload io = (Inr (), io1)" "usable io1"
    "written io1 = written io @ packet_bytes opcode payload"
    using assms by (rule WriteTo_ok)
  obtain io2 where "os_flush dops io1 = (Inr (), io2)" "usable io2" "written io2 = written io1"
    using io1(2) by (rule os_flush_ok)
  with io1 that [of io2] show thesis by (simp add: request_def run_simps)
qed

text \<open>
  A whole exchange: the request goes out; when the device then has one packet waiting, the
  result is that of the reply on its payload, and the stream stands behind the packet.
\<close>

definition after_request :: "u16 \<Rightarrow> byte list \<Rightarrow> 'd iostream \<Rightarrow> 'd iostream" where
  "after_request opcode payload io = snd (request dops opcode payload io)"

lemma exchange_ok:
  assumes "usable io" and "length req + 4 \<le> 65535" and "length payload + 4 \<le> 65535"
    and "waiting (after_request op req io) = packet_bytes opcode payload @ rest"
    and "\<And>hdr. on_payload hdr body f"
  obtains io' where "andthen (request dops op req) (answer dops expected body) io =
      (fst (checked opcode expected f payload), io')"
    "usable io'" "waiting io' = rest" "written io' = written io @ packet_bytes op req"
proof -
  obtain io1 where io1: "request dops op req io = (Inr (), io1)" "usable io1"
    "written io1 = written io @ packet_bytes op req"
    using assms(1,2) by (rule request_ok)
  have "waiting io1 = packet_bytes opcode payload @ rest"
    using assms(4) io1(1) by (simp add: after_request_def)
  then obtain io2 where "answer dops expected body io1 = (fst (checked opcode expected f payload), io2)"
    "usable io2" "waiting io2 = rest" "written io2 = written io1"
    using answer_ok [OF io1(2) _ assms(3,5)] by blast
  with io1 that [of io2] show thesis by (simp add: run_simps)
qed

end

end
