(* ===== verification/Device.thy ===== *)
theory Device
  imports Protocol
begin

text \<open>
  Devices that answer.

  A printer reacts to what it is sent, so its whole answer is a function \<open>respond\<close> of all the
  bytes it has received; time, and whatever else makes a real printer answer one way or the
  other, is in the choice of that function, over which the statements range. The locale
  \<open>responder\<close> is a \<open>duplex\<close> device with this behaviour: after a flush the bytes that wait are
  those of the answer that have not been \<open>consumed\<close>.

  \<open>follows\<close> says that a device takes part in a conversation, given as the list of the requests
  and the bytes each is answered with. The lemmas give the result of every command in a
  conversation.

  \<open>sim_ops\<close> is the simplest such device, for any \<open>respond\<close>.
\<close>

subsection \<open>Conversations\<close>

type_synonym exchange = "byte list \<times> byte list"

fun follows :: "(byte list \<Rightarrow> byte list) \<Rightarrow> byte list \<Rightarrow> exchange list \<Rightarrow> bool" where
  "follows respond W [] = True"
| "follows respond W (x # t) =
    (respond (W @ fst x) = respond W @ snd x \<and> follows respond (W @ fst x) t)"

definition said :: "exchange list \<Rightarrow> byte list" where
  "said t = concat (map fst t)"

lemma said_simps [simp]: "said [] = []" "said (x # t) = fst x @ said t" "said (t @ u) = said t @ said u"
  by (simp_all add: said_def)

lemma follows_append [simp]:
  "follows respond W (t @ u) \<longleftrightarrow> follows respond W t \<and> follows respond (W @ said t) u"
  by (induction t arbitrary: W) simp_all

text \<open>The exchanges of the protocol: a request without an answer, and one with an answer.\<close>

definition tells :: "u16 \<Rightarrow> byte list \<Rightarrow> exchange" where
  "tells opcode payload = (packet_bytes opcode payload, [])"

definition asks :: "u16 \<Rightarrow> byte list \<Rightarrow> byte list \<Rightarrow> exchange" where
  "asks opcode req rep = (packet_bytes opcode req, packet_bytes opcode rep)"

text \<open>
  \<open>settled\<close>: the stream is good, the device has received \<open>W\<close>, and all it answered was read.

  \<open>converses m a t r b\<close>: on a device that takes part in the conversation \<open>t\<close>, \<open>m\<close> sends exactly
  the requests of \<open>t\<close>, reads their answers, and returns (or throws) \<open>r\<close>. The functions \<open>a\<close> and
  \<open>b\<close> are the state around the stream, before and after.
\<close>

definition settled ::
  "('d \<Rightarrow> bool) \<Rightarrow> ('d \<Rightarrow> byte list) \<Rightarrow> ('d \<Rightarrow> nat) \<Rightarrow> (byte list \<Rightarrow> byte list) \<Rightarrow> 'd iostream \<Rightarrow> byte list \<Rightarrow> bool" where
  "settled dok sent consumed respond io W \<longleftrightarrow>
    isGood io \<and> dok (isDev io) \<and> sent (isDev io) = W \<and> consumed (isDev io) = length (respond W)"

definition converses ::
  "('d \<Rightarrow> bool) \<Rightarrow> ('d \<Rightarrow> byte list) \<Rightarrow> ('d \<Rightarrow> nat) \<Rightarrow> (byte list \<Rightarrow> byte list) \<Rightarrow>
    ('w, 'x) act \<Rightarrow> ('d iostream \<Rightarrow> 'w) \<Rightarrow> exchange list \<Rightarrow> fault + 'x \<Rightarrow> ('d iostream \<Rightarrow> 'w) \<Rightarrow> bool" where
  "converses dok sent consumed respond m a t r b \<longleftrightarrow>
    (\<forall>W io. settled dok sent consumed respond io W \<longrightarrow> follows respond W t \<longrightarrow>
      (\<exists>io'. m (a io) = (r, b io') \<and> settled dok sent consumed respond io' (W @ said t)))"

subsection \<open>The contract\<close>

locale responder = duplex dops dok pending sent
  for dops :: "'d device_ops"
    and dok :: "'d \<Rightarrow> bool"
    and pending :: "'d \<Rightarrow> byte list"
    and sent :: "'d \<Rightarrow> byte list" +
  fixes consumed :: "'d \<Rightarrow> nat"
    and respond :: "byte list \<Rightarrow> byte list"
  assumes resp_read: "dok d \<Longrightarrow> dRead dops n d = (bs, d') \<Longrightarrow> consumed d' = consumed d + length bs"
    and resp_bump: "dok d \<Longrightarrow> dBump dops d = (c, d') \<Longrightarrow>
      consumed d' = (case c of None \<Rightarrow> consumed d | Some _ \<Rightarrow> Suc (consumed d))"
    and resp_write: "dok d \<Longrightarrow> dWrite dops bs d = (n, d') \<Longrightarrow> consumed d' = consumed d"
    and resp_sync: "dok d \<Longrightarrow> dSync dops d = (b, d') \<Longrightarrow>
      consumed d' = consumed d \<and> pending d' = drop (consumed d) (respond (sent d))"

sublocale responder \<subseteq> inp: input_device dops dok pending "\<lambda>d. (sent d, consumed d + length (pending d))"
proof unfold_locales
  fix d n assume d: "dok d"
  obtain d' where d': "dRead dops n d = (take n (pending d), d')" "dok d'"
    "pending d' = drop n (pending d)" "sent d' = sent d"
    using dev_read [OF d, of n] by blast
  with resp_read [OF d d'(1)]
  show "\<exists>d'. dRead dops n d = (take n (pending d), d') \<and> dok d' \<and> pending d' = drop n (pending d) \<and>
      (sent d', consumed d' + length (pending d')) = (sent d, consumed d + length (pending d))"
    by auto
  obtain d' where d': "dBump dops d = (hd_opt (pending d), d')" "dok d'"
    "pending d' = tl (pending d)" "sent d' = sent d"
    using dev_bump [OF d] by blast
  with resp_bump [OF d d'(1)]
  show "\<exists>d'. dBump dops d = (hd_opt (pending d), d') \<and> dok d' \<and> pending d' = tl (pending d) \<and>
      (sent d', consumed d' + length (pending d')) = (sent d, consumed d + length (pending d))"
    by (cases "pending d") auto
qed

context responder
begin

abbreviation quiet :: "'d iostream \<Rightarrow> byte list \<Rightarrow> bool" where
  "quiet \<equiv> settled dok sent consumed respond"

abbreviation runs ::
  "('w, 'x) act \<Rightarrow> ('d iostream \<Rightarrow> 'w) \<Rightarrow> exchange list \<Rightarrow> fault + 'x \<Rightarrow> ('d iostream \<Rightarrow> 'w) \<Rightarrow> bool" where
  "runs \<equiv> converses dok sent consumed respond"

lemma quiet_def: "quiet io W \<longleftrightarrow> usable io \<and> sent (isDev io) = W \<and> consumed (isDev io) = length (respond W)"
  by (simp add: settled_def usable_def)

lemmas runs_def = converses_def [of dok sent consumed respond]

lemma runsI:
  assumes "\<And>W io. quiet io W \<Longrightarrow> follows respond W t \<Longrightarrow>
    \<exists>io'. m (a io) = (r, b io') \<and> quiet io' (W @ said t)"
  shows "runs m a t r b"
  using assms by (simp add: runs_def)

lemma runsE:
  assumes "runs m a t r b" and "quiet io W" and "follows respond W t"
  obtains io' where "m (a io) = (r, b io')" "quiet io' (W @ said t)"
  using assms by (auto simp: runs_def)

lemma resp_os_write:
  assumes "usable io" and "os_write dops bs io = (r, io')"
  shows "consumed (isDev io') = consumed (isDev io)"
  using assms resp_write [of "isDev io" bs] by (auto simp: os_write_def usable_def split: prod.splits)

lemma resp_WriteLittle:
  assumes "usable io" and "WriteLittle dops n v io = (r, io')"
  shows "consumed (isDev io') = consumed (isDev io)"
  using assms resp_os_write [of io "le_bytes n v"]
  by (auto simp: WriteLittle_def good_def bnd_def ret_def usable_def)

lemma request_quiet:
  assumes "quiet io W" and "length payload + 4 \<le> 65535"
  obtains io' where "request dops opcode payload io = (Inr (), io')" "usable io'"
    "sent (isDev io') = W @ packet_bytes opcode payload" "consumed (isDev io') = length (respond W)"
    "pending (isDev io') = drop (length (respond W)) (respond (W @ packet_bytes opcode payload))"
proof -
  have io: "usable io" "written io = W" "consumed (isDev io) = length (respond W)"
    using assms(1) by (simp_all add: quiet_def)
  obtain io1 where io1: "WriteLittle dops 2 (unat opcode) io = (Inr (), io1)" "usable io1"
    "written io1 = written io @ le_bytes 2 (unat opcode)"
    using io(1) by (rule WriteLittle_ok)
  obtain io2 where io2: "WriteLittle dops 2 (4 + length payload) io1 = (Inr (), io2)" "usable io2"
    "written io2 = written io1 @ le_bytes 2 (4 + length payload)"
    using io1(2) by (rule WriteLittle_ok)
  obtain io3 where io3: "os_write dops payload io2 = (Inr (), io3)" "usable io3"
    "written io3 = written io2 @ payload"
    using io2(2) by (rule os_write_ok)
  obtain d where d: "dSync dops (isDev io3) = (True, d)" "dok d" "sent d = written io3"
    using dev_sync io3(2) by (auto simp: usable_def)
  have good: "isGood io" "isGood io3" "dok (isDev io3)" using io(1) io3(2) by (simp_all add: usable_def)
  have "consumed (isDev io3) = length (respond W)"
    using resp_os_write [OF io2(2) io3(1)] resp_WriteLittle [OF io1(2) io2(1)]
      resp_WriteLittle [OF io(1) io1(1)] io(3) by simp
  with resp_sync [OF good(3) d(1)] io io1 io2 io3 d good assms(2)
    that [of "io3\<lparr>isGood := True, isDev := d\<rparr>"]
  show thesis
    by (simp add: request_def WriteTo_def good_def run_simps packet_bytes_def os_flush_def usable_def)
qed

lemma tells_quiet:
  assumes "quiet io W" and "follows respond W [tells opcode payload]" and "length payload + 4 \<le> 65535"
  obtains io' where "request dops opcode payload io = (Inr (), io')"
    "quiet io' (W @ packet_bytes opcode payload)"
proof -
  obtain io' where "request dops opcode payload io = (Inr (), io')" "usable io'"
    "sent (isDev io') = W @ packet_bytes opcode payload" "consumed (isDev io') = length (respond W)"
    using assms(1,3) by (rule request_quiet)
  with assms(2) that [of io'] show thesis by (simp add: quiet_def tells_def)
qed

text \<open>One exchange; \<open>actual\<close> is the opcode of the answer.\<close>

lemma exchange_quiet:
  assumes "quiet io W" and "length req + 4 \<le> 65535" and "length rep + 4 \<le> 65535"
    and "respond (W @ packet_bytes opcode req) = respond W @ packet_bytes actual rep"
    and "\<And>hdr. inp.on_payload hdr body f"
  obtains io' where "andthen (request dops opcode req) (answer dops expected body) io =
      (fst (checked actual expected f rep), io')" "quiet io' (W @ packet_bytes opcode req)"
proof -
  obtain io1 where io1: "request dops opcode req io = (Inr (), io1)" "usable io1"
    "sent (isDev io1) = W @ packet_bytes opcode req" "consumed (isDev io1) = length (respond W)"
    "pending (isDev io1) = packet_bytes actual rep"
    using request_quiet [OF assms(1,2), of opcode] assms(4) by (metis append_eq_conv_conj)
  then have "pending (isDev io1) = packet_bytes actual rep @ []" by simp
  from inp.answer_ok [OF io1(2) this assms(3,5)] obtain io2
    where io2: "answer dops expected body io1 = (fst (checked actual expected f rep), io2)"
    "usable io2" "pending (isDev io2) = []"
    "(sent (isDev io2), consumed (isDev io2) + length (pending (isDev io2))) =
      (sent (isDev io1), consumed (isDev io1) + length (pending (isDev io1)))"
    by blast
  then have "quiet io2 (W @ packet_bytes opcode req)"
    using io1 assms(4) by (simp add: quiet_def)
  with io1(1) io2(1) that [of io2] show thesis by (simp add: run_simps)
qed

lemma asks_quiet:
  assumes "quiet io W" and "follows respond W [asks opcode req rep]"
    and "length req + 4 \<le> 65535" and "length rep + 4 \<le> 65535"
    and "\<And>hdr. inp.on_payload hdr body f"
  obtains io' where "andthen (request dops opcode req) (answer dops opcode body) io =
      (fst (f rep), io')" "quiet io' (W @ packet_bytes opcode req)"
proof -
  have "checked opcode opcode f = f"
    by (simp add: checked_def checkOpcode_def andthen_def ret_bnd)
  with exchange_quiet [OF assms(1,3,4) _ assms(5), of opcode opcode opcode] assms(2) that show thesis
    by (simp add: asks_def) blast
qed

end

subsection \<open>The commands in a conversation\<close>

text \<open>What a printer answers: the layout of the payloads, with bytes that are ignored.\<close>

definition status_payload :: "ExtendedStatus \<Rightarrow> byte \<Rightarrow> byte list \<Rightarrow> byte list" where
  "status_payload ex unused extra =
    [Basic ex, Changed ex, Aux ex, Controller ex, PaperAvailableBits ex, unused] @
    le_bytes 2 (unat (Engine ex)) @ le_bytes 2 (unat (Start ex)) @ le_bytes 2 (unat (Printing ex)) @
    le_bytes 2 (unat (Shipped ex)) @ le_bytes 2 (unat (Printed ex)) @ extra"

definition info_payload :: "PrinterInfo \<Rightarrow> byte \<Rightarrow> byte \<Rightarrow> byte list \<Rightarrow> byte list" where
  "info_payload i u v extra =
    [u, v, DeviceId i, infoType i, VersionMajor i, VersionMinor i] @
    le_bytes 2 (unat (BlockSize i)) @ le_bytes 2 (unat (Buffers i)) @ extra"

named_theorems take_simps \<open>reading a payload\<close>

lemma take_byte_Cons [take_simps]: "bnd take_byte f (b # pl) = f b pl" "take_byte (b # pl) = (Inr b, pl)"
  by (simp_all add: take_byte_def take_int_def bnd_def ret_def)

lemma take_byte_Nil [take_simps]: "bnd take_byte f [] = (Inl (CaptFailure OutOfRange), [])"
  "take_byte [] = (Inl (CaptFailure OutOfRange), [])"
  by (simp_all add: take_byte_def take_int_def bnd_def)

lemma take_uint16_append [take_simps]: "bnd take_uint16 f (le_bytes 2 (unat v) @ pl) = f v pl"
  by (simp add: take_uint16_def take_int_def bnd_def ret_def le_value_2)

lemma reply_status_payload:
  assumes "Basic ex AND ERROR_BIT = 0"
  shows "fst (reply_status (status_payload ex unused extra)) = Inr ex"
  using assms
  by (simp add: reply_status_def status_payload_def take_simps run_ret)

lemma reply_info_payload: "fst (reply_info (info_payload i u v extra)) = Inr i"
  by (simp add: reply_info_def info_payload_def take_simps run_ret)

lemma reply_basic_payload: "fst (reply_basic False (bs # extra)) = Inr (bs, None)"
  by (simp add: reply_basic_def take_simps run_ret)

lemma length_status_payload: "length (status_payload ex unused extra) = 16 + length extra"
  by (simp add: status_payload_def)

lemma length_info_payload: "length (info_payload i u v extra) = 10 + length extra"
  by (simp add: info_payload_def)

text \<open>
  Exchanges without the ignored bytes.
\<close>

definition x_status :: "ExtendedStatus \<Rightarrow> exchange" where
  "x_status ex = asks 0xA0A0 [] (status_payload ex 0 [])"

definition x_info :: "PrinterInfo \<Rightarrow> exchange" where
  "x_info i = asks 0xA1A1 [] (info_payload i 0 0 [])"

definition x_basic :: "byte \<Rightarrow> exchange" where
  "x_basic bs = asks 0xE0A0 [] [bs]"

definition x_code :: "u16 \<Rightarrow> byte \<Rightarrow> exchange" where
  "x_code opcode code = asks opcode [] [code]"

definition x_online :: "u16 \<Rightarrow> byte \<Rightarrow> exchange" where
  "x_online n code = asks 0xE0A5 (online_payload n) [code]"

lemma length_AppendByte [simp]: "length (AppendByte v b) = length b + 1"
  and length_AppendUint16 [simp]: "length (AppendUint16 w b) = length b + 2"
  and length_AppendUint32 [simp]: "length (AppendUint32 x b) = length b + 4"
  by (simp_all add: AppendByte_def AppendUint16_def AppendUint32_def)

lemma length_online_payload: "length (online_payload n) = 8"
  by (simp add: online_payload_def)

lemma length_begin_page_payload: "length (begin_page_payload params) = 34"
  by (simp add: begin_page_payload_def)

context responder
begin

lemma status_quiet:
  assumes "quiet io W" and "follows respond W [x_status ex]" and "Basic ex AND ERROR_BIT = 0"
  obtains io' where "PC_GET_EXTENDED_STATUS dops io = (Inr ex, io')" "quiet io' (W @ fst (x_status ex))"
proof (rule asks_quiet [OF assms(1) assms(2) [unfolded x_status_def] _ _ inp.status_payload_steps])
  fix io'
  assume "andthen (request dops 0xA0A0 []) (answer dops 0xA0A0 (status_body dops)) io = (fst (reply_status (status_payload ex 0 [])), io')"
    "quiet io' (W @ packet_bytes 0xA0A0 [])"
  then show thesis
    by (intro that [of io']) (simp_all add: PC_GET_EXTENDED_STATUS_def reply_status_payload [OF assms(3)] x_status_def asks_def)
qed (simp_all add: length_status_payload)

lemma info_quiet:
  assumes "quiet io W" and "follows respond W [x_info i]"
  obtains io' where "PC_GET_PRINTER_INFO dops io = (Inr i, io')" "quiet io' (W @ fst (x_info i))"
proof (rule asks_quiet [OF assms(1) assms(2) [unfolded x_info_def] _ _ inp.info_payload_steps])
  fix io'
  assume "andthen (request dops 0xA1A1 []) (answer dops 0xA1A1 (info_body dops)) io = (fst (reply_info (info_payload i 0 0 [])), io')"
    "quiet io' (W @ packet_bytes 0xA1A1 [])"
  then show thesis
    by (intro that [of io']) (simp_all add: PC_GET_PRINTER_INFO_def reply_info_payload x_info_def asks_def)
qed (simp_all add: length_info_payload)

lemma basic_quiet:
  assumes "quiet io W" and "follows respond W [x_basic bs]"
  obtains io' where "PCR_GET_BASIC_STATUS dops False io = (Inr (bs, None), io')" "quiet io' (W @ fst (x_basic bs))"
proof (rule asks_quiet [OF assms(1) assms(2) [unfolded x_basic_def] _ _ inp.basic_payload_steps [of _ False]])
  fix io'
  assume "andthen (request dops 0xE0A0 []) (answer dops 0xE0A0 (basic_body dops False)) io = (fst (reply_basic False [bs]), io')"
    "quiet io' (W @ packet_bytes 0xE0A0 [])"
  then show thesis
    by (intro that [of io']) (simp_all add: PCR_GET_BASIC_STATUS_def reply_basic_payload x_basic_def asks_def)
qed (simp_all add: length_info_payload)

lemma code_quiet:
  assumes "quiet io W" and "follows respond W [x_code opcode code]"
  obtains io' where "execCmd dops opcode io = (Inr code, io')" "quiet io' (W @ fst (x_code opcode code))"
proof (rule asks_quiet [OF assms(1) assms(2) [unfolded x_code_def] _ _ inp.sp_ReadByte_payload])
  fix io'
  assume "andthen (request dops opcode []) (answer dops opcode (sp_ReadByte dops)) io = (fst (take_byte [code]), io')"
    "quiet io' (W @ packet_bytes opcode [])"
  then show thesis
    by (intro that [of io']) (simp_all add: execCmd_def take_simps x_code_def asks_def)
qed (simp_all add: length_info_payload)

lemma online_quiet:
  assumes "quiet io W" and "follows respond W [x_online n code]"
  obtains io' where "PCR_GO_ONLINE dops n io = (Inr code, io')" "quiet io' (W @ fst (x_online n code))"
proof (rule asks_quiet [OF assms(1) assms(2) [unfolded x_online_def] _ _ inp.sp_ReadByte_payload])
  fix io'
  assume "andthen (request dops 0xE0A5 (online_payload n)) (answer dops 0xE0A5 (sp_ReadByte dops)) io = (fst (take_byte [code]), io')"
    "quiet io' (W @ packet_bytes 0xE0A5 (online_payload n))"
  then show thesis
    by (intro that [of io']) (simp_all add: PCR_GO_ONLINE_def take_simps x_online_def asks_def)
qed (simp_all add: length_online_payload)

end

subsection \<open>A device for every conversation\<close>

record sim =
  simSent :: "byte list"
  simRead :: nat
  simIn :: "byte list"

definition sim_ops :: "(byte list \<Rightarrow> byte list) \<Rightarrow> sim device_ops" where
  "sim_ops respond =
    \<lparr>dRead = (\<lambda>n d. (take n (simIn d),
       d\<lparr>simIn := drop n (simIn d), simRead := simRead d + length (take n (simIn d))\<rparr>)),
     dBump = (\<lambda>d. case simIn d of [] \<Rightarrow> (None, d)
       | b # bs \<Rightarrow> (Some b, d\<lparr>simIn := bs, simRead := Suc (simRead d)\<rparr>)),
     dWrite = (\<lambda>bs d. (length bs, d\<lparr>simSent := simSent d @ bs\<rparr>)),
     dSync = (\<lambda>d. (True, d\<lparr>simIn := drop (simRead d) (respond (simSent d))\<rparr>))\<rparr>"

interpretation sim: responder "sim_ops respond" "\<lambda>_. True" simIn simSent simRead respond for respond
  by unfold_locales (auto simp: sim_ops_def split: list.splits option.splits)

text \<open>The device that answers the requests of one conversation, one after the other.\<close>

fun respond_of :: "exchange list \<Rightarrow> byte list \<Rightarrow> byte list" where
  "respond_of [] W = []"
| "respond_of (x # t) W =
    (if length (fst x) \<le> length W then snd x @ respond_of t (drop (length (fst x)) W) else [])"

definition speaks :: "exchange list \<Rightarrow> bool" where
  "speaks t \<longleftrightarrow> (\<forall>x \<in> set t. fst x \<noteq> [])"

lemma speaks_simps [simp]: "speaks []" "speaks (x # t) \<longleftrightarrow> fst x \<noteq> [] \<and> speaks t"
  "speaks (t @ u) \<longleftrightarrow> speaks t \<and> speaks u"
  by (auto simp: speaks_def)

lemma packet_bytes_not_Nil [simp]: "packet_bytes opcode payload \<noteq> []"
proof -
  have "length (packet_bytes opcode payload) \<noteq> 0" by (simp add: packet_bytes_def)
  then show ?thesis by (metis list.size(3))
qed

lemma exchange_not_Nil [simp]: "fst (tells opcode payload) \<noteq> []" "fst (asks opcode req rep) \<noteq> []"
  by (simp_all add: tells_def asks_def)

lemma respond_of_said: "respond_of (t @ u) (said t @ W) = concat (map snd t) @ respond_of u W"
  by (induction t) simp_all

lemma respond_of_silent: "speaks u \<Longrightarrow> respond_of u [] = []"
  by (cases u) simp_all

lemma follows_respond_of: "speaks u \<Longrightarrow> follows (respond_of (t @ u)) (said t) u"
proof (induction u arbitrary: t)
  case (Cons x u)
  have "respond_of (t @ x # u) (said t) = concat (map snd t)"
    using respond_of_said [of t "x # u" "[]"] Cons.prems by simp
  moreover have "respond_of (t @ x # u) (said t @ fst x) = concat (map snd t) @ snd x"
    using respond_of_said [of t "x # u" "fst x"] respond_of_silent [of u] Cons.prems by simp
  moreover have "follows (respond_of (t @ x # u)) (said t @ fst x) u"
    using Cons.IH [of "t @ [x]"] Cons.prems by simp
  ultimately show ?case by simp
qed simp

lemma every_conversation: "speaks t \<Longrightarrow> follows (respond_of t) [] t"
  using follows_respond_of [of t "[]"] by simp

text \<open>A stream to a simulated device that has not been used yet.\<close>

definition new_sim :: "sim iostream" where
  "new_sim = \<lparr>isGood = True, isDev = \<lparr>simSent = [], simRead = 0, simIn = []\<rparr>\<rparr>"

lemma new_sim_quiet: "speaks t \<Longrightarrow> sim.quiet (respond_of t) new_sim []"
  by (simp add: settled_def new_sim_def respond_of_silent)

lemma sim_run:
  assumes "converses (\<lambda>_. True) simSent simRead (respond_of t) m a t r b" and "speaks t"
  shows "\<exists>io'. m (a new_sim) = (r, b io') \<and> simSent (isDev io') = said t"
  using sim.runsE [OF assms(1) new_sim_quiet [OF assms(2)] every_conversation [OF assms(2)]]
  by (auto simp: settled_def)

lemma exchanges_speak [simp]: "fst (x_status ex) \<noteq> []" "fst (x_info i) \<noteq> []" "fst (x_basic bs) \<noteq> []"
  "fst (x_code opcode code) \<noteq> []" "fst (x_online n code) \<noteq> []"
  by (simp_all add: x_status_def x_info_def x_basic_def x_code_def x_online_def)

text \<open>A printer at rest: reserved, online, ready, no page counted.\<close>

definition idle_status :: ExtendedStatus where
  "idle_status = \<lparr>Basic = 0, Changed = 0, Aux = 0, Controller = 0, PaperAvailableBits = 0x80,
    Engine = 0, Start = 0, Printing = 0, Shipped = 0, Printed = 0\<rparr>"

end
