(* ===== verification/Protocol_Spec.thy ===== *)
theory Protocol_Spec
  imports Device
begin

text \<open>
  What the packets and the commands promise: the round trip of a packet through two streams,
  the readers and writers of payloads, and the result of every command for every packet a
  device can answer with. The result of a command is given by a function on the opcode and the
  payload of the answer (\<open>status_result\<close>, \<open>info_result\<close>, \<open>code_result\<close>, \<open>basic_result\<close>), which says what
  is read where and which exception is thrown; after each command, also one that throws, the
  stream stands behind the answer.
\<close>

subsection \<open>The result of a command\<close>

definition u16_at :: "byte list \<Rightarrow> nat \<Rightarrow> u16" where
  "u16_at pl k = push_bit 8 (ucast (pl ! Suc k)) OR ucast (pl ! k)"

definition status_at :: "byte list \<Rightarrow> ExtendedStatus" where
  "status_at pl =
    \<lparr>Basic = pl ! 0, Changed = pl ! 1, Aux = pl ! 2, Controller = pl ! 3, PaperAvailableBits = pl ! 4,
     Engine = u16_at pl 6, Start = u16_at pl 8, Printing = u16_at pl 10, Shipped = u16_at pl 12,
     Printed = u16_at pl 14\<rparr>"

definition info_at :: "byte list \<Rightarrow> PrinterInfo" where
  "info_at pl =
    \<lparr>DeviceId = pl ! 2, infoType = pl ! 3, VersionMajor = pl ! 4, VersionMinor = pl ! 5,
     BlockSize = u16_at pl 6, Buffers = u16_at pl 8\<rparr>"

definition when_opcode :: "u16 \<Rightarrow> u16 \<Rightarrow> fault + 'a \<Rightarrow> fault + 'a" where
  "when_opcode expected actual r =
    (if actual = expected then r else Inl (CaptFailure (UnexpectedOpcode actual expected)))"

definition status_result :: "byte list \<Rightarrow> fault + ExtendedStatus" where
  "status_result pl =
    (if pl = [] then Inl (CaptFailure OutOfRange)
     else if bit (pl ! 0) 7 then Inl (CaptFailure (StatusError (pl ! 0)))
     else if length pl < 16 then Inl (CaptFailure OutOfRange)
     else Inr (status_at pl))"

definition info_result :: "byte list \<Rightarrow> fault + PrinterInfo" where
  "info_result pl = (if length pl < 10 then Inl (CaptFailure OutOfRange) else Inr (info_at pl))"

definition code_result :: "byte list \<Rightarrow> fault + byte" where
  "code_result pl = (if pl = [] then Inl (CaptFailure OutOfRange) else Inr (pl ! 0))"

definition basic_result :: "bool \<Rightarrow> byte list \<Rightarrow> fault + byte \<times> byte option" where
  "basic_result changed pl =
    (if length pl < (if changed then 2 else 1) then Inl (CaptFailure OutOfRange)
     else Inr (pl ! 0, if changed then Some (pl ! 1) else None))"

lemma u16_bytes: "word_of_nat (unat (a :: byte) + 256 * unat (b :: byte)) = (push_bit 8 (ucast b) OR ucast a :: u16)"
proof -
  have a: "unat a < 256" and b: "unat b < 256" by simp_all
  have "unat (c :: byte) mod 2 ^ LENGTH(16) = unat c" for c
  proof (rule mod_less)
    have "unat c < 256" by (rule unat_byte_less)
    also have "(256 :: nat) \<le> 2 ^ LENGTH(16)" by simp
    finally show "unat c < 2 ^ LENGTH(16)" .
  qed
  then have a': "unat (ucast a :: u16) = unat a" and b': "unat (ucast b :: u16) = unat b"
    by (simp_all only: unsigned_ucast_eq take_bit_eq_mod)
  have "unat (push_bit 8 (ucast b) OR ucast a :: u16) = take_bit 16 (push_bit 8 (unat b)) OR unat a"
    by (simp only: unsigned_or_eq unsigned_push_bit_eq a' b') simp
  also have "\<dots> = 256 * unat b OR unat a"
    using b by (simp add: push_bit_eq_mult take_bit_eq_mod mult.commute)
  also have "\<dots> = 256 * unat b + unat a"
    using or_disjoint [of "unat a" 8 "unat b"] a by simp
  finally have sum: "unat (push_bit 8 (ucast b) OR ucast a :: u16) = unat a + 256 * unat b"
    by (simp only: add.commute)
  have "word_of_nat (unat w) = w" for w :: u16 by simp
  from this [of "push_bit 8 (ucast b) OR ucast a"] show ?thesis by (simp only: sum)
qed

text \<open>Reading at a position of the payload.\<close>

lemma take_byte_at:
  "bnd take_byte f (drop k pl) =
    (if k < length pl then f (pl ! k) (drop (Suc k) pl) else (Inl (CaptFailure OutOfRange), drop k pl))"
  by (cases "k < length pl") (simp_all add: take_simps Cons_nth_drop_Suc [symmetric])

lemma take_uint16_at:
  "bnd take_uint16 f (drop k pl) =
    (if Suc k < length pl then f (u16_at pl k) (drop (Suc (Suc k)) pl)
     else (Inl (CaptFailure OutOfRange), drop k pl))"
proof (cases "Suc k < length pl")
  case True
  then have "drop k pl = pl ! k # pl ! Suc k # drop (Suc (Suc k)) pl"
    by (simp add: Cons_nth_drop_Suc)
  then show ?thesis
    using True by (simp add: take_uint16_def take_int_def bnd_def ret_def u16_bytes [symmetric] u16_at_def)
next
  case False
  then have "length pl - k < 2" by linarith
  with False show ?thesis by (simp add: take_uint16_def take_int_def bnd_def)
qed

lemmas read_at = take_byte_at [of _ 0, simplified] take_byte_at take_uint16_at run_ret

lemma code_result: "fst (take_byte pl) = code_result pl"
  by (cases pl) (simp_all add: code_result_def take_simps)

lemma basic_result: "fst (reply_basic changed pl) = basic_result changed pl"
  by (simp add: reply_basic_def basic_result_def read_at)

lemma info_result: "fst (reply_info pl) = info_result pl"
  by (simp add: reply_info_def info_result_def info_at_def read_at eval_nat_numeral)

lemma status_result: "fst (reply_status pl) = status_result pl"
proof -
  have err: "(pl ! 0 AND ERROR_BIT \<noteq> 0) = bit (pl ! 0) 7" by (simp add: flag_bits)
  show ?thesis
    by (simp add: reply_status_def status_result_def status_at_def read_at err eval_nat_numeral run_raise)
qed

lemma when_opcode:
  "fst (checked actual expected f pl) = when_opcode expected actual (fst (f pl))"
  by (simp add: checked_def checkOpcode_def when_opcode_def andthen_def bnd_def ret_def raise_def)

context responder
begin

text \<open>A command on a device that answers it with any one packet.\<close>

lemma any_answer:
  assumes "quiet io W" and "respond (W @ packet_bytes opcode req) = respond W @ packet_bytes actual pl"
    and "length req + 4 \<le> 65535" and "length pl + 4 \<le> 65535"
    and "\<And>hdr. inp.on_payload hdr body f" and "fst (f pl) = r"
  shows "\<exists>io'. andthen (request dops opcode req) (answer dops opcode body) io =
      (when_opcode opcode actual r, io') \<and> quiet io' (W @ packet_bytes opcode req)"
  using exchange_quiet [OF assms(1,3,4,2,5), of opcode] assms(6) unfolding when_opcode by metis

lemma status_any:
  assumes "quiet io W" and "respond (W @ packet_bytes 0xA0A0 []) = respond W @ packet_bytes actual pl"
    and "length pl + 4 \<le> 65535"
  shows "\<exists>io'. PC_GET_EXTENDED_STATUS dops io = (when_opcode 0xA0A0 actual (status_result pl), io') \<and> quiet io' (W @ packet_bytes 0xA0A0 [])"
  unfolding PC_GET_EXTENDED_STATUS_def by (rule any_answer [OF assms(1,2) _ assms(3) inp.status_payload_steps status_result]) (simp add: length_online_payload)

lemma info_any:
  assumes "quiet io W" and "respond (W @ packet_bytes 0xA1A1 []) = respond W @ packet_bytes actual pl"
    and "length pl + 4 \<le> 65535"
  shows "\<exists>io'. PC_GET_PRINTER_INFO dops io = (when_opcode 0xA1A1 actual (info_result pl), io') \<and> quiet io' (W @ packet_bytes 0xA1A1 [])"
  unfolding PC_GET_PRINTER_INFO_def by (rule any_answer [OF assms(1,2) _ assms(3) inp.info_payload_steps info_result]) (simp add: length_online_payload)

lemma basic_any:
  assumes "quiet io W" and "respond (W @ packet_bytes 0xE0A0 []) = respond W @ packet_bytes actual pl"
    and "length pl + 4 \<le> 65535"
  shows "\<exists>io'. PCR_GET_BASIC_STATUS dops changed io = (when_opcode 0xE0A0 actual (basic_result changed pl), io') \<and> quiet io' (W @ packet_bytes 0xE0A0 [])"
  unfolding PCR_GET_BASIC_STATUS_def by (rule any_answer [OF assms(1,2) _ assms(3) inp.basic_payload_steps basic_result]) (simp add: length_online_payload)

lemma code_any:
  assumes "quiet io W" and "respond (W @ packet_bytes opcode []) = respond W @ packet_bytes actual pl"
    and "length pl + 4 \<le> 65535"
  shows "\<exists>io'. execCmd dops opcode io = (when_opcode opcode actual (code_result pl), io') \<and> quiet io' (W @ packet_bytes opcode [])"
  unfolding execCmd_def by (rule any_answer [OF assms(1,2) _ assms(3) inp.sp_ReadByte_payload code_result]) (simp add: length_online_payload)

lemma online_any:
  assumes "quiet io W" and "respond (W @ packet_bytes 0xE0A5 (online_payload n)) = respond W @ packet_bytes actual pl"
    and "length pl + 4 \<le> 65535"
  shows "\<exists>io'. PCR_GO_ONLINE dops n io = (when_opcode 0xE0A5 actual (code_result pl), io') \<and> quiet io' (W @ packet_bytes 0xE0A5 (online_payload n))"
  unfolding PCR_GO_ONLINE_def by (rule any_answer [OF assms(1,2) _ assms(3) inp.sp_ReadByte_payload code_result]) (simp add: length_online_payload)

lemma cleaning_any:
  assumes "quiet io W" and "respond (W @ packet_bytes 0xE0AD (online_payload 1)) = respond W @ packet_bytes actual pl"
    and "length pl + 4 \<le> 65535"
  shows "\<exists>io'. PCR_CLEANING dops io = (when_opcode 0xE0AD actual (code_result pl), io') \<and> quiet io' (W @ packet_bytes 0xE0AD (online_payload 1))"
  unfolding PCR_CLEANING_def online_payload_def [symmetric] by (rule any_answer [OF assms(1,2) _ assms(3) inp.sp_ReadByte_payload code_result]) (simp add: length_online_payload)

end

subsection \<open>Properties\<close>

text \<open>
C11. The status command, for every answer. The request is sent; when the device answers with a
packet of any opcode and payload, the result is the status at the offsets of the protocol, or
an exception: for another opcode, an empty or short payload, or the error bit, which is looked
at before the length. In every case the whole answer has been taken from the stream. The
payload that encodes a status gives this status back.
\<close>

theorem status_answer:
  assumes "responder dops dok pending sent consumed respond"
    and "settled dok sent consumed respond io W"
    and "respond (W @ packet_bytes 0xA0A0 []) = respond W @ packet_bytes actual pl"
    and "length pl + 4 \<le> 65535"
  shows "(\<exists>io'. PC_GET_EXTENDED_STATUS dops io = (when_opcode 0xA0A0 actual (status_result pl), io') \<and>
      settled dok sent consumed respond io' (W @ packet_bytes 0xA0A0 [])) \<and>
    (Basic ex AND ERROR_BIT = 0 \<longrightarrow> status_result (status_payload ex unused extra) = Inr ex)"
proof
  show "\<exists>io'. PC_GET_EXTENDED_STATUS dops io = (when_opcode 0xA0A0 actual (status_result pl), io') \<and>
      settled dok sent consumed respond io' (W @ packet_bytes 0xA0A0 [])"
    by (rule responder.status_any [OF assms])
qed (simp add: status_result [symmetric] reply_status_payload)

theorem status_answer_witness:
  "let t = [asks 0xA0A0 [] [0x80, 1]]
   in \<exists>io'. PC_GET_EXTENDED_STATUS (sim_ops (respond_of t)) new_sim = (Inl (CaptFailure (StatusError 0x80)), io') \<and>
     settled (\<lambda>_. True) simSent simRead (respond_of t) io' (packet_bytes 0xA0A0 []) \<and>
     status_result (status_payload idle_status 7 [9]) = Inr idle_status"
proof -
  let ?t = "[asks 0xA0A0 [] [0x80, 1]]"
  have follows: "follows (respond_of ?t) [] ?t" by (rule every_conversation) simp
  then have answer: "respond_of ?t ([] @ packet_bytes 0xA0A0 []) = respond_of ?t [] @ packet_bytes 0xA0A0 [0x80, 1]"
    by (simp add: asks_def)
  have idle: "Basic idle_status AND ERROR_BIT = 0" by (simp add: idle_status_def)
  have q: "settled (\<lambda>_. True) simSent simRead (respond_of ?t) new_sim []" by (rule new_sim_quiet) simp
  have "when_opcode 0xA0A0 0xA0A0 (status_result [0x80, 1]) = Inl (CaptFailure (StatusError 0x80))"
    by (simp add: when_opcode_def status_result_def)
  with status_answer [OF sim.responder_axioms q answer, of idle_status 7 "[9]"] idle show ?thesis
    unfolding Let_def append_Nil by (simp del: respond_of.simps)
qed

text \<open>
C12. The other commands, for every answer. A command with a return code, going online (with the
page number), cleaning, the basic status (with or without the changed flags) and the printer
information each send their request and take the whole answer from the stream, whatever packet
it is; the result is the byte or the fields at the offsets of the protocol, out of range when the
payload is too short for what is read, unexpected opcode when the answer is for another command.
\<close>

theorem command_answers:
  assumes "responder dops dok pending sent consumed respond"
    and "settled dok sent consumed respond io W" and "length pl + 4 \<le> 65535"
    and "\<And>req. req \<in> {packet_bytes opcode [], packet_bytes 0xE0A5 (online_payload n),
        packet_bytes 0xE0AD (online_payload 1), packet_bytes 0xE0A0 [], packet_bytes 0xA1A1 []} \<Longrightarrow>
      respond (W @ req) = respond W @ packet_bytes actual pl"
  shows
    "(\<exists>io'. execCmd dops opcode io = (when_opcode opcode actual (code_result pl), io') \<and>
       settled dok sent consumed respond io' (W @ packet_bytes opcode [])) \<and>
     (\<exists>io'. PCR_GO_ONLINE dops n io = (when_opcode 0xE0A5 actual (code_result pl), io') \<and>
       settled dok sent consumed respond io' (W @ packet_bytes 0xE0A5 (online_payload n))) \<and>
     (\<exists>io'. PCR_CLEANING dops io = (when_opcode 0xE0AD actual (code_result pl), io') \<and>
       settled dok sent consumed respond io' (W @ packet_bytes 0xE0AD (online_payload 1))) \<and>
     (\<exists>io'. PCR_GET_BASIC_STATUS dops changed io = (when_opcode 0xE0A0 actual (basic_result changed pl), io') \<and>
       settled dok sent consumed respond io' (W @ packet_bytes 0xE0A0 [])) \<and>
     (\<exists>io'. PC_GET_PRINTER_INFO dops io = (when_opcode 0xA1A1 actual (info_result pl), io') \<and>
       settled dok sent consumed respond io' (W @ packet_bytes 0xA1A1 []))"
  by (intro conjI responder.code_any [OF assms(1,2) _ assms(3)] responder.online_any [OF assms(1,2) _ assms(3)]
      responder.cleaning_any [OF assms(1,2) _ assms(3)] responder.basic_any [OF assms(1,2) _ assms(3)]
      responder.info_any [OF assms(1,2) _ assms(3)] assms(4)) simp_all

text \<open>A device that answers every request of at least four bytes with one packet.\<close>

theorem command_answers_witness:
  "let respond = (\<lambda>W. if W = [] then [] else packet_bytes 0xE0A2 [5])
   in (\<exists>io'. PCR_CLEAR_ERROR (sim_ops respond) new_sim = (Inr 5, io')) \<and>
      (\<exists>io'. PCR_CLEANING (sim_ops respond) new_sim = (Inl (CaptFailure (UnexpectedOpcode 0xE0A2 0xE0AD)), io'))"
proof -
  let ?r = "\<lambda>W. if W = [] then [] else packet_bytes 0xE0A2 [5]"
  have q: "settled (\<lambda>_. True) simSent simRead ?r new_sim []" by (simp add: settled_def new_sim_def)
  have r: "when_opcode 0xE0A2 0xE0A2 (code_result [5]) = Inr 5"
    "when_opcode 0xE0AD 0xE0A2 (code_result [5]) = Inl (CaptFailure (UnexpectedOpcode 0xE0A2 0xE0AD))"
    by (simp_all add: when_opcode_def code_result_def)
  have ans: "?r ([] @ req) = ?r [] @ packet_bytes 0xE0A2 [5]"
    if "req \<in> {packet_bytes 0xE0A2 [], packet_bytes 0xE0A5 (online_payload 1),
      packet_bytes 0xE0AD (online_payload 1), packet_bytes 0xE0A0 [], packet_bytes 0xA1A1 []}" for req
  proof -
    have "req \<noteq> []" using that by (metis insertE emptyE packet_bytes_not_Nil)
    then show ?thesis by simp
  qed
  have "length [5 :: byte] + 4 \<le> 65535" by simp
  from command_answers [OF sim.responder_axioms q this ans, of "0xE0A2" 1]
  show ?thesis unfolding Let_def PCR_CLEAR_ERROR_def r by blast
qed

text \<open>
C23. A packet survives the way from one stream to another. WriteTo puts opcode, size and payload
on a good stream; where these bytes wait on a stream, the header read is the opcode and
the size of the payload, and the payload is what follows.
\<close>

theorem packet_roundtrip:
  assumes "duplex dops dok pending sent" and "duplex dops' dok' pending' sent'"
    and "isGood io" and "dok (isDev io)" and "length payload + 4 \<le> 65535"
  shows "\<exists>io' bytes. WriteTo dops opcode payload io = (Inr (), io') \<and>
    sent (isDev io') = sent (isDev io) @ bytes \<and> length bytes = header_Size \<lparr>Opcode = opcode, PayloadSize = word_of_nat (length payload)\<rparr> \<and>
    (\<forall>jo h. isGood jo \<and> dok' (isDev jo) \<and> pending' (isDev jo) = bytes @ rest \<longrightarrow>
      (\<exists>jo' jo''. read_header dops' (h, jo) =
          (Inr (), (\<lparr>Opcode = opcode, PayloadSize = word_of_nat (length payload)\<rparr>, jo')) \<and>
        is_read dops' (length payload) jo' = (Inr payload, jo'') \<and> pending' (isDev jo'') = rest))"
proof -
  note inp = duplex.axioms(1) [OF assms(2)]
  note usable = input_device.usable_def [OF inp] input_device.usable_def [OF duplex.axioms(1) [OF assms(1)]]
  obtain io' where io': "WriteTo dops opcode payload io = (Inr (), io')"
    "sent (isDev io') = sent (isDev io) @ packet_bytes opcode payload"
    using duplex.WriteTo_ok [OF assms(1) _ assms(5)] assms(3,4) usable(2) by metis
  have "\<exists>jo' jo''. read_header dops' (h, jo) =
      (Inr (), (\<lparr>Opcode = opcode, PayloadSize = word_of_nat (length payload)\<rparr>, jo')) \<and>
    is_read dops' (length payload) jo' = (Inr payload, jo'') \<and> pending' (isDev jo'') = rest"
    if "isGood jo \<and> dok' (isDev jo) \<and> pending' (isDev jo) = packet_bytes opcode payload @ rest" for jo h
  proof -
    have jo: "input_device.usable dok' jo" "pending' (isDev jo) = packet_bytes opcode payload @ rest"
      using that usable(1) by simp_all
    obtain jo' where jo': "read_header dops' (h, jo) =
        (Inr (), (\<lparr>Opcode = opcode, PayloadSize = word_of_nat (length payload)\<rparr>, jo'))"
      "input_device.usable dok' jo'" "pending' (isDev jo') = payload @ rest"
      using input_device.read_header_ok [OF inp jo assms(5)] by metis
    then show ?thesis using input_device.is_read_ok [OF inp jo'(2), of "length payload"] by auto
  qed
  moreover have "length (packet_bytes opcode payload) =
      header_Size \<lparr>Opcode = opcode, PayloadSize = word_of_nat (length payload)\<rparr>"
    using assms(5) by (simp add: packet_bytes_def header_Size_def unat_of_nat)
  ultimately show ?thesis using io' by blast
qed

theorem packet_roundtrip_witness:
  "let dops = sim_ops (\<lambda>W. [])
   in \<exists>io' bytes. WriteTo dops 0xC0A0 [1, 2] new_sim = (Inr (), io') \<and> simSent (isDev io') = bytes \<and>
     (\<exists>jo'. read_header dops (emptyPacketHeader, \<lparr>isGood = True, isDev = \<lparr>simSent = [], simRead = 0, simIn = bytes @ [7]\<rparr>\<rparr>) =
        (Inr (), (\<lparr>Opcode = 0xC0A0, PayloadSize = 2\<rparr>, jo')))"
proof -
  obtain io' bytes where w: "WriteTo (sim_ops (\<lambda>W. [])) 0xC0A0 [1, 2] new_sim = (Inr (), io')"
    "simSent (isDev io') = simSent (isDev new_sim) @ bytes"
    and r: "\<forall>jo h. isGood jo \<and> True \<and> simIn (isDev jo) = bytes @ [7] \<longrightarrow>
      (\<exists>jo' jo''. read_header (sim_ops (\<lambda>W. [])) (h, jo) =
          (Inr (), (\<lparr>Opcode = 0xC0A0, PayloadSize = word_of_nat (length [1 :: byte, 2])\<rparr>, jo')) \<and>
        is_read (sim_ops (\<lambda>W. [])) (length [1 :: byte, 2]) jo' = (Inr [1, 2], jo'') \<and> simIn (isDev jo'') = [7])"
    using packet_roundtrip [OF sim.duplex_axioms [of "\<lambda>W. []"] sim.duplex_axioms [of "\<lambda>W. []"],
      of new_sim "[1, 2]" "0xC0A0" "[7]"]
    by (auto simp: new_sim_def)
  from r [rule_format, of "\<lparr>isGood = True, isDev = \<lparr>simSent = [], simRead = 0, simIn = bytes @ [7]\<rparr>\<rparr>" emptyPacketHeader] w
  show ?thesis by (simp add: Let_def new_sim_def) blast
qed

subsection \<open>Payloads in memory\<close>

lemma and_low_byte: "(v :: 'a :: len word) AND 0xff = take_bit 8 v"
  by (simp only: take_bit_eq_mask) (simp add: mask_eq_exp_minus_1)

lemma bit_byte_of [simp]:
  "bit (ucast (ucast (v AND 0xff) :: byte) :: 'a :: len word) n \<longleftrightarrow> n < 8 \<and> bit (v :: 'a word) n"
  by (simp only: and_low_byte) (auto simp: bit_simps dest: bit_imp_le_length)

lemma bytes_of_u16:
  "push_bit 8 (ucast (ucast (drop_bit 8 v AND 0xff) :: byte)) OR ucast (ucast (v AND 0xff) :: byte) = (v :: u16)"
  (is "?w = v")
proof (rule bit_word_eqI)
  fix n assume n: "n < LENGTH(16)"
  then have "n < 16" by simp
  then have "n < 8 \<or> (\<exists>m < 8. n = 8 + m)" by presburger
  then consider "n < 8" | m where "n = 8 + m" "m < 8" by blast
  then show "bit ?w n = bit v n"
    by cases (simp_all add: bit_or_iff bit_push_bit_iff bit_drop_bit_eq del: push_bit_of_1)
qed

lemma bytes_of_u32:
  "((ucast (ucast (v AND 0xff) :: byte) OR push_bit 8 (ucast (ucast (drop_bit 8 v AND 0xff) :: byte))) OR
    push_bit 16 (ucast (ucast (drop_bit 16 v AND 0xff) :: byte))) OR
    push_bit 24 (ucast (ucast (drop_bit 24 v AND 0xff) :: byte)) = (v :: u32)"
  (is "?w = v")
proof (rule bit_word_eqI)
  fix n assume n: "n < LENGTH(32)"
  then have "n < 32" by simp
  then have "n < 8 \<or> (\<exists>m < 8. n = 8 + m) \<or> (\<exists>m < 8. n = 16 + m) \<or> (\<exists>m < 8. n = 24 + m)" by presburger
  then consider "n < 8" | m where "n = 8 + m" "m < 8" | m where "n = 16 + m" "m < 8" | m where "n = 24 + m" "m < 8"
    by blast
  then show "bit ?w n = bit v n"
    by cases (simp_all add: bit_or_iff bit_push_bit_iff bit_drop_bit_eq del: push_bit_of_1)
qed

text \<open>A reader whose position is behind the bytes \<open>b\<close>.\<close>

definition reader_at :: "byte list \<Rightarrow> byte list \<Rightarrow> PacketReader" where
  "reader_at b rest = \<lparr>prPayload = b @ rest, prIter = length b\<rparr>"

lemma reader_at_Cons: "reader_at b (x # rest) = reader_at (b @ [x]) rest \<lparr>prIter := length b\<rparr>"
  by (simp add: reader_at_def)

lemma read_byte_at: "bnd pr_ReadByte f (reader_at b (x # rest)) = f x (reader_at (b @ [x]) rest)"
  and read_byte_end: "bnd pr_ReadByte f (reader_at b []) = (Inl (CaptFailure OutOfRange), reader_at b [])"
  by (simp_all add: reader_at_def pr_ReadByte_def bnd_def nth_append)

text \<open>
C26. Payloads in memory. Reading a payload that a PacketBuilder has made gives the values that were
appended, in the order they were appended, whatever stands before and after them. At the
end of the payload a read throws out of range; a read of an integer that starts too near to
the end throws after it has moved over the bytes that were there, the read of a block of bytes
does not move.
\<close>

theorem payload_roundtrip:
  "(\<exists>after. AppendByte x b = b @ after \<and> pr_ReadByte (reader_at b (after @ rest)) = (Inr x, reader_at (b @ after) rest)) \<and>
   (\<exists>after. AppendUint16 y b = b @ after \<and> pr_ReadUint16 (reader_at b (after @ rest)) = (Inr y, reader_at (b @ after) rest)) \<and>
   (\<exists>after. AppendUint32 z b = b @ after \<and> pr_ReadUint32 (reader_at b (after @ rest)) = (Inr z, reader_at (b @ after) rest)) \<and>
   AppendBytes data b = b @ data \<and>
   pr_ReadBytes (length data) (reader_at b (data @ rest)) = (Inr data, reader_at (b @ data) rest) \<and>
   pr_ReadByte (reader_at b []) = (Inl (CaptFailure OutOfRange), reader_at b []) \<and>
   pr_ReadUint16 (reader_at b [x]) = (Inl (CaptFailure OutOfRange), reader_at (b @ [x]) []) \<and>
   pr_ReadUint32 (reader_at b [x, x', x'']) = (Inl (CaptFailure OutOfRange), reader_at (b @ [x, x', x'']) []) \<and>
   pr_ReadBytes (Suc n + length rest) (reader_at b rest) = (Inl (CaptFailure OutOfRange), reader_at b rest)"
proof (intro conjI)
  show "\<exists>after. AppendUint16 y b = b @ after \<and> pr_ReadUint16 (reader_at b (after @ rest)) = (Inr y, reader_at (b @ after) rest)"
    by (rule exI [of _ "[ucast (y AND 0xff), ucast (drop_bit 8 y AND 0xff)]"], rule conjI, rule AppendUint16_def,
        simp only: pr_ReadUint16_def append_Cons append_Nil read_byte_at ret_def append_assoc, simp only: bytes_of_u16)
  show "\<exists>after. AppendUint32 z b = b @ after \<and> pr_ReadUint32 (reader_at b (after @ rest)) = (Inr z, reader_at (b @ after) rest)"
    by (rule exI [of _ "[ucast (z AND 0xff), ucast (drop_bit 8 z AND 0xff), ucast (drop_bit 16 z AND 0xff), ucast (drop_bit 24 z AND 0xff)]"], rule conjI, rule AppendUint32_def,
        simp only: pr_ReadUint32_def append_Cons append_Nil read_byte_at ret_def append_assoc, simp only: bytes_of_u32)
  show "pr_ReadUint16 (reader_at b [x]) = (Inl (CaptFailure OutOfRange), reader_at (b @ [x]) [])"
    "pr_ReadUint32 (reader_at b [x, x', x'']) = (Inl (CaptFailure OutOfRange), reader_at (b @ [x, x', x'']) [])"
    by (simp_all add: pr_ReadUint16_def pr_ReadUint32_def read_byte_at read_byte_end)
qed (simp_all add: reader_at_def pr_ReadByte_def AppendByte_def AppendBytes_def pr_ReadBytes_def)

subsection \<open>The parameters of a page\<close>

definition page_at :: "byte list \<Rightarrow> PageParams" where
  "page_at pl =
    \<lparr>PaperSize = pl ! 4, TonerDensity = pl ! 8, Mode = pl ! 12, Resolution = pl ! 13,
     SmoothEnable = (pl ! 18 = 2), TonerSaving = (pl ! 19 = 1), MarginLeft = u16_at pl 22,
     MarginTop = u16_at pl 24, ImageLineSize = u16_at pl 26, ImageLines = u16_at pl 28,
     PaperWidth = u16_at pl 30, PaperHeight = u16_at pl 32\<rparr>"

text \<open>
C27. The request that begins a page. It has 34 bytes; from their offsets a printer reads back the
parameters exactly, and the other bytes are the constants of the protocol with the toner density
repeated four times.
\<close>

theorem begin_page_roundtrip:
  "page_at (begin_page_payload params) = params \<and> length (begin_page_payload params) = 34 \<and>
   map (\<lambda>k. begin_page_payload params ! k) [0, 1, 2, 3, 5, 6, 7, 9, 10, 11, 14, 15, 16, 17, 20, 21] =
     [0, 0, 0xfc, 0x03, 1, 1, 0, TonerDensity params, TonerDensity params, TonerDensity params, 3, 1, 1, 1, 0, 0]"
proof -
  have layout: "begin_page_payload params =
      [0, 0, 0xfc, 0x03, PaperSize params, 1, 1, 0, TonerDensity params, TonerDensity params, TonerDensity params,
       TonerDensity params, Mode params, Resolution params, 3, 1, 1, 1, if SmoothEnable params then 2 else 0,
       if TonerSaving params then 1 else 0, 0, 0] @
      concat (map (\<lambda>v. [ucast (v AND 0xff), ucast (drop_bit 8 v AND 0xff)])
        [MarginLeft params, MarginTop params, ImageLineSize params, ImageLines params, PaperWidth params,
         PaperHeight params])"
    by (simp add: begin_page_payload_def AppendByte_def AppendUint16_def)
  show ?thesis
    by (simp add: page_at_def u16_at_def layout bytes_of_u16)
qed

subsection \<open>Errors and boundaries of packets\<close>

text \<open>
C25. What goes wrong with packets. A payload that does not fit into 16 bits with its header throws
before anything is written; a stream that is not good is left alone, and a header read from
it gets opcode 0 but keeps the payload size it had. A size field below 4 throws, with the
opcode already stored; a stream that ends within the header leads to the use of an indeterminate
value.
\<close>

theorem packet_errors:
  assumes "duplex dops dok pending sent" and "isGood io" and "dok (isDev io)"
  shows
    "(65535 < length payload + 4 \<longrightarrow>
       WriteTo dops opcode payload io = (Inl (CaptFailure PacketSizeOverflow), io)) \<and>
     WriteTo dops opcode payload (io\<lparr>isGood := False\<rparr>) = (Inr (), io\<lparr>isGood := False\<rparr>) \<and>
     read_header dops (h, io\<lparr>isGood := False\<rparr>) = (Inr (), (h\<lparr>Opcode := 0\<rparr>, io\<lparr>isGood := False\<rparr>)) \<and>
     (pending (isDev io) = le_bytes 2 (unat opcode) @ le_bytes 2 sz @ rest \<and> sz < 4 \<longrightarrow>
       (\<exists>io'. read_header dops (h, io) =
         (Inl (CaptFailure ImpossiblePacketSize), (h\<lparr>Opcode := opcode\<rparr>, io')) \<and> pending (isDev io') = rest)) \<and>
     (length (pending (isDev io)) < 4 \<longrightarrow> fst (read_header dops (h, io)) = Inl UndefinedBehaviour)"
proof (intro conjI impI)
  note inp = duplex.axioms(1) [OF assms(1)]
  have io: "input_device.usable dok io" using assms(2,3) by (simp add: input_device.usable_def [OF inp])
  show "WriteTo dops opcode payload io = (Inl (CaptFailure PacketSizeOverflow), io)"
    if "65535 < length payload + 4"
    using that assms(2) by (simp add: WriteTo_def good_def run_simps)
  show "WriteTo dops opcode payload (io\<lparr>isGood := False\<rparr>) = (Inr (), io\<lparr>isGood := False\<rparr>)"
    by (simp add: WriteTo_def good_def bnd_def ret_def)
  show "read_header dops (h, io\<lparr>isGood := False\<rparr>) = (Inr (), (h\<lparr>Opcode := 0\<rparr>, io\<lparr>isGood := False\<rparr>))"
    by (simp add: read_header_def ReadLittle_def good_def bnd_def ret_def lift_def)
  show "\<exists>io'. read_header dops (h, io) =
      (Inl (CaptFailure ImpossiblePacketSize), (h\<lparr>Opcode := opcode\<rparr>, io')) \<and> pending (isDev io') = rest"
    if w: "pending (isDev io) = le_bytes 2 (unat opcode) @ le_bytes 2 sz @ rest \<and> sz < 4"
  proof -
    obtain io1 where io1: "ReadLittle dops 2 io = (Inr (le_value (le_bytes 2 (unat opcode))), io1)"
      "input_device.usable dok io1" "pending (isDev io1) = le_bytes 2 sz @ rest"
      using input_device.ReadLittle_ok [OF inp io, of "le_bytes 2 (unat opcode)" _ 2] w by (metis length_le_bytes)
    obtain io2 where io2: "ReadLittle dops 2 io1 = (Inr (le_value (le_bytes 2 sz)), io2)"
      "input_device.usable dok io2" "pending (isDev io2) = rest"
      using input_device.ReadLittle_ok [OF inp io1(2,3), of 2] by (metis length_le_bytes)
    have "le_value (le_bytes 2 sz) = sz" using w by (simp add: le_value_le_bytes)
    moreover have "isGood io2" using io2(2) by (simp add: input_device.usable_def [OF inp])
    ultimately show ?thesis
      using w io1(1) io2 by (simp add: read_header_def run_simps good_def le_value_2)
  qed
  show "fst (read_header dops (h, io)) = Inl UndefinedBehaviour" if short: "length (pending (isDev io)) < 4"
  proof (cases "length (pending (isDev io)) < 2")
    case True
    from input_device.ReadLittle_short [OF inp io this] show ?thesis
      by (cases "ReadLittle dops 2 io") (simp add: read_header_def run_simps bnd_def lift_def)
  next
    case False
    have split: "pending (isDev io) = take 2 (pending (isDev io)) @ drop 2 (pending (isDev io))"
      "length (take 2 (pending (isDev io))) = 2" using False by simp_all
    obtain io1 where io1: "ReadLittle dops 2 io = (Inr (le_value (take 2 (pending (isDev io)))), io1)"
      "input_device.usable dok io1" "pending (isDev io1) = drop 2 (pending (isDev io))"
      by (rule input_device.ReadLittle_ok [OF inp io split])
    have "length (pending (isDev io1)) < 2" using short io1(3) by simp
    from input_device.ReadLittle_short [OF inp io1(2) this] io1(1) show ?thesis
      by (cases "ReadLittle dops 2 io1") (simp add: read_header_def run_simps bnd_def lift_def)
  qed
qed

theorem packet_errors_witness:
  "let dops = sim_ops (\<lambda>W. []); io = \<lparr>isGood = True, isDev = \<lparr>simSent = [], simRead = 0, simIn = [7, 0, 3, 0, 9]\<rparr>\<rparr>
   in WriteTo dops 1 (replicate 65532 0) io = (Inl (CaptFailure PacketSizeOverflow), io) \<and>
      fst (read_header dops (emptyPacketHeader, io\<lparr>isDev := \<lparr>simSent = [], simRead = 0, simIn = [7, 0, 9]\<rparr>\<rparr>)) =
        Inl UndefinedBehaviour"
  using packet_errors [OF sim.duplex_axioms [of "\<lambda>W. []"],
      of "\<lparr>isGood = True, isDev = \<lparr>simSent = [], simRead = 0, simIn = [7, 0, 3, 0, 9]\<rparr>\<rparr>" "replicate 65532 0" 1]
    packet_errors [OF sim.duplex_axioms [of "\<lambda>W. []"],
      of "\<lparr>isGood = True, isDev = \<lparr>simSent = [], simRead = 0, simIn = [7, 0, 9]\<rparr>\<rparr>" "[]" 1 emptyPacketHeader]
  by (simp add: Let_def)

text \<open>Reading integers of the given sizes from a packet, and from a payload.\<close>

fun sp_ReadInts :: "'d device_ops \<Rightarrow> nat list \<Rightarrow> (StreamPacket \<times> 'd iostream, nat list) act" where
  "sp_ReadInts dops [] = ret []"
| "sp_ReadInts dops (n # ns) = bnd (sp_ReadInt dops n) (\<lambda>v. bnd (sp_ReadInts dops ns) (\<lambda>vs. ret (v # vs)))"

fun ints_of :: "nat list \<Rightarrow> byte list \<Rightarrow> fault + nat list" where
  "ints_of [] pl = Inr []"
| "ints_of (n # ns) pl =
    (if length pl < n then Inl (CaptFailure OutOfRange)
     else bindR (ints_of ns (drop n pl)) (\<lambda>vs. Inr (le_value (take n pl) # vs)))"

fun take_ints :: "nat list \<Rightarrow> (byte list, nat list) act" where
  "take_ints [] = ret []"
| "take_ints (n # ns) = bnd (take_int n) (\<lambda>v. bnd (take_ints ns) (\<lambda>vs. ret (v # vs)))"

lemma take_ints: "fst (take_ints ns pl) = ints_of ns pl"
proof (induction ns arbitrary: pl)
  case (Cons n ns)
  from Cons [of "drop n pl"] show ?case
    by (cases "take_ints ns (drop n pl)")
      (auto simp: take_int_def bnd_def ret_def bindR_def split: sum.splits)
qed (simp add: ret_def)

context input_device
begin

lemma sp_ReadInts_payload [payload_steps]: "on_payload hdr (sp_ReadInts dops ns) (take_ints ns)"
  by (induction ns) (auto intro!: payload_steps)

end

text \<open>
C24. The borders of a packet. Integers of any sizes are read from a packet as from its payload,
little-endian and in order; the first one that does not fit into what is left of the payload throws,
although the stream may have more bytes. However many are read and also when one throws,
the destructor of the packet leaves the stream at the first byte behind it.
\<close>

theorem packet_borders:
  assumes "input_device dops dok pending kept" and "isGood io" and "dok (isDev io)"
    and "pending (isDev io) = packet_bytes opcode payload @ rest" and "length payload + 4 \<le> 65535"
  shows "\<exists>io'. with_local emptyStreamPacket (destroyStreamPacket dops)
      (andthen (read_packet dops) (sp_ReadInts dops sizes)) io = (ints_of sizes payload, io') \<and>
    isGood io' \<and> pending (isDev io') = rest \<and> kept (isDev io') = kept (isDev io)"
proof -
  note usable = input_device.usable_def [OF assms(1)]
  have "input_device.usable dok io" using assms(2,3) by (simp add: usable)
  from input_device.packet_boundary [OF assms(1) this assms(4,5) input_device.sp_ReadInts_payload [OF assms(1)]]
  show ?thesis unfolding take_ints usable by blast
qed

theorem packet_borders_witness:
  "\<exists>io'. with_local emptyStreamPacket (destroyStreamPacket (sim_ops (\<lambda>W. [])))
      (andthen (read_packet (sim_ops (\<lambda>W. []))) (sp_ReadInts (sim_ops (\<lambda>W. [])) [2, 2]))
      \<lparr>isGood = True, isDev = \<lparr>simSent = [], simRead = 0, simIn = packet_bytes 1 [1, 2, 3] @ [7, 8]\<rparr>\<rparr> =
      (Inl (CaptFailure OutOfRange), io') \<and> simIn (isDev io') = [7, 8]"
  using packet_borders [OF sim.input_device_axioms [of "\<lambda>W. []"],
      of "\<lparr>isGood = True, isDev = \<lparr>simSent = [], simRead = 0, simIn = packet_bytes 1 [1, 2, 3] @ [7, 8]\<rparr>\<rparr>"
        1 "[1, 2, 3]" "[7, 8]" "[2, 2]"]
  by auto

end
