(* ===== verification/Printer.thy ===== *)
theory Printer
  imports Device Stream_Buffer
begin

text \<open>
  The printer: \<^verbatim>\<open>BasicCaptPrinter.hpp\<close>.

  An object of the class is the stream it refers to and the information it has cached. The
  template argument for stop tokens is instantiated as in \<^verbatim>\<open>examples/printpbm.cpp\<close>:
  a token refers to the source of stop requests or to none. The request comes from a signal
  handler at any time; \<open>stopAfter\<close> is the number of the next calls of
  \<^verbatim>\<open>stop_requested\<close> that still return false (none: the signal never comes).

  \<open>converses\<close> (\<open>runs\<close> in the locales) relates an operation to the conversation it has with the
  printer. Its rules follow the
  structure of the operations, so what an operation says and returns in each case is found by
  composing the exchanges of its parts. Waiting (\<^verbatim>\<open>sleep_for\<close>) has no effect on
  the state of the program and is left out.
\<close>

subsection \<open>The objects\<close>

record 'd printer =
  prStream :: "'d iostream"
  cachedInfo :: "PrinterInfo option"

record 'd session = "'d printer" +
  stopAfter :: "nat option"

datatype StopToken = NoSource | StopSource

definition request_stop :: "(('d, 'z) session_scheme, bool) act" where
  "request_stop p = (Inr (stopAfter p \<noteq> Some 0), p\<lparr>stopAfter := Some 0\<rparr>)"

definition source_stop_requested :: "(('d, 'z) session_scheme, bool) act" where
  "source_stop_requested p =
    (case stopAfter p of
       None \<Rightarrow> (Inr False, p)
     | Some 0 \<Rightarrow> (Inr True, p)
     | Some (Suc n) \<Rightarrow> (Inr False, p\<lparr>stopAfter := Some n\<rparr>))"

definition stop_requested :: "StopToken \<Rightarrow> (('d, 'z) session_scheme, bool) act" where
  "stop_requested tok = (case tok of NoSource \<Rightarrow> ret False | StopSource \<Rightarrow> source_stop_requested)"

definition on_stream :: "('d iostream, 'a) act \<Rightarrow> (('d, 'z) printer_scheme, 'a) act" where
  "on_stream m p = (case m (prStream p) of (r, io) \<Rightarrow> (r, p\<lparr>prStream := io\<rparr>))"

definition newPrinter :: "'d iostream \<Rightarrow> 'd printer" where
  "newPrinter stream = \<lparr>prStream = stream, cachedInfo = None\<rparr>"

subsection \<open>The operations\<close>

definition checkRetcode :: "byte \<Rightarrow> string \<Rightarrow> ('w, unit) act" where
  "checkRetcode cmdResult paramName =
    (if cmdResult \<noteq> 0 then raise (CaptFailure (UnexpectedReturnCode paramName cmdResult)) else ret ())"

definition CHECK_RETCODE ::
  "('d iostream, byte) act \<Rightarrow> string \<Rightarrow> (('d, 'z) printer_scheme, unit) act" where
  "CHECK_RETCODE m name =
    bnd (on_stream m) (\<lambda>code. checkRetcode code (''Protocol::'' @ name))"

definition GetStatus :: "'d device_ops \<Rightarrow> (('d, 'z) printer_scheme, ExtendedStatus) act" where
  "GetStatus dops = on_stream (PC_GET_EXTENDED_STATUS dops)"

definition GetPrinterInfo :: "'d device_ops \<Rightarrow> (('d, 'z) printer_scheme, PrinterInfo) act" where
  "GetPrinterInfo dops p =
    (case cachedInfo p of
       Some i \<Rightarrow> (Inr i, p)
     | None \<Rightarrow>
         bnd (on_stream (PC_GET_PRINTER_INFO dops)) (\<lambda>i p. (Inr i, p\<lparr>cachedInfo := Some i\<rparr>)) p)"

definition ReserveUnit :: "'d device_ops \<Rightarrow> (('d, 'z) printer_scheme, unit) act" where
  "ReserveUnit dops =
    andthen (CHECK_RETCODE (PC_RESERVE_UNIT dops) ''PC_RESERVE_UNIT(this->stream)'')
      (bnd (GetStatus dops) (\<lambda>ex.
        if \<not> UnitReserved ex then raise (CaptFailure FailedToReserve) else ret ()))"

definition ClearError ::
  "'d device_ops \<Rightarrow> ExtendedStatus option \<Rightarrow> (('d, 'z) printer_scheme, unit) act" where
  "ClearError dops status =
    bnd (case status of None \<Rightarrow> GetStatus dops | Some ex \<Rightarrow> ret ex) (\<lambda>ex.
      andthen (assertM (UnitReserved ex))
     (andthen (CHECK_RETCODE (PCR_CLEAR_ERROR dops) ''PCR_CLEAR_ERROR(this->stream)'')
     (andthen (CHECK_RETCODE (PCR_DISCARD_DATA dops) ''PCR_DISCARD_DATA(this->stream)'')
     (andthen
        (if Misprint ex
         then CHECK_RETCODE (PCR_CLEAR_MISPRINT dops) ''PCR_CLEAR_MISPRINT(this->stream)'' else ret ())
        (if Controller ex AND ENGINE_COMM_ERROR \<noteq> 0
         then CHECK_RETCODE (PCR_RESET_ENGINE dops) ''PCR_RESET_ENGINE(this->stream)'' else ret ())))))"

text \<open>The page number is narrowed to 16 bits.\<close>

definition GoOnline :: "'d device_ops \<Rightarrow> nat \<Rightarrow> (('d, 'z) printer_scheme, bool) act" where
  "GoOnline dops page =
    andthen (CHECK_RETCODE (PCR_GO_ONLINE dops (word_of_nat page)) ''PCR_GO_ONLINE(this->stream, page)'')
      (bnd (GetStatus dops) (\<lambda>ex. ret (Online ex)))"

definition Cleaning :: "'d device_ops \<Rightarrow> (('d, 'z) printer_scheme, bool) act" where
  "Cleaning dops = bnd (on_stream (PCR_CLEANING dops)) (\<lambda>code. ret (code = 0))"

definition GoOffline :: "'d device_ops \<Rightarrow> (('d, 'z) printer_scheme, unit) act" where
  "GoOffline dops =
    andthen (CHECK_RETCODE (PCR_GO_OFFLINE dops) ''PCR_GO_OFFLINE(this->stream)'')
      (bnd (GetStatus dops) (\<lambda>ex. if Online ex then raise (CaptFailure FailedToOffline) else ret ()))"

definition ReleaseUnit :: "'d device_ops \<Rightarrow> (('d, 'z) printer_scheme, unit) act" where
  "ReleaseUnit dops =
    bnd (GetStatus dops) (\<lambda>ex.
      if \<not> UnitReserved ex then ret ()
      else
        andthen (CHECK_RETCODE (PCR_RELEASE_UNIT dops) ''PCR_RELEASE_UNIT(this->stream)'')
          (bnd (GetStatus dops) (\<lambda>ex.
            if UnitReserved ex then raise (CaptFailure FailedToRelease) else ret ())))"

text \<open>
  Sending a page. The state is that of the video stream and the session. The body of the inner
  loop leaves with \<open>False\<close> where the code returns false, the body of the outer one too.
\<close>

definition video_read :: "'s streambuf_ops \<Rightarrow> nat \<Rightarrow> ('s \<times> 'w, byte list) act" where
  "video_read vio n s =
    (case sgetn vio n (fst s) of
       Inl e \<Rightarrow> (Inl e, s)
     | Inr (bs, v) \<Rightarrow> (Inr bs, (v, snd s)))"

definition poll_body ::
  "'d device_ops \<Rightarrow> StopToken \<Rightarrow> unit \<Rightarrow> (('d, 'z) session_scheme, (unit, bool) ctrl) act" where
  "poll_body dops stopToken _ =
    bnd (stop_requested stopToken) (\<lambda>stop.
      if stop then ret (Leave True)
      else
        bnd (on_stream (PCR_GET_BASIC_STATUS dops False)) (\<lambda>bs.
          if fst bs AND NOT_READY \<noteq> 0 then ret (Leave False)
          else if fst bs AND IM_DATA_BUSY = 0 then ret (Leave True)
          else ret (Continue ())))"

definition video_body ::
  "'d device_ops \<Rightarrow> 's streambuf_ops \<Rightarrow> StopToken \<Rightarrow> nat \<Rightarrow> unit \<Rightarrow>
    ('s \<times> ('d, 'z) session_scheme, (unit, bool) ctrl) act" where
  "video_body dops vio stopToken blockSize _ =
    bnd (video_read vio blockSize) (\<lambda>bs.
      if bs = [] then ret (Leave True)
      else
        bnd (lift (forever (poll_body dops stopToken) ())) (\<lambda>go.
          if \<not> go then ret (Leave False)
          else
            bnd (lift (stop_requested stopToken)) (\<lambda>stop.
              if stop then ret (Leave False)
              else andthen (lift (on_stream (IC_VIDEO_DATA dops bs))) (ret (Continue ())))))"

definition WriteVideoData ::
  "'d device_ops \<Rightarrow> 's streambuf_ops \<Rightarrow> StopToken \<Rightarrow> PageParams \<Rightarrow> nat \<Rightarrow>
    ('s \<times> ('d, 'z) session_scheme, bool) act" where
  "WriteVideoData dops vio stopToken params givenSize =
    bnd (if givenSize = 0 then bnd (lift (GetPrinterInfo dops)) (\<lambda>i. ret (unat (BlockSize i))) else ret givenSize)
      (\<lambda>blockSize.
      andthen (assertM (blockSize + 4 \<le> 65535))
     (andthen (lift (on_stream (IC_BEGIN_PAGE dops params)))
     (andthen (lift (on_stream (IC_BEGIN_DATA dops)))
     (bnd (forever (video_body dops vio stopToken blockSize) ()) (\<lambda>done.
        if done then andthen (lift (on_stream (IC_END_PAGE dops))) (ret True) else ret False)))))"

definition WriteVideoDataDefault ::
  "'d device_ops \<Rightarrow> 's streambuf_ops \<Rightarrow> PageParams \<Rightarrow> nat \<Rightarrow> ('s \<times> ('d, 'z) session_scheme, bool) act" where
  "WriteVideoDataDefault dops vio params blockSize = WriteVideoData dops vio NoSource params blockSize"

definition wait_body ::
  "'d device_ops \<Rightarrow> StopToken \<Rightarrow> (ExtendedStatus \<Rightarrow> bool) \<Rightarrow> unit \<Rightarrow>
    (('d, 'z) session_scheme, (unit, ExtendedStatus option) ctrl) act" where
  "wait_body dops stopToken func _ =
    bnd (stop_requested stopToken) (\<lambda>stop.
      if stop then ret (Leave None)
      else
        bnd (GetStatus dops) (\<lambda>ex.
          if func ex then ret (Leave (Some ex)) else ret (Continue ())))"

definition WaitStatus ::
  "'d device_ops \<Rightarrow> StopToken \<Rightarrow> (ExtendedStatus \<Rightarrow> bool) \<Rightarrow>
    (('d, 'z) session_scheme, ExtendedStatus option) act" where
  "WaitStatus dops stopToken func = forever (wait_body dops stopToken func) ()"

definition optional_value :: "'a option \<Rightarrow> ('w, 'a) act" where
  "optional_value x = (case x of None \<Rightarrow> raise (CaptFailure BadOptionalAccess) | Some y \<Rightarrow> ret y)"

definition WaitStatusDefault ::
  "'d device_ops \<Rightarrow> (ExtendedStatus \<Rightarrow> bool) \<Rightarrow> (('d, 'z) session_scheme, ExtendedStatus) act" where
  "WaitStatusDefault dops func = bnd (WaitStatus dops NoSource func) optional_value"

definition WaitPrintEnd ::
  "'d device_ops \<Rightarrow> StopToken \<Rightarrow> (('d, 'z) session_scheme, ExtendedStatus option) act" where
  "WaitPrintEnd dops stopToken = WaitStatus dops stopToken (\<lambda>ex. \<not> IsPrinting ex)"

definition WaitPrintEndDefault :: "'d device_ops \<Rightarrow> (('d, 'z) session_scheme, ExtendedStatus) act" where
  "WaitPrintEndDefault dops = bnd (WaitPrintEnd dops NoSource) optional_value"

subsection \<open>Operations as conversations\<close>

text \<open>The state of a printer but for its stream.\<close>

abbreviation around :: "('d, 'z) printer_scheme \<Rightarrow> 'd iostream \<Rightarrow> ('d, 'z) printer_scheme" where
  "around p \<equiv> \<lambda>io. p\<lparr>prStream := io\<rparr>"

named_theorems run_rules \<open>the conversation of a composed operation\<close>

context responder
begin

lemma runs_pure: "(\<And>io. m (a io) = (r, b io)) \<Longrightarrow> runs m a [] r b"
  by (auto simp: runs_def)

lemma runs_ret [run_rules]: "runs (ret x) a [] (Inr x) a"
  and runs_raise [run_rules]: "runs (raise e) a [] (Inl e) a"
  and runs_assert [run_rules]: "P \<Longrightarrow> runs (assertM P) a [] (Inr ()) a"
  by (auto intro!: runs_pure simp: run_simps)

lemma runs_bnd:
  assumes "runs m a t (Inr x) b" and "runs (f x) b u r c" and "v = t @ u"
  shows "runs (bnd m f) a v r c"
proof (rule runsI)
  fix W io assume q: "quiet io W" and f: "follows respond W v"
  from f assms(3) have "follows respond W t" and f2: "follows respond (W @ said t) u" by simp_all
  with assms(1) q obtain io1 where "m (a io) = (Inr x, b io1)" "quiet io1 (W @ said t)" by (blast elim: runsE)
  moreover from this obtain io2 where "f x (b io1) = (r, c io2)" "quiet io2 ((W @ said t) @ said u)"
    using assms(2) f2 by (blast elim: runsE)
  ultimately show "\<exists>io'. bnd m f (a io) = (r, c io') \<and> quiet io' (W @ said v)"
    using assms(3) by (auto simp: run_simps)
qed

lemma runs_bnd_throw: "runs m a t (Inl e) b \<Longrightarrow> runs (bnd m f) a t (Inl e) b"
  unfolding runs_def by (metis run_bnd(1))

lemma runs_andthen: "runs m a t (Inr x) b \<Longrightarrow> runs k b u r c \<Longrightarrow> v = t @ u \<Longrightarrow> runs (andthen m k) a v r c"
  and runs_andthen_throw: "runs m a t (Inl e) b \<Longrightarrow> runs (andthen m k) a t (Inl e) b"
  unfolding andthen_def by (rule runs_bnd, assumption+) (rule runs_bnd_throw)

lemma runs_lift: "runs m a t r b \<Longrightarrow> runs (lift m) (\<lambda>io. (s, a io)) t r (\<lambda>io. (s, b io))"
  unfolding runs_def by (metis run_lift)

lemma runs_on_stream:
  assumes "runs m (\<lambda>io. io) t r (\<lambda>io. io)"
  shows "runs (on_stream m) (\<lambda>io. p\<lparr>prStream := io\<rparr>) t r (\<lambda>io. p\<lparr>prStream := io\<rparr>)"
proof (rule runsI)
  fix W io assume "quiet io W" "follows respond W t"
  with assms obtain io' where "m io = (r, io')" "quiet io' (W @ said t)" by (blast elim: runsE)
  then show "\<exists>io'. on_stream m (p\<lparr>prStream := io\<rparr>) = (r, p\<lparr>prStream := io'\<rparr>) \<and> quiet io' (W @ said t)"
    by (auto simp: on_stream_def)
qed

lemma runs_throw: "runs (body s) a t (Inl e) b \<Longrightarrow> runs (forever body s) a t (Inl e) b"
  and runs_leave: "runs (body s) a t (Inr (Leave x)) b \<Longrightarrow> runs (forever body s) a t (Inr x) b"
  unfolding runs_def by (metis forever_throw, metis forever_leave)

lemma runs_step:
  assumes "runs (body s) a t (Inr (Continue s')) b" and "runs (forever body s') b u r c"
    and "r \<noteq> Inl Diverges" and "v = t @ u"
  shows "runs (forever body s) a v r c"
proof (rule runsI)
  fix W io assume q: "quiet io W" and f: "follows respond W v"
  from f assms(4) have "follows respond W t" and f2: "follows respond (W @ said t) u" by simp_all
  with assms(1) q obtain io1 where "body s (a io) = (Inr (Continue s'), b io1)" "quiet io1 (W @ said t)"
    by (blast elim: runsE)
  moreover from this obtain io2 where "forever body s' (b io1) = (r, c io2)" "quiet io2 ((W @ said t) @ said u)"
    using assms(2) f2 by (blast elim: runsE)
  ultimately show "\<exists>io'. forever body s (a io) = (r, c io') \<and> quiet io' (W @ said v)"
    using assms(3,4) forever_step by fastforce
qed

lemma runs_tells: "length payload + 4 \<le> 65535 \<Longrightarrow>
    runs (request dops opcode payload) (\<lambda>io. io) [tells opcode payload] (Inr ()) (\<lambda>io. io)"
  by (rule runsI, erule tells_quiet, assumption+) (auto simp: tells_def)

lemma runs_status: "Basic ex AND ERROR_BIT = 0 \<Longrightarrow>
    runs (PC_GET_EXTENDED_STATUS dops) (\<lambda>io. io) [x_status ex] (Inr ex) (\<lambda>io. io)"
  by (rule runsI, erule status_quiet, assumption+) auto

lemma runs_info: "runs (PC_GET_PRINTER_INFO dops) (\<lambda>io. io) [x_info i] (Inr i) (\<lambda>io. io)"
  by (rule runsI, erule info_quiet, assumption+) auto

lemma runs_basic:
  "runs (PCR_GET_BASIC_STATUS dops False) (\<lambda>io. io) [x_basic bs] (Inr (bs, None)) (\<lambda>io. io)"
  by (rule runsI, erule basic_quiet, assumption+) auto

lemma runs_code: "runs (execCmd dops opcode) (\<lambda>io. io) [x_code opcode code] (Inr code) (\<lambda>io. io)"
  by (rule runsI, erule code_quiet, assumption+) auto

lemma runs_online: "runs (PCR_GO_ONLINE dops n) (\<lambda>io. io) [x_online n code] (Inr code) (\<lambda>io. io)"
  by (rule runsI, erule online_quiet, assumption+) auto

text \<open>The operations of the printer.\<close>

lemma runs_GetStatus:
  "Basic ex AND ERROR_BIT = 0 \<Longrightarrow> runs (GetStatus dops) (around p) [x_status ex] (Inr ex) (around p)"
  unfolding GetStatus_def by (intro runs_on_stream runs_status)

lemma runs_CHECK_RETCODE:
  assumes "\<And>code. runs m (\<lambda>io. io) [x code] (Inr code) (\<lambda>io. io)"
  shows "runs (CHECK_RETCODE m name) (around p) [x 0] (Inr ()) (around p)"
    and "code \<noteq> 0 \<Longrightarrow> runs (CHECK_RETCODE m name) (around p) [x code]
      (Inl (CaptFailure (UnexpectedReturnCode (''Protocol::'' @ name) code))) (around p)"
  unfolding CHECK_RETCODE_def checkRetcode_def
  by (rule runs_bnd [OF runs_on_stream [OF assms], where u = "[]"]; simp add: run_rules)+

end

subsection \<open>Sending a page\<close>

definition busy :: "byte \<Rightarrow> bool" where
  "busy bs \<longleftrightarrow> bs AND NOT_READY = 0 \<and> bs AND IM_DATA_BUSY \<noteq> 0"

definition accepts :: "byte \<Rightarrow> bool" where
  "accepts bs \<longleftrightarrow> bs AND NOT_READY = 0 \<and> bs AND IM_DATA_BUSY = 0"

text \<open>The answers to the polls before a block: any number of times busy, then the given one.\<close>

definition poll_talk :: "byte list \<Rightarrow> byte \<Rightarrow> exchange list" where
  "poll_talk bsy final = map x_basic (bsy @ [final])"

definition block_talk :: "byte list \<Rightarrow> byte list \<times> byte \<Rightarrow> exchange list" where
  "block_talk block polls = poll_talk (fst polls) (snd polls) @ [tells 0xC0A0 block]"

definition video_talk :: "byte list list \<Rightarrow> (byte list \<times> byte) list \<Rightarrow> exchange list" where
  "video_talk blocks polls = concat (map2 block_talk blocks polls)"

definition polls_ok :: "(byte list \<times> byte) list \<Rightarrow> bool" where
  "polls_ok polls \<longleftrightarrow> (\<forall>x \<in> set polls. list_all busy (fst x) \<and> accepts (snd x))"

fun first_blocks :: "nat \<Rightarrow> nat \<Rightarrow> byte list \<Rightarrow> byte list list" where
  "first_blocks n 0 xs = []"
| "first_blocks n (Suc k) xs = take n xs # first_blocks n k (drop n xs)"

definition blocks_of :: "nat \<Rightarrow> byte list \<Rightarrow> byte list list" where
  "blocks_of n xs = first_blocks n ((length xs + n - 1) div n) xs"

definition begin_talk :: "PageParams \<Rightarrow> exchange list" where
  "begin_talk params = [tells 0xD0A0 (begin_page_payload params), tells 0xD0A1 []]"

definition unstopped :: "StopToken \<Rightarrow> ('d, 'z) session_scheme \<Rightarrow> bool" where
  "unstopped stopToken p \<longleftrightarrow> stopToken = NoSource \<or> stopAfter p = None"

lemma concat_first_blocks: "concat (first_blocks n k xs) = take (k * n) xs"
proof (induction k arbitrary: xs)
  case (Suc k)
  then show ?case by (simp add: take_add)
qed simp

lemma concat_blocks_of: "0 < n \<Longrightarrow> concat (blocks_of n xs) = xs"
proof -
  assume n: "0 < n"
  have "length xs + n - 1 < ((length xs + n - 1) div n + 1) * n"
    using n by (metis add.commute dividend_less_div_times mult.commute mult_Suc_right plus_1_eq_Suc)
  then have "length xs \<le> (length xs + n - 1) div n * n" using n by simp
  then show ?thesis by (simp add: blocks_of_def concat_first_blocks)
qed

lemma length_first_blocks [simp]: "length (first_blocks n k xs) = k"
  by (induction k arbitrary: xs) simp_all

lemma unstopped_session:
  "unstopped stopToken p \<Longrightarrow> stop_requested stopToken (p\<lparr>prStream := io\<rparr>) = (Inr False, p\<lparr>prStream := io\<rparr>)"
  by (auto simp: unstopped_def stop_requested_def source_stop_requested_def ret_def split: StopToken.split)

context responder
begin

lemma runs_stop: "unstopped stopToken p \<Longrightarrow>
    runs (stop_requested stopToken) (around p) [] (Inr False) (around p)"
  by (rule runs_pure) (rule unstopped_session)

end

locale video_link =
  responder dops dok pending sent consumed respond + byte_source vio vok content
  for dops :: "'d device_ops"
    and dok :: "'d \<Rightarrow> bool"
    and pending :: "'d \<Rightarrow> byte list"
    and sent :: "'d \<Rightarrow> byte list"
    and consumed :: "'d \<Rightarrow> nat"
    and respond :: "byte list \<Rightarrow> byte list"
    and vio :: "'s streambuf_ops"
    and vok :: "'s \<Rightarrow> bool"
    and content :: "'s \<Rightarrow> byte list"
begin

lemma runs_poll:
  assumes "unstopped stopToken p" and "list_all busy bsy" and "\<not> busy final"
  shows "runs (forever (poll_body dops stopToken) ()) (around p) (poll_talk bsy final)
    (Inr (final AND NOT_READY = 0)) (around p)"
  using assms(2)
proof (induction bsy)
  case Nil
  have "runs (poll_body dops stopToken ()) (around p) [x_basic final]
      (Inr (Leave (final AND NOT_READY = 0))) (around p)"
    unfolding poll_body_def
    by (rule runs_bnd [OF runs_stop [OF assms(1)]], simp,
        rule runs_bnd [OF runs_on_stream [OF runs_basic]])
      (use assms(3) in \<open>auto simp: busy_def intro: run_rules\<close>)
  then show ?case by (auto simp: poll_talk_def intro: runs_leave)
next
  case (Cons bs bsy)
  have "runs (poll_body dops stopToken ()) (around p) [x_basic bs] (Inr (Continue ())) (around p)"
    unfolding poll_body_def
    by (rule runs_bnd [OF runs_stop [OF assms(1)]], simp,
        rule runs_bnd [OF runs_on_stream [OF runs_basic]])
      (use Cons.prems in \<open>auto simp: busy_def intro: run_rules\<close>)
  moreover have "runs (forever (poll_body dops stopToken) ()) (around p) (poll_talk bsy final)
      (Inr (final AND NOT_READY = 0)) (around p)"
    using Cons by simp
  ultimately show ?case by (rule runs_step) (simp_all add: poll_talk_def)
qed

lemma runs_video_read:
  assumes "vok v"
  obtains v' where "\<And>b. runs (video_read vio n) (\<lambda>io. (v, b io)) [] (Inr (take n (content v))) (\<lambda>io. (v', b io))"
    "vok v'" "content v' = drop n (content v)"
proof -
  obtain v' where v': "sgetn vio n v = Inr (take n (content v), v')" "vok v'" "content v' = drop n (content v)"
    using read [OF assms] by (rule deliversE)
  have "runs (video_read vio n) (\<lambda>io. (v, b io)) [] (Inr (take n (content v))) (\<lambda>io. (v', b io))" for b
    by (rule runs_pure) (simp add: video_read_def v')
  with v' that show thesis by blast
qed

lemma runs_one_block:
  assumes "unstopped stopToken p" and "vok v" and "0 < n" and "n + 4 \<le> 65535" and "content v \<noteq> []"
    and "list_all busy bsy" and "accepts final"
  obtains v' where "vok v'" "content v' = drop n (content v)"
    "runs (video_body dops vio stopToken n ()) (\<lambda>io. (v, around p io))
      (block_talk (take n (content v)) (bsy, final)) (Inr (Continue ())) (\<lambda>io. (v', around p io))"
proof -
  obtain v' where v': "\<And>b :: 'd iostream \<Rightarrow> ('d, 'a) session_scheme.
      runs (video_read vio n) (\<lambda>io. (v, b io)) [] (Inr (take n (content v))) (\<lambda>io. (v', b io))"
    "vok v'" "content v' = drop n (content v)"
    using runs_video_read [OF assms(2), of n] by metis
  have final: "\<not> busy final" "final AND NOT_READY = 0" using assms(7) by (simp_all add: busy_def accepts_def)
  have ne: "take n (content v) \<noteq> []" using assms(3,5) by simp
  have len: "length (take n (content v)) + 4 \<le> 65535" using assms(4) by simp
  have "runs (video_body dops vio stopToken n ()) (\<lambda>io. (v, around p io))
      (block_talk (take n (content v)) (bsy, final)) (Inr (Continue ())) (\<lambda>io. (v', around p io))"
    unfolding video_body_def block_talk_def IC_VIDEO_DATA_def
    apply (rule runs_bnd [OF v'(1) _ append_Nil [symmetric]])
    apply (simp only: ne if_False)
    apply (rule runs_bnd [OF runs_lift [OF runs_poll [OF assms(1,6) final(1)]]])
     apply (simp only: final(2) simp_thms if_False)
     apply (rule runs_bnd [OF runs_lift [OF runs_stop [OF assms(1)]] _ append_Nil [symmetric]])
     apply (simp only: if_False)
     apply (rule runs_andthen [OF runs_lift [OF runs_on_stream [OF runs_tells [OF len]]] runs_ret])
    by simp_all
  with v' that show thesis by blast
qed

text \<open>After \<open>k\<close> blocks the loop goes on where it is then.\<close>

lemma runs_blocks:
  assumes "unstopped stopToken p" and "0 < n" and "n + 4 \<le> 65535"
  shows "vok v \<Longrightarrow> k * n < length (content v) + n \<Longrightarrow> length polls = k \<Longrightarrow> polls_ok polls \<Longrightarrow>
    \<exists>v'. vok v' \<and> content v' = drop (k * n) (content v) \<and>
      (\<forall>u r c. runs (forever (video_body dops vio stopToken n) ()) (\<lambda>io. (v', around p io)) u r c \<longrightarrow>
        r \<noteq> Inl Diverges \<longrightarrow>
        runs (forever (video_body dops vio stopToken n) ()) (\<lambda>io. (v, around p io))
          (video_talk (first_blocks n k (content v)) polls @ u) r c)"
proof (induction k arbitrary: v polls)
  case 0
  then show ?case by (intro exI [of _ v]) (simp add: video_talk_def)
next
  case (Suc k)
  obtain x polls' where polls: "polls = x # polls'" "length polls' = k"
    using Suc.prems(3) by (cases polls) auto
  have ok: "list_all busy (fst x)" "accepts (snd x)" "polls_ok polls'"
    using Suc.prems(4) by (simp_all add: polls polls_ok_def)
  have ne: "content v \<noteq> []" using Suc.prems(2) by auto
  obtain v1 where v1: "vok v1" "content v1 = drop n (content v)"
    "runs (video_body dops vio stopToken n ()) (\<lambda>io. (v, around p io))
      (block_talk (take n (content v)) (fst x, snd x)) (Inr (Continue ())) (\<lambda>io. (v1, around p io))"
    using runs_one_block [OF assms(1) Suc.prems(1) assms(2,3) ne ok(1,2)] by blast
  have "k * n < length (content v1) + n"
  proof (cases "length (content v) \<le> n")
    case True
    have "k * n < length (content v)" using Suc.prems(2) by simp
    from this True have "k * n < n" by (rule less_le_trans)
    then show ?thesis by (simp add: trans_less_add2)
  next
    case False
    then show ?thesis using Suc.prems(2) v1(2) by simp
  qed
  from Suc.IH [OF v1(1) this polls(2) ok(3)] obtain v' where v': "vok v'"
    "content v' = drop (k * n) (content v1)"
    "\<And>u r c. runs (forever (video_body dops vio stopToken n) ()) (\<lambda>io. (v', around p io)) u r c \<Longrightarrow>
        r \<noteq> Inl Diverges \<Longrightarrow>
        runs (forever (video_body dops vio stopToken n) ()) (\<lambda>io. (v1, around p io))
          (video_talk (first_blocks n k (content v1)) polls' @ u) r c"
    by blast
  have "runs (forever (video_body dops vio stopToken n) ()) (\<lambda>io. (v, around p io))
      (video_talk (first_blocks n (Suc k) (content v)) polls @ u) r c"
    if "runs (forever (video_body dops vio stopToken n) ()) (\<lambda>io. (v', around p io)) u r c"
      "r \<noteq> Inl Diverges" for u r c
    by (rule runs_step [OF v1(3) v'(3) [OF that] that(2)]) (simp add: video_talk_def polls v1(2))
  with v'(1,2) v1(2) show ?case by (intro exI [of _ v']) (simp add: add.commute)
qed

lemma runs_video_end:
  assumes "vok v" and "content v = []"
  obtains v' where "vok v'" "content v' = []"
    "runs (forever (video_body dops vio stopToken n) ()) (\<lambda>io. (v, around p io)) [] (Inr True) (\<lambda>io. (v', around p io))"
proof -
  obtain v' where v': "\<And>b :: 'd iostream \<Rightarrow> ('d, 'a) session_scheme.
      runs (video_read vio n) (\<lambda>io. (v, b io)) [] (Inr []) (\<lambda>io. (v', b io))" "vok v'" "content v' = []"
    using runs_video_read [OF assms(1), of n] assms(2) by (metis take_Nil drop_Nil)
  have "runs (video_body dops vio stopToken n ()) (\<lambda>io. (v, around p io)) [] (Inr (Leave True)) (\<lambda>io. (v', around p io))"
    unfolding video_body_def
    by (rule runs_bnd [OF v'(1), where u = "[]"]) (simp_all add: runs_ret)
  then show thesis by (intro that [OF v'(2,3)]) (rule runs_leave)
qed

text \<open>The printer is not ready, or the stop request has come: nothing more is sent.\<close>

lemma runs_video_refused:
  assumes "vok v" and "content v \<noteq> []" and "0 < n" and "unstopped stopToken p"
    and "list_all busy bsy" and "final AND NOT_READY \<noteq> 0"
  obtains v' where "vok v'" "content v' = drop n (content v)"
    "runs (forever (video_body dops vio stopToken n) ()) (\<lambda>io. (v, around p io)) (poll_talk bsy final)
      (Inr False) (\<lambda>io. (v', around p io))"
proof -
  obtain v' where v': "\<And>b :: 'd iostream \<Rightarrow> ('d, 'a) session_scheme.
      runs (video_read vio n) (\<lambda>io. (v, b io)) [] (Inr (take n (content v))) (\<lambda>io. (v', b io))"
    "vok v'" "content v' = drop n (content v)"
    using runs_video_read [OF assms(1), of n] by metis
  have ne: "take n (content v) \<noteq> []" and final: "\<not> busy final" "(final AND NOT_READY = 0) = False"
    using assms(2,3,6) by (simp_all add: busy_def)
  have "runs (video_body dops vio stopToken n ()) (\<lambda>io. (v, around p io)) (poll_talk bsy final)
      (Inr (Leave False)) (\<lambda>io. (v', around p io))"
    unfolding video_body_def
    apply (rule runs_bnd [OF v'(1) _ append_Nil [symmetric]])
    apply (simp only: ne if_False)
    apply (rule runs_bnd [OF runs_lift [OF runs_poll [OF assms(4,5) final(1)]], where u = "[]"])
    by (simp_all add: final(2) runs_ret)
  then show thesis by (intro that [OF v'(2,3)]) (rule runs_leave)
qed

lemma runs_video_stopped:
  assumes "vok v" and "content v \<noteq> []" and "0 < n" and "stopAfter p = Some 0"
  obtains v' where "vok v'" "content v' = drop n (content v)"
    "runs (forever (video_body dops vio StopSource n) ()) (\<lambda>io. (v, around p io)) [] (Inr False) (\<lambda>io. (v', around p io))"
proof -
  obtain v' where v': "\<And>b :: 'd iostream \<Rightarrow> ('d, 'a) session_scheme.
      runs (video_read vio n) (\<lambda>io. (v, b io)) [] (Inr (take n (content v))) (\<lambda>io. (v', b io))"
    "vok v'" "content v' = drop n (content v)"
    using runs_video_read [OF assms(1), of n] by metis
  have ne: "take n (content v) \<noteq> []" using assms(2,3) by simp
  have stop: "runs (stop_requested StopSource) (around p) [] (Inr True) (around p)"
    by (rule runs_pure) (simp add: stop_requested_def source_stop_requested_def assms(4))
  have "runs (poll_body dops StopSource ()) (around p) [] (Inr (Leave True)) (around p)"
    unfolding poll_body_def by (rule runs_bnd [OF stop, where u = "[]"]) (simp_all add: runs_ret)
  then have poll: "runs (forever (poll_body dops StopSource) ()) (around p) [] (Inr True) (around p)"
    by (rule runs_leave)
  have "runs (video_body dops vio StopSource n ()) (\<lambda>io. (v, around p io)) [] (Inr (Leave False)) (\<lambda>io. (v', around p io))"
    unfolding video_body_def
    apply (rule runs_bnd [OF v'(1) _ append_Nil [symmetric]])
    apply (simp only: ne if_False)
    apply (rule runs_bnd [OF runs_lift [OF poll] _ append_Nil [symmetric]])
    apply (simp only: not_True_eq_False if_False)
    apply (rule runs_bnd [OF runs_lift [OF stop], where u = "[]"])
    by (simp_all add: runs_ret)
  then show thesis by (intro that [OF v'(2,3)]) (rule runs_leave)
qed

end

text \<open>The block size: given, or from the information of the printer, asked for once.\<close>

definition chosen_size :: "nat \<Rightarrow> PrinterInfo \<Rightarrow> nat" where
  "chosen_size given i = (if given = 0 then unat (BlockSize i) else given)"

definition size_talk :: "nat \<Rightarrow> ('d, 'z) printer_scheme \<Rightarrow> PrinterInfo \<Rightarrow> exchange list" where
  "size_talk given p i = (if given = 0 \<and> cachedInfo p = None then [x_info i] else [])"

definition after_size :: "nat \<Rightarrow> ('d, 'z) printer_scheme \<Rightarrow> PrinterInfo \<Rightarrow> ('d, 'z) printer_scheme" where
  "after_size given p i = (if given = 0 then p\<lparr>cachedInfo := Some i\<rparr> else p)"

context responder
begin

lemma runs_GetPrinterInfo:
  assumes "cachedInfo p = None \<or> cachedInfo p = Some i"
  shows "runs (GetPrinterInfo dops) (around p) (size_talk 0 p i) (Inr i) (around (after_size 0 p i))"
proof (cases "cachedInfo p")
  case (Some j)
  with assms have "i = j" by simp
  then show ?thesis
    using Some by (auto simp: size_talk_def after_size_def GetPrinterInfo_def intro!: runs_pure)
next
  case None
  have "runs (bnd (on_stream (PC_GET_PRINTER_INFO dops)) (\<lambda>i p. (Inr i, p\<lparr>cachedInfo := Some i\<rparr>)))
      (around p) [x_info i] (Inr i) (around (p\<lparr>cachedInfo := Some i\<rparr>))"
    by (rule runs_bnd [OF runs_on_stream [OF runs_info] runs_pure]) simp_all
  then show ?thesis
    using None by (simp add: size_talk_def after_size_def runs_def GetPrinterInfo_def)
qed

lemma runs_size:
  assumes "cachedInfo p = None \<or> cachedInfo p = Some i"
  shows "runs (if given = 0 then bnd (lift (GetPrinterInfo dops)) (\<lambda>i. ret (unat (BlockSize i))) else ret given)
    (\<lambda>io. (v, around p io)) (size_talk given p i) (Inr (chosen_size given i)) (\<lambda>io. (v, around (after_size given p i) io))"
proof (cases "given = 0")
  case True
  then show ?thesis
    by (simp add: chosen_size_def)
      (rule runs_bnd [OF runs_lift [OF runs_GetPrinterInfo [OF assms]] runs_ret], simp)
next
  case False
  then show ?thesis by (simp add: chosen_size_def size_talk_def after_size_def runs_ret)
qed

end

lemma unstopped_after_size [simp]: "unstopped tok (after_size given p i) \<longleftrightarrow> unstopped tok p"
  by (simp add: unstopped_def after_size_def)

context video_link
begin

lemma runs_begin:
  assumes "cachedInfo p = None \<or> cachedInfo p = Some i" and "chosen_size given i + 4 \<le> 65535"
    and "runs (forever (video_body dops vio stopToken (chosen_size given i)) ())
      (\<lambda>io. (v, around (after_size given p i) io)) t (Inr done) (\<lambda>io. (v', around q io))"
  shows "runs (WriteVideoData dops vio stopToken params given) (\<lambda>io. (v, around p io))
    (size_talk given p i @ begin_talk params @ t @ (if done then [tells 0xD0A2 []] else [])) (Inr done)
    (\<lambda>io. (v', around q io))"
  unfolding WriteVideoData_def IC_BEGIN_PAGE_def IC_BEGIN_DATA_def IC_END_PAGE_def
  apply (rule runs_bnd [OF runs_size [OF assms(1)] _ refl])
  apply (rule runs_andthen [OF runs_assert [OF assms(2)] _ append_Nil [symmetric]])
  apply (rule runs_andthen [OF runs_lift [OF runs_on_stream [OF runs_tells]]])
    apply (simp add: length_begin_page_payload)
   apply (rule runs_andthen [OF runs_lift [OF runs_on_stream [OF runs_tells]] _ refl])
    apply simp
   apply (rule runs_bnd [OF assms(3) _ refl])
   apply (cases "done")
    apply (simp only: if_True)
    apply (rule runs_andthen [OF runs_lift [OF runs_on_stream [OF runs_tells]] runs_ret])
  by (simp_all add: begin_talk_def runs_ret)

lemma runs_write_video:
  assumes "vok v" and "unstopped stopToken p" and "cachedInfo p = None \<or> cachedInfo p = Some i"
    and "0 < chosen_size given i" and "chosen_size given i + 4 \<le> 65535"
    and "length polls = length (blocks_of (chosen_size given i) (content v))" and "polls_ok polls"
  obtains v' where "vok v'" "content v' = []"
    "runs (WriteVideoData dops vio stopToken params given) (\<lambda>io. (v, around p io))
      (size_talk given p i @ begin_talk params @
       video_talk (blocks_of (chosen_size given i) (content v)) polls @ [tells 0xD0A2 []])
      (Inr True) (\<lambda>io. (v', around (after_size given p i) io))"
proof -
  let ?n = "chosen_size given i" and ?q = "after_size given p i"
  let ?k = "length (blocks_of ?n (content v))"
  let ?loop = "forever (video_body dops vio stopToken ?n) ()"
  have unst: "unstopped stopToken ?q" using assms(2) by simp
  have all: "concat (blocks_of ?n (content v)) = content v" using assms(4) by (rule concat_blocks_of)
  have k: "?k * ?n < length (content v) + ?n"
  proof -
    have "?k * ?n \<le> length (content v) + ?n - 1"
      unfolding blocks_of_def length_first_blocks by (rule div_times_less_eq_dividend)
    with assms(4) show ?thesis by linarith
  qed
  from runs_blocks [OF unst assms(4,5,1) k assms(6,7)] obtain v1
    where v1: "vok v1" "content v1 = drop (?k * ?n) (content v)"
    and go: "\<And>u r c. runs ?loop (\<lambda>io. (v1, around ?q io)) u r c \<Longrightarrow> r \<noteq> Inl Diverges \<Longrightarrow>
      runs ?loop (\<lambda>io. (v, around ?q io)) (video_talk (first_blocks ?n ?k (content v)) polls @ u) r c"
    by blast
  have blocks: "first_blocks ?n ?k (content v) = blocks_of ?n (content v)" by (simp add: blocks_of_def)
  have "take (?k * ?n) (content v) = content v"
    using all concat_first_blocks [of ?n ?k "content v"] blocks by simp
  then have "content v1 = []" using v1(2) by (metis append_self_conv append_take_drop_id)
  then obtain v' where v': "vok v'" "content v' = []"
    "runs ?loop (\<lambda>io. (v1, around ?q io)) [] (Inr True) (\<lambda>io. (v', around ?q io))"
    using runs_video_end [OF v1(1)] by metis
  have "runs ?loop (\<lambda>io. (v, around ?q io)) (video_talk (blocks_of ?n (content v)) polls) (Inr True)
      (\<lambda>io. (v', around ?q io))"
    using go [OF v'(3)] by (simp add: blocks)
  from runs_begin [OF assms(3,5) this, of params] v'(1,2) that [of v'] show thesis by auto
qed

lemma runs_write_refused:
  assumes "vok v" and "unstopped stopToken p" and "cachedInfo p = None \<or> cachedInfo p = Some i"
    and "0 < chosen_size given i" and "chosen_size given i + 4 \<le> 65535"
    and "k * chosen_size given i < length (content v)" and "length polls = k" and "polls_ok polls"
    and "list_all busy bsy" and "final AND NOT_READY \<noteq> 0"
  obtains v' where "vok v'" "content v' = drop (Suc k * chosen_size given i) (content v)"
    "runs (WriteVideoData dops vio stopToken params given) (\<lambda>io. (v, around p io))
      (size_talk given p i @ begin_talk params @
       video_talk (first_blocks (chosen_size given i) k (content v)) polls @ poll_talk bsy final)
      (Inr False) (\<lambda>io. (v', around (after_size given p i) io))"
proof -
  let ?n = "chosen_size given i" and ?q = "after_size given p i"
  let ?loop = "forever (video_body dops vio stopToken ?n) ()"
  have unst: "unstopped stopToken ?q" using assms(2) by simp
  have k: "k * ?n < length (content v) + ?n" using assms(6) by simp
  from runs_blocks [OF unst assms(4,5,1) k assms(7,8)] obtain v1
    where v1: "vok v1" "content v1 = drop (k * ?n) (content v)"
    and go: "\<And>u r c. runs ?loop (\<lambda>io. (v1, around ?q io)) u r c \<Longrightarrow> r \<noteq> Inl Diverges \<Longrightarrow>
      runs ?loop (\<lambda>io. (v, around ?q io)) (video_talk (first_blocks ?n k (content v)) polls @ u) r c"
    by blast
  have "content v1 \<noteq> []" using v1(2) assms(6) by simp
  from runs_video_refused [OF v1(1) this assms(4) unst assms(9,10)] obtain v'
    where v': "vok v'" "content v' = drop ?n (content v1)"
    "runs ?loop (\<lambda>io. (v1, around ?q io)) (poll_talk bsy final) (Inr False) (\<lambda>io. (v', around ?q io))"
    by metis
  have "content v' = drop (Suc k * ?n) (content v)" using v'(2) v1(2) by (simp add: add.commute)
  with runs_begin [OF assms(3,5) go [OF v'(3)], of params] v'(1) that [of v'] show thesis by auto
qed

end

subsection \<open>Sequences of checked commands\<close>

definition checked_seq :: "'d device_ops \<Rightarrow> (u16 \<times> string) list \<Rightarrow> (('d, 'z) printer_scheme, unit) act" where
  "checked_seq dops cmds =
    foldr (\<lambda>c k. andthen (CHECK_RETCODE (execCmd dops (fst c)) (snd c)) k) cmds (ret ())"

definition seq_talk :: "(u16 \<times> string) list \<Rightarrow> exchange list" where
  "seq_talk cmds = map (\<lambda>c. x_code (fst c) 0) cmds"

definition clear_cmds :: "ExtendedStatus \<Rightarrow> (u16 \<times> string) list" where
  "clear_cmds ex =
    [(0xE0A2, ''PCR_CLEAR_ERROR(this->stream)''), (0xE0A4, ''PCR_DISCARD_DATA(this->stream)'')] @
    (if Misprint ex then [(0xE0A3, ''PCR_CLEAR_MISPRINT(this->stream)'')] else []) @
    (if bit (Controller ex) 4 then [(0xE0A1, ''PCR_RESET_ENGINE(this->stream)'')] else [])"

lemma andthen_ret: "andthen m (ret ()) = m"
proof -
  have "(\<lambda>_ :: unit. ret ()) = ret" by (auto simp: fun_eq_iff)
  then show ?thesis by (simp add: andthen_def bnd_ret)
qed

lemma ret_andthen: "andthen (ret x) m = m"
  by (simp add: andthen_def ret_bnd)

lemma ClearError_seq:
  "ClearError dops status = bnd (case status of None \<Rightarrow> GetStatus dops | Some ex \<Rightarrow> ret ex)
    (\<lambda>ex. andthen (assertM (UnitReserved ex)) (checked_seq dops (clear_cmds ex)))"
  unfolding ClearError_def checked_seq_def clear_cmds_def flag_bits
    PCR_CLEAR_ERROR_def PCR_DISCARD_DATA_def PCR_CLEAR_MISPRINT_def PCR_RESET_ENGINE_def
  by (intro arg_cong2 [where f = bnd] refl ext) (simp add: andthen_ret ret_andthen)

context responder
begin

lemma runs_seq: "runs (checked_seq dops cmds) (around p) (seq_talk cmds) (Inr ()) (around p)"
proof (induction cmds)
  case Nil
  then show ?case by (simp add: checked_seq_def seq_talk_def runs_ret)
next
  case (Cons c cmds)
  have "runs (CHECK_RETCODE (execCmd dops (fst c)) (snd c)) (around p) [x_code (fst c) 0] (Inr ()) (around p)"
    by (rule runs_CHECK_RETCODE(1) [OF runs_code])
  from runs_andthen [OF this Cons.IH] show ?case
    by (simp add: checked_seq_def seq_talk_def)
qed

lemma runs_seq_fails:
  assumes "code \<noteq> 0"
  shows "runs (checked_seq dops (cmds @ (opcode, name) # cmds2)) (around p) (seq_talk cmds @ [x_code opcode code])
    (Inl (CaptFailure (UnexpectedReturnCode (''Protocol::'' @ name) code))) (around p)"
proof (induction cmds)
  case Nil
  have "runs (CHECK_RETCODE (execCmd dops opcode) name) (around p) [x_code opcode code]
      (Inl (CaptFailure (UnexpectedReturnCode (''Protocol::'' @ name) code))) (around p)"
    by (rule runs_CHECK_RETCODE(2) [OF runs_code assms])
  from runs_andthen_throw [OF this] show ?case by (simp add: checked_seq_def seq_talk_def)
next
  case (Cons c cmds)
  have "runs (CHECK_RETCODE (execCmd dops (fst c)) (snd c)) (around p) [x_code (fst c) 0] (Inr ()) (around p)"
    by (rule runs_CHECK_RETCODE(1) [OF runs_code])
  from runs_andthen [OF this Cons.IH] show ?case
    by (simp add: checked_seq_def seq_talk_def)
qed

lemma runs_ClearError:
  assumes "UnitReserved ex"
  shows "runs (ClearError dops (Some ex)) (around p) (seq_talk (clear_cmds ex)) (Inr ()) (around p)"
    and "Basic ex AND ERROR_BIT = 0 \<Longrightarrow>
      runs (ClearError dops None) (around p) (x_status ex # seq_talk (clear_cmds ex)) (Inr ()) (around p)"
proof -
  show given: "runs (ClearError dops (Some ex)) (around p) (seq_talk (clear_cmds ex)) (Inr ()) (around p)"
    using runs_seq [of "clear_cmds ex" p] assms by (simp add: ClearError_seq ret_bnd assertM_def ret_andthen)
  assume valid: "Basic ex AND ERROR_BIT = 0"
  show "runs (ClearError dops None) (around p) (x_status ex # seq_talk (clear_cmds ex)) (Inr ()) (around p)"
    unfolding ClearError_seq option.case
    by (rule runs_bnd [OF runs_GetStatus [OF valid], where u = "seq_talk (clear_cmds ex)"])
      (use given in \<open>simp_all add: ClearError_seq ret_bnd\<close>)
qed

text \<open>A checked command followed by a look at the status.\<close>

lemma runs_checked_status:
  assumes "\<And>code. runs m (\<lambda>io. io) [x code] (Inr code) (\<lambda>io. io)" and "Basic ex AND ERROR_BIT = 0"
    and "runs (f ex) (around p) [] r (around p)"
  shows "runs (andthen (CHECK_RETCODE m name) (bnd (GetStatus dops) f)) (around p) [x 0, x_status ex] r (around p)"
proof (rule runs_andthen [OF runs_CHECK_RETCODE(1) [OF assms(1)]])
  show "runs (bnd (GetStatus dops) f) (around p) [x_status ex] r (around p)"
    by (rule runs_bnd [OF runs_GetStatus [OF assms(2)]], rule assms(3)) simp
qed simp

lemma runs_checked_fails:
  assumes "\<And>code. runs m (\<lambda>io. io) [x code] (Inr code) (\<lambda>io. io)" and "code \<noteq> 0"
  shows "runs (andthen (CHECK_RETCODE m name) k) (around p) [x code]
    (Inl (CaptFailure (UnexpectedReturnCode (''Protocol::'' @ name) code))) (around p)"
  by (rule runs_andthen_throw [OF runs_CHECK_RETCODE(2) [OF assms]])

lemma runs_if_raise: "runs (if P then raise e else ret x) a [] (if P then Inl e else Inr x) a"
  by (simp add: run_rules)

lemmas runs_unit_command =
  runs_checked_status [OF runs_code _ runs_if_raise] runs_checked_fails [OF runs_code]

lemma runs_ReserveUnit:
  assumes "Basic ex AND ERROR_BIT = 0"
  shows "runs (ReserveUnit dops) (around p) [x_code 0xA2A0 0, x_status ex]
    (if \<not> UnitReserved ex then Inl (CaptFailure FailedToReserve) else Inr ()) (around p)"
  unfolding ReserveUnit_def PC_RESERVE_UNIT_def by (rule runs_unit_command(1) [OF assms])

lemma runs_GoOffline:
  assumes "Basic ex AND ERROR_BIT = 0"
  shows "runs (GoOffline dops) (around p) [x_code 0xE0A6 0, x_status ex]
    (if Online ex then Inl (CaptFailure FailedToOffline) else Inr ()) (around p)"
  unfolding GoOffline_def PCR_GO_OFFLINE_def by (rule runs_unit_command(1) [OF assms])

lemma runs_GoOnline:
  assumes "Basic ex AND ERROR_BIT = 0"
  shows "runs (GoOnline dops page) (around p) [x_online (word_of_nat page) 0, x_status ex] (Inr (Online ex)) (around p)"
  unfolding GoOnline_def by (rule runs_checked_status [OF runs_online assms runs_ret])

lemma runs_ReleaseUnit:
  assumes "Basic ex AND ERROR_BIT = 0" and "Basic ex' AND ERROR_BIT = 0"
  shows "\<not> UnitReserved ex \<Longrightarrow> runs (ReleaseUnit dops) (around p) [x_status ex] (Inr ()) (around p)"
    and "UnitReserved ex \<Longrightarrow> runs (ReleaseUnit dops) (around p) [x_status ex, x_code 0xE0A9 0, x_status ex']
      (if UnitReserved ex' then Inl (CaptFailure FailedToRelease) else Inr ()) (around p)"
  unfolding ReleaseUnit_def PCR_RELEASE_UNIT_def
  subgoal by (rule runs_bnd [OF runs_GetStatus [OF assms(1)], where u = "[]"]) (simp_all add: run_rules)
  subgoal
    by (rule runs_bnd [OF runs_GetStatus [OF assms(1)], where u = "[x_code 0xE0A9 0, x_status ex']"],
        simp only: not_True_eq_False if_False, rule runs_unit_command(1) [OF assms(2)], simp)
  done

end

subsection \<open>Waiting\<close>

lemma iterate_never:
  assumes step: "\<And>s w. I s w \<Longrightarrow> \<exists>s' w'. body s w = (Inr (Continue s'), w') \<and> I s' w'"
    and "I s w"
  shows "forever body s w = (Inl Diverges, w)"
proof -
  have "b = body \<longrightarrow> \<not> I s w" if "iterate b s w = Some r" for b s w r
  proof (rule iterate.raw_induct [OF _ that, where P = "\<lambda>b s w r. b = body \<longrightarrow> \<not> I s w"])
    fix f b s w r
    assume IH: "\<And>b s w r. f b s w = Some r \<Longrightarrow> b = body \<longrightarrow> \<not> I s w"
      and eq: "(case b s w of (Inl e, w') \<Rightarrow> Some (Inl e, w')
        | (Inr (Continue s'), w') \<Rightarrow> f b s' w' | (Inr (Leave x), w') \<Rightarrow> Some (Inr x, w')) = Some r"
    show "b = body \<longrightarrow> \<not> I s w"
    proof (intro impI notI)
      assume "b = body" "I s w"
      then obtain s' w' where "body s w = (Inr (Continue s'), w')" "I s' w'" using step by blast
      with IH [of b s' w' r] eq \<open>b = body\<close> show False by simp
    qed
  qed
  with assms(2) have "iterate body s w = None" by (metis not_Some_eq)
  then show ?thesis by (simp add: forever_def)
qed

context responder
begin

lemma runs_wait_step:
  assumes "runs (stop_requested stopToken) (around p) [] (Inr False) (around q)" and "Basic ex AND ERROR_BIT = 0"
  shows "runs (wait_body dops stopToken func ()) (around p) [x_status ex]
    (Inr (if func ex then Leave (Some ex) else Continue ())) (around q)"
  unfolding wait_body_def
  by (rule runs_bnd [OF assms(1)], simp only: if_False,
      rule runs_bnd [OF runs_GetStatus [OF assms(2)], where u = "[]"]) (simp_all add: run_rules)

lemma runs_wait_found:
  assumes "unstopped stopToken p" and "func ex" and "Basic ex AND ERROR_BIT = 0"
    and "list_all (\<lambda>e. \<not> func e \<and> Basic e AND ERROR_BIT = 0) exs"
  shows "runs (WaitStatus dops stopToken func) (around p) (map x_status exs @ [x_status ex]) (Inr (Some ex)) (around p)"
  using assms(4)
proof (induction exs)
  case Nil
  have "runs (wait_body dops stopToken func ()) (around p) [x_status ex] (Inr (Leave (Some ex))) (around p)"
    using runs_wait_step [OF runs_stop [OF assms(1)] assms(3), where func = func] assms(2) by simp
  then show ?case unfolding WaitStatus_def by (auto intro: runs_leave)
next
  case (Cons e exs)
  have "runs (wait_body dops stopToken func ()) (around p) [x_status e] (Inr (Continue ())) (around p)"
    using runs_wait_step [OF runs_stop [OF assms(1)], of e func] Cons.prems by simp
  moreover have "runs (forever (wait_body dops stopToken func) ()) (around p)
      (map x_status exs @ [x_status ex]) (Inr (Some ex)) (around p)"
    using Cons by (simp add: WaitStatus_def)
  ultimately show ?case unfolding WaitStatus_def by (rule runs_step) simp_all
qed

lemma runs_wait_stopped:
  assumes "list_all (\<lambda>e. \<not> func e \<and> Basic e AND ERROR_BIT = 0) exs"
    and "stopAfter p = Some (length exs)"
  shows "runs (WaitStatus dops StopSource func) (around p) (map x_status exs) (Inr None)
    (around (p\<lparr>stopAfter := Some 0\<rparr>))"
  using assms
proof (induction exs arbitrary: p)
  case Nil
  have "runs (wait_body dops StopSource func ()) (around p) [] (Inr (Leave None)) (around (p\<lparr>stopAfter := Some 0\<rparr>))"
    by (rule runs_pure)
      (use Nil in \<open>simp add: wait_body_def bnd_def stop_requested_def source_stop_requested_def ret_def\<close>)
  then show ?case unfolding WaitStatus_def by (auto intro: runs_leave)
next
  case (Cons e exs)
  let ?q = "p\<lparr>stopAfter := Some (length exs)\<rparr>"
  have "runs (stop_requested StopSource) (around p) [] (Inr False) (around ?q)"
    by (rule runs_pure) (use Cons.prems in \<open>simp add: stop_requested_def source_stop_requested_def\<close>)
  from runs_wait_step [OF this, of e func]
  have "runs (wait_body dops StopSource func ()) (around p) [x_status e] (Inr (Continue ())) (around ?q)"
    using Cons.prems by simp
  moreover have "runs (forever (wait_body dops StopSource func) ()) (around ?q) (map x_status exs) (Inr None)
      (around (?q\<lparr>stopAfter := Some 0\<rparr>))"
    using Cons.IH [of ?q] Cons.prems by (simp add: WaitStatus_def)
  ultimately have "runs (forever (wait_body dops StopSource func) ()) (around p) (map x_status (e # exs)) (Inr None)
      (around (?q\<lparr>stopAfter := Some 0\<rparr>))"
    by (rule runs_step) simp_all
  then show ?case by (simp add: WaitStatus_def)
qed

text \<open>A printer that answers every poll with busy.\<close>

lemma poll_never:
  assumes "\<And>W. respond (W @ fst (x_basic bs)) = respond W @ snd (x_basic bs)" and "busy bs"
    and "quiet (prStream p) W" and "unstopped stopToken p"
  shows "forever (poll_body dops stopToken) () p = (Inl Diverges, p)"
proof (rule iterate_never [where I = "\<lambda>_ w. unstopped stopToken w \<and> (\<exists>W. quiet (prStream w) W)"])
  fix s and w :: "('d, 'b) session_scheme"
  assume "unstopped stopToken w \<and> (\<exists>W. quiet (prStream w) W)"
  then obtain W where w: "unstopped stopToken w" "quiet (prStream w) W" by blast
  have "runs (poll_body dops stopToken ()) (around w) [x_basic bs] (Inr (Continue ())) (around w)"
    unfolding poll_body_def
    by (rule runs_bnd [OF runs_stop [OF w(1)]], simp,
        rule runs_bnd [OF runs_on_stream [OF runs_basic]])
      (use assms(2) in \<open>auto simp: busy_def intro: run_rules\<close>)
  moreover have "follows respond W [x_basic bs]" using assms(1) by simp
  ultimately obtain io' where "poll_body dops stopToken () (around w (prStream w)) =
      (Inr (Continue ()), around w io')" "quiet io' (W @ said [x_basic bs])"
    using w(2) by (blast elim: runsE)
  moreover have "unstopped stopToken (around w io')" using w(1) by (simp add: unstopped_def)
  moreover have "around w (prStream w) = w" by simp
  ultimately show "\<exists>s' w'. poll_body dops stopToken s w = (Inr (Continue s'), w') \<and>
      unstopped stopToken w' \<and> (\<exists>W. quiet (prStream w') W)"
    by (intro exI [of _ "()"] exI [of _ "around w io'"]) auto
qed (use assms in blast)

end

end
