(* ===== verification/Printer_Spec.thy ===== *)
theory Printer_Spec
  imports Printer
begin

text \<open>
  What the printer class promises: the conversations of its operations, for every device that
  keeps the contract \<open>responder\<close> and every video stream that keeps the contract of a byte source.
\<close>

subsection \<open>Properties\<close>

abbreviation sim_printer :: "sim iostream \<Rightarrow> sim session" where
  "sim_printer io \<equiv> \<lparr>prStream = io, cachedInfo = None, stopAfter = None\<rparr>"

interpretation sim_memory: video_link "sim_ops respond" "\<lambda>_. True" simIn simSent simRead respond
  memory_ops "\<lambda>_. True" "\<lambda>s. s" for respond
  by (rule video_link.intro) unfold_locales

text \<open>
C28. Clearing errors. For a status with the unit reserved the commands CLEAR_ERROR and
DISCARD_DATA are sent, then CLEAR_MISPRINT and RESET_ENGINE as the misprint bits and the
communication error bit of that status ask for them; when one of them returns a non-zero code, an
exception names it and none of the later ones is sent. Without a status given, the status
is asked for first; when the unit is not reserved an assertion fails and nothing is cleared.
\<close>

theorem clear_error_commands:
  assumes "responder dops dok pending sent consumed respond" and "Basic ex AND ERROR_BIT = 0"
  shows
    "(UnitReserved ex \<longrightarrow>
       converses dok sent consumed respond (ClearError dops (Some ex)) (around p)
         (seq_talk (clear_cmds ex)) (Inr ()) (around p) \<and>
       converses dok sent consumed respond (ClearError dops None) (around p)
         (x_status ex # seq_talk (clear_cmds ex)) (Inr ()) (around p) \<and>
       (\<forall>cs op name ds code. clear_cmds ex = cs @ (op, name) # ds \<and> code \<noteq> 0 \<longrightarrow>
         converses dok sent consumed respond (ClearError dops (Some ex)) (around p)
           (seq_talk cs @ [x_code op code])
           (Inl (CaptFailure (UnexpectedReturnCode (''Protocol::'' @ name) code))) (around p))) \<and>
     (\<not> UnitReserved ex \<longrightarrow>
       ClearError dops (Some ex) p = (Inl AssertionFailed, p) \<and>
       converses dok sent consumed respond (ClearError dops None) (around p)
         [x_status ex] (Inl AssertionFailed) (around p))"
proof -
  note r = responder.runs_bnd [OF assms(1)] and pure = responder.runs_pure [OF assms(1)]
  note status = responder.runs_GetStatus [OF assms(1,2), of p]
  let ?at = "around p" and ?conv = "converses dok sent consumed respond"
  have given: "ClearError dops (Some ex) = checked_seq dops (clear_cmds ex)" if "UnitReserved ex"
    using that by (simp add: ClearError_seq ret_bnd assertM_def ret_andthen)
  have "?conv (ClearError dops None) ?at [x_status ex] (Inl AssertionFailed) ?at" if "\<not> UnitReserved ex"
    unfolding ClearError_seq option.case
    by (rule r [OF status, where u = "[]"])
      (use that in \<open>auto intro!: pure simp: assertM_def andthen_def bnd_def raise_def\<close>)
  moreover have "ClearError dops (Some ex) p = (Inl AssertionFailed, p)" if "\<not> UnitReserved ex"
    using that by (simp add: ClearError_seq ret_bnd assertM_def andthen_def bnd_def raise_def)
  moreover have "?conv (ClearError dops (Some ex)) ?at (seq_talk cs @ [x_code op code])
      (Inl (CaptFailure (UnexpectedReturnCode (''Protocol::'' @ name) code))) ?at"
    if "UnitReserved ex" "clear_cmds ex = cs @ (op, name) # ds" "code \<noteq> 0" for cs op name ds code
    unfolding given [OF that(1)] that(2) by (rule responder.runs_seq_fails [OF assms(1) that(3)])
  ultimately show ?thesis using responder.runs_ClearError [OF assms(1), of ex p] assms(2) by blast
qed

theorem clear_error_commands_witness:
  "let ex = idle_status\<lparr>Engine := 0x80\<rparr>;
       t = [x_code 0xE0A2 0, x_code 0xE0A4 0, x_code 0xE0A3 0]
   in \<exists>io'. ClearError (sim_ops (respond_of t)) (Some ex) (sim_printer new_sim) = (Inr (), sim_printer io') \<and>
     simSent (isDev io') = said t"
proof -
  let ?ex = "idle_status\<lparr>Engine := 0x80\<rparr>"
  let ?t = "[x_code 0xE0A2 0, x_code 0xE0A4 0, x_code 0xE0A3 0]"
  have bits: "UnitReserved ?ex" "Misprint ?ex" "\<not> bit (Controller ?ex) 4" "Basic ?ex AND ERROR_BIT = 0"
    by (simp_all add: UnitReserved_def Misprint_def idle_status_def status_flags)
  have talk: "seq_talk (clear_cmds ?ex) = ?t"
    unfolding clear_cmds_def using bits by (simp add: seq_talk_def)
  show ?thesis
    using clear_error_commands [OF sim.responder_axioms bits(4), of "respond_of ?t" "sim_printer new_sim"]
      bits(1) sim_run [of ?t "ClearError (sim_ops (respond_of ?t)) (Some ?ex)" sim_printer "Inr ()" sim_printer]
    by (simp add: talk Let_def)
qed



text \<open>
C30. Waiting for the end of printing. When the printer reports statuses that are still
printing and then one that is not, the wait returns that one after exactly these requests;
with a stop request that comes after some statuses it returns nothing and asks no more. Without a
stop request a printer that reports printing for ever is waited for for ever.
\<close>

theorem wait_print_end:
  assumes "responder dops dok pending sent consumed respond"
    and "list_all (\<lambda>e. IsPrinting e \<and> Basic e AND ERROR_BIT = 0) exs"
    and "\<not> IsPrinting ex" and "Basic ex AND ERROR_BIT = 0"
  shows
    "(unstopped stopToken p \<longrightarrow>
       converses dok sent consumed respond (WaitPrintEnd dops stopToken) (around p)
         (map x_status exs @ [x_status ex]) (Inr (Some ex)) (around p)) \<and>
     (stopAfter p = Some (length exs) \<longrightarrow>
       converses dok sent consumed respond (WaitPrintEnd dops StopSource) (around p)
         (map x_status exs) (Inr None) (around (p\<lparr>stopAfter := Some 0\<rparr>))) \<and>
     converses dok sent consumed respond (WaitPrintEndDefault dops) (around p)
         (map x_status exs @ [x_status ex]) (Inr ex) (around p)"
proof (intro conjI impI)
  have exs: "list_all (\<lambda>e. \<not> \<not> IsPrinting e \<and> Basic e AND ERROR_BIT = 0) exs" using assms(2) by simp
  note found = responder.runs_wait_found [OF assms(1) _ assms(3,4) exs]
  show "converses dok sent consumed respond (WaitPrintEnd dops stopToken) (around p)
         (map x_status exs @ [x_status ex]) (Inr (Some ex)) (around p)" if "unstopped stopToken p"
    unfolding WaitPrintEnd_def using that by (rule found)
  show "converses dok sent consumed respond (WaitPrintEnd dops StopSource) (around p)
         (map x_status exs) (Inr None) (around (p\<lparr>stopAfter := Some 0\<rparr>))" if "stopAfter p = Some (length exs)"
    unfolding WaitPrintEnd_def by (rule responder.runs_wait_stopped [OF assms(1) exs that])
  have "unstopped NoSource p" by (simp add: unstopped_def)
  then show "converses dok sent consumed respond (WaitPrintEndDefault dops) (around p)
         (map x_status exs @ [x_status ex]) (Inr ex) (around p)"
    unfolding WaitPrintEndDefault_def WaitPrintEnd_def
    by (intro responder.runs_bnd [OF assms(1) found, where u = "[]"])
      (simp_all add: optional_value_def responder.runs_ret [OF assms(1)])
qed

theorem wait_print_end_witness:
  "let ex = idle_status\<lparr>Aux := 4\<rparr>; t = [x_status ex, x_status idle_status]
   in \<exists>io'. WaitPrintEndDefault (sim_ops (respond_of t)) (sim_printer new_sim) = (Inr idle_status, sim_printer io') \<and>
     simSent (isDev io') = said t"
proof -
  let ?ex = "idle_status\<lparr>Aux := 4\<rparr>"
  let ?t = "[x_status ?ex, x_status idle_status]"
  have bits: "IsPrinting ?ex" "\<not> IsPrinting idle_status" "Basic ?ex AND ERROR_BIT = 0" "Basic idle_status AND ERROR_BIT = 0"
    by (simp_all add: IsPrinting_def Online_def idle_status_def status_flags)
  show ?thesis
    using wait_print_end [OF sim.responder_axioms [of "respond_of ?t"], where exs = "[?ex]" and ex = idle_status
        and p = "sim_printer new_sim"] bits
      sim_run [of ?t "WaitPrintEndDefault (sim_ops (respond_of ?t))" sim_printer "Inr idle_status" sim_printer]
    by (simp add: Let_def)
qed

text \<open>
C6. A page is sent. With a printer that accepts each block after finitely many busy answers,
WriteVideoData returns true; what it has sent is the request for the printer information when
the block size is needed and not known, BEGIN_PAGE with the parameters and BEGIN_DATA, all the
bytes of the video stream in order in blocks of the block size, each after the polls until
the printer was free, and END_PAGE. The information is cached, the video stream is used up.
\<close>

theorem video_data_sent:
  assumes "responder dops dok pending sent consumed respond" and "byte_source vio vok content"
    and "vok v" and "unstopped stopToken p" and "cachedInfo p = None \<or> cachedInfo p = Some i"
    and "0 < chosen_size given i" and "chosen_size given i + 4 \<le> 65535"
    and "length polls = length (blocks_of (chosen_size given i) (content v))" and "polls_ok polls"
  shows "\<exists>v'. content v' = [] \<and>
    converses dok sent consumed respond (WriteVideoData dops vio stopToken params given)
      (\<lambda>io. (v, around p io))
      (size_talk given p i @ begin_talk params @
       video_talk (blocks_of (chosen_size given i) (content v)) polls @ [tells 0xD0A2 []])
      (Inr True) (\<lambda>io. (v', around (after_size given p i) io)) \<and>
    concat (blocks_of (chosen_size given i) (content v)) = content v"
proof -
  have link: "video_link dops dok pending sent consumed respond vio vok content"
    using assms(1,2) by (rule video_link.intro)
  have "concat (blocks_of (chosen_size given i) (content v)) = content v"
    using assms(6) by (rule concat_blocks_of)
  with video_link.runs_write_video [OF link assms(3-9), of params] show ?thesis by metis
qed

theorem video_data_sent_witness:
  "let t = [tells 0xD0A0 (begin_page_payload dummyParams), tells 0xD0A1 [],
            x_basic 0, tells 0xC0A0 [1, 2], x_basic 8, x_basic 0, tells 0xC0A0 [3], tells 0xD0A2 []]
   in \<exists>v' io'. WriteVideoData (sim_ops (respond_of t)) memory_ops NoSource dummyParams 2 ([1, 2, 3], sim_printer new_sim) =
       (Inr True, (v', sim_printer io')) \<and> simSent (isDev io') = said t"
proof -
  let ?t = "[tells 0xD0A0 (begin_page_payload dummyParams), tells 0xD0A1 [],
    x_basic 0, tells 0xC0A0 [1, 2], x_basic 8, x_basic 0, tells 0xC0A0 [3], tells 0xD0A2 []]"
  have blocks: "blocks_of 2 [1, 2, 3 :: byte] = [[1, 2], [3]]"
  proof -
    have "(length [1, 2, 3 :: byte] + 2 - 1) div 2 = Suc (Suc 0)" by simp
    then show ?thesis unfolding blocks_of_def by (simp only: first_blocks.simps) simp
  qed
  have size: "chosen_size 2 i = 2" "size_talk 2 p i = []" "after_size 2 p i = p" for i and p :: "sim session"
    by (simp_all add: chosen_size_def size_talk_def after_size_def)
  have polls: "polls_ok [([], 0), ([8], 0)]"
    by (simp add: polls_ok_def busy_def accepts_def status_flags)
  obtain v' where "converses (\<lambda>_. True) simSent simRead (respond_of ?t)
      (WriteVideoData (sim_ops (respond_of ?t)) memory_ops NoSource dummyParams 2)
      (\<lambda>io. ([1, 2, 3], sim_printer io)) ?t (Inr True) (\<lambda>io. (v', sim_printer io))"
    using video_data_sent [OF sim.responder_axioms [of "respond_of ?t"] memory.byte_source_axioms,
        where v = "[1, 2, 3]" and stopToken = NoSource and p = "sim_printer new_sim" and given = 2
        and polls = "[([], 0), ([8], 0)]" and params = dummyParams] polls
    by (auto simp: size blocks unstopped_def begin_talk_def video_talk_def block_talk_def poll_talk_def)
  from sim_run [OF this] show ?thesis by (auto simp: Let_def tells_def)
qed

text \<open>
C9. A page is refused. When the printer, after accepting some blocks and answering busy some
times, reports that it is not ready, WriteVideoData returns false at once: the block it has
read and the rest of the page are not sent, END_PAGE is not sent, and the video stream stands
behind the lost block. The same without a poll when a stop has been requested.
\<close>

theorem video_refused:
  assumes "responder dops dok pending sent consumed respond" and "byte_source vio vok content"
    and "vok v" and "cachedInfo p = None \<or> cachedInfo p = Some i"
    and "0 < chosen_size given i" and "chosen_size given i + 4 \<le> 65535"
    and "k * chosen_size given i < length (content v)" and "length polls = k" and "polls_ok polls"
    and "list_all busy bsy" and "final AND NOT_READY \<noteq> 0"
  shows
    "(unstopped stopToken p \<longrightarrow> (\<exists>v'. content v' = drop (Suc k * chosen_size given i) (content v) \<and>
      converses dok sent consumed respond (WriteVideoData dops vio stopToken params given)
        (\<lambda>io. (v, around p io))
        (size_talk given p i @ begin_talk params @
         video_talk (first_blocks (chosen_size given i) k (content v)) polls @ poll_talk bsy final)
        (Inr False) (\<lambda>io. (v', around (after_size given p i) io)))) \<and>
     (stopAfter p = Some 0 \<longrightarrow> (\<exists>v'. content v' = drop (chosen_size given i) (content v) \<and>
      converses dok sent consumed respond (WriteVideoData dops vio StopSource params given)
        (\<lambda>io. (v, around p io)) (size_talk given p i @ begin_talk params) (Inr False)
        (\<lambda>io. (v', around (after_size given p i) io))))"
proof (intro conjI impI)
  have link: "video_link dops dok pending sent consumed respond vio vok content"
    using assms(1,2) by (rule video_link.intro)
  let ?n = "chosen_size given i" and ?q = "after_size given p i"
  {
    assume "unstopped stopToken p"
    from video_link.runs_write_refused [OF link assms(3) this assms(4-11), of params]
    show "\<exists>v'. content v' = drop (Suc k * ?n) (content v) \<and>
      converses dok sent consumed respond (WriteVideoData dops vio stopToken params given)
        (\<lambda>io. (v, around p io))
        (size_talk given p i @ begin_talk params @
         video_talk (first_blocks ?n k (content v)) polls @ poll_talk bsy final)
        (Inr False) (\<lambda>io. (v', around ?q io))"
      by metis
  next
    assume "stopAfter p = Some 0"
    then have stop: "stopAfter ?q = Some 0" by (simp add: after_size_def)
    have "content v \<noteq> []" using assms(7) by auto
    from video_link.runs_video_stopped [OF link assms(3) this assms(5) stop] obtain v'
      where v': "content v' = drop ?n (content v)"
      "converses dok sent consumed respond (forever (video_body dops vio StopSource ?n) ())
        (\<lambda>io. (v, around ?q io)) [] (Inr False) (\<lambda>io. (v', around ?q io))"
      by metis
    from video_link.runs_begin [OF link assms(4,6) v'(2), of params] v'(1)
    show "\<exists>v'. content v' = drop ?n (content v) \<and>
      converses dok sent consumed respond (WriteVideoData dops vio StopSource params given)
        (\<lambda>io. (v, around p io)) (size_talk given p i @ begin_talk params) (Inr False)
        (\<lambda>io. (v', around ?q io))"
      by auto
  }
qed

theorem video_refused_witness:
  "let t = [x_info \<lparr>DeviceId = 0, infoType = 0, VersionMajor = 1, VersionMinor = 0, BlockSize = 2, Buffers = 9\<rparr>,
            tells 0xD0A0 (begin_page_payload dummyParams), tells 0xD0A1 [],
            x_basic 0, tells 0xC0A0 [1, 2], x_basic 8, x_basic 2]
   in \<exists>v' p' io'. WriteVideoData (sim_ops (respond_of t)) memory_ops NoSource dummyParams 0 ([1, 2, 3], sim_printer new_sim) =
       (Inr False, (v', p'\<lparr>prStream := io'\<rparr>)) \<and> simSent (isDev io') = said t"
proof -
  let ?i = "\<lparr>DeviceId = 0, infoType = 0, VersionMajor = 1, VersionMinor = 0, BlockSize = 2, Buffers = 9\<rparr>"
  let ?t = "[x_info ?i, tells 0xD0A0 (begin_page_payload dummyParams), tells 0xD0A1 [],
    x_basic 0, tells 0xC0A0 [1, 2], x_basic 8, x_basic 2]"
  have size: "chosen_size 0 ?i = 2" "size_talk 0 (sim_printer new_sim) ?i = [x_info ?i]"
    by (simp_all add: chosen_size_def size_talk_def)
  have flags: "polls_ok [([], 0)]" "list_all busy [8]" "(2 :: byte) AND NOT_READY \<noteq> 0"
    by (simp_all add: polls_ok_def busy_def accepts_def status_flags)
  have blocks: "first_blocks 2 1 [1, 2, 3 :: byte] = [[1, 2]]" by simp
  obtain v' where "converses (\<lambda>_. True) simSent simRead (respond_of ?t)
      (WriteVideoData (sim_ops (respond_of ?t)) memory_ops NoSource dummyParams 0)
      (\<lambda>io. ([1, 2, 3], sim_printer io)) ?t (Inr False)
      (\<lambda>io. (v', around (after_size 0 (sim_printer new_sim) ?i) io))"
    using video_refused [OF sim.responder_axioms [of "respond_of ?t"] memory.byte_source_axioms,
        where v = "[1, 2, 3]" and stopToken = NoSource and p = "sim_printer new_sim" and given = 0 and i = ?i
        and polls = "[([], 0)]" and bsy = "[8]" and final = 2 and k = 1 and params = dummyParams] flags
    by (auto simp: size blocks unstopped_def begin_talk_def video_talk_def block_talk_def poll_talk_def)
  from sim_run [OF this] show ?thesis by (auto simp: Let_def tells_def)
qed

text \<open>
C10. A busy printer blocks the program. When the printer answers every poll with busy, sending
a page without a stop token (as \<^verbatim>\<open>examples/printpbm.cpp\<close> does) never returns,
whatever has been requested through the stop source.
\<close>

theorem busy_printer_blocks:
  assumes "responder dops dok pending sent consumed respond" and "byte_source vio vok content"
    and "settled dok sent consumed respond (prStream p) W" and "vok v" and "content v \<noteq> []"
    and "0 < n" and "n + 4 \<le> 65535"
    and "follows respond W (begin_talk params)"
    and "\<And>W. respond (W @ fst (x_basic bs)) = respond W @ snd (x_basic bs)" and "busy bs"
  shows "fst (WriteVideoDataDefault dops vio params n (v, p)) = Inl Diverges"
proof -
  have link: "video_link dops dok pending sent consumed respond vio vok content"
    using assms(1,2) by (rule video_link.intro)
  note step = responder.runs_andthen [OF assms(1)] responder.runs_on_stream [OF assms(1)]
    responder.runs_lift [OF assms(1)] responder.runs_tells [OF assms(1)]
  have never: "fst (forever (video_body dops vio NoSource n) () (v, around p io)) = Inl Diverges"
    if "settled dok sent consumed respond io W'" for io W'
  proof -
    obtain v1 where v1: "sgetn vio n v = Inr (take n (content v), v1)"
      using byte_source.read [OF assms(2,4)] by (rule deliversE)
    have "forever (poll_body dops NoSource) () (around p io) = (Inl Diverges, around p io)"
      by (rule responder.poll_never [OF assms(1,9,10)]) (use that in \<open>simp_all add: unstopped_def\<close>)
    then have "video_body dops vio NoSource n () (v, around p io) = (Inl Diverges, (v1, around p io))"
      using v1 assms(5,6) by (simp add: video_body_def video_read_def bnd_def lift_def)
    then have "forever (video_body dops vio NoSource n) () (v, around p io) = (Inl Diverges, (v1, around p io))"
      by (rule forever_throw)
    then show ?thesis by simp
  qed
  have "converses dok sent consumed respond
      (andthen (lift (on_stream (IC_BEGIN_PAGE dops params))) (lift (on_stream (IC_BEGIN_DATA dops))))
      (\<lambda>io. (v, around p io)) (begin_talk params) (Inr ()) (\<lambda>io. (v, around p io))"
    unfolding IC_BEGIN_PAGE_def IC_BEGIN_DATA_def
    by (rule step(1), rule step(3), rule step(2), rule step(4), simp add: length_begin_page_payload,
        rule step(3), rule step(2), rule step(4)) (simp_all add: begin_talk_def)
  then obtain io' where io': "andthen (lift (on_stream (IC_BEGIN_PAGE dops params)))
      (lift (on_stream (IC_BEGIN_DATA dops))) (v, around p (prStream p)) = (Inr (), (v, around p io'))"
    "settled dok sent consumed respond io' (W @ said (begin_talk params))"
    using responder.runsE [OF assms(1) _ assms(3,8)] by blast
  have run: "andthen (lift (on_stream (IC_BEGIN_PAGE dops params)))
      (andthen (lift (on_stream (IC_BEGIN_DATA dops))) k) (v, p) = k (v, around p io')" for k
    using io'(1) by (auto simp: andthen_def bnd_def split: prod.splits sum.splits)
  show ?thesis
    using assms(6,7) never [OF io'(2)]
    by (simp add: WriteVideoDataDefault_def WriteVideoData_def ret_bnd assertM_def ret_andthen run)
      (auto simp: bnd_def split: prod.splits)
qed

text \<open>A device that answers each poll with busy, and nothing else.\<close>

fun busy_answers :: "byte list \<Rightarrow> byte list" where
  "busy_answers (d # c # b # a # bs) =
    (if [a, b, c, d] = packet_bytes 0xE0A0 [] then busy_answers bs @ packet_bytes 0xE0A0 [8] else [])"
| "busy_answers bs = []"

lemma busy_answers_poll:
  "busy_answers (rev (W @ fst (x_basic 8))) = busy_answers (rev W) @ snd (x_basic 8)"
  by (simp add: x_basic_def asks_def packet_bytes_def le_bytes_2)

theorem busy_printer_blocks_witness:
  "fst (WriteVideoDataDefault (sim_ops (busy_answers \<circ> rev)) memory_ops dummyParams 2 ([1], sim_printer new_sim)) =
    Inl Diverges"
proof (rule busy_printer_blocks [OF sim.responder_axioms memory.byte_source_axioms, where W = "[]" and bs = 8])
  show "settled (\<lambda>_. True) simSent simRead (busy_answers \<circ> rev) (prStream (sim_printer new_sim)) []"
    by (simp add: settled_def new_sim_def)
  show "follows (busy_answers \<circ> rev) [] (begin_talk dummyParams)"
    by (simp add: begin_talk_def tells_def packet_bytes_def begin_page_payload_def AppendUint16_bytes
        AppendByte_def dummyParams_def le_bytes_2)
  show "(busy_answers \<circ> rev) (W @ fst (x_basic 8)) = (busy_answers \<circ> rev) W @ snd (x_basic 8)" for W
    using busy_answers_poll by simp
  show "busy 8" by (simp add: busy_def status_flags)
qed simp_all

end
