(* ===== verification/Keeps.thy ===== *)
theory Keeps
  imports Capt_Io
begin

text \<open>
  Actions that preserve an invariant. \<open>keeps I m\<close> says that \<open>m\<close> does, however it ends; its rules
  follow the structure of composed actions and are in the collection \<open>keep_rules\<close>, so that the
  lemma of an operation applies those of its parts.
\<close>

subsection \<open>Actions that keep an invariant\<close>

definition keeps :: "('w \<Rightarrow> bool) \<Rightarrow> ('w, 'a) act \<Rightarrow> bool" where
  "keeps I m \<longleftrightarrow> (\<forall>w. I w \<longrightarrow> I (snd (m w)))"

text \<open>The invariant of the right component of a state.\<close>

definition beside :: "('w \<Rightarrow> bool) \<Rightarrow> 'p \<times> 'w \<Rightarrow> bool" where
  "beside I s \<longleftrightarrow> I (snd s)"

lemma beside_Pair [simp]: "beside I (p, w) \<longleftrightarrow> I w"
  by (simp add: beside_def)

lemma keepsI: "(\<And>w. I w \<Longrightarrow> I (snd (m w))) \<Longrightarrow> keeps I m"
  and keepsD: "keeps I m \<Longrightarrow> I w \<Longrightarrow> m w = (r, w') \<Longrightarrow> I w'"
  by (auto simp: keeps_def dest: arg_cong [where f = snd])

named_theorems keep_rules \<open>actions that keep an invariant\<close>

lemma keeps_ret [keep_rules]: "keeps I (ret x)"
  and keeps_raise [keep_rules]: "keeps I (raise e)"
  and keeps_assertM [keep_rules]: "keeps I (assertM P)"
  by (simp_all add: keeps_def ret_def raise_def assertM_def)

lemma keeps_bnd [keep_rules]: "keeps I m \<Longrightarrow> (\<And>x. keeps I (f x)) \<Longrightarrow> keeps I (bnd m f)"
  by (fastforce simp: keeps_def bnd_def split: prod.splits sum.splits)

lemma keeps_andthen [keep_rules]: "keeps I m \<Longrightarrow> keeps I k \<Longrightarrow> keeps I (andthen m k)"
  unfolding andthen_def by (intro keep_rules)

lemma keeps_if [keep_rules]: "keeps I m \<Longrightarrow> keeps I k \<Longrightarrow> keeps I (if c then m else k)"
  by simp

lemma keeps_option [keep_rules]:
  "keeps I m \<Longrightarrow> (\<And>x. keeps I (f x)) \<Longrightarrow> keeps I (case y of None \<Rightarrow> m | Some x \<Rightarrow> f x)"
  by (cases y) simp_all

lemma keeps_prod [keep_rules]: "(\<And>x y. keeps I (f x y)) \<Longrightarrow> keeps I (case z of (x, y) \<Rightarrow> f x y)"
  by (cases z) simp

lemma keeps_lift [keep_rules]: "keeps I m \<Longrightarrow> keeps (beside I) (lift m)"
  by (fastforce simp: keeps_def lift_def beside_def split: prod.splits)

lemma keeps_map: "keeps (beside I) m \<Longrightarrow> keeps (beside I) (\<lambda>s. m (f (fst s), snd s))"
  by (simp add: keeps_def beside_def)

lemma keeps_with_local:
  assumes "keeps (beside I) body" and "\<And>s. I (snd s) \<Longrightarrow> I (destroy s)"
  shows "keeps I (with_local p destroy body)"
proof (rule keepsI)
  fix w assume "I w"
  then have "I (snd (snd (body (p, w))))" using assms(1) by (simp add: keeps_def beside_def)
  then have "I (destroy (snd (body (p, w))))" by (rule assms(2))
  then show "I (snd (with_local p destroy body w))" by (simp add: with_local_def case_prod_beta)
qed

lemma iterate_keeps:
  assumes "iterate body s w = Some r"
  shows "(\<forall>s. keeps I (body s)) \<longrightarrow> I w \<longrightarrow> I (snd r)"
proof (rule iterate.raw_induct [OF _ assms, where P = "\<lambda>body s w r. (\<forall>s. keeps I (body s)) \<longrightarrow> I w \<longrightarrow> I (snd r)"],
    intro impI)
  fix iter body s w r
  assume IH: "\<And>s w b y. iter s w b = Some y \<Longrightarrow> (\<forall>t. keeps I (s t)) \<longrightarrow> I b \<longrightarrow> I (snd y)"
    and eq: "(case body s w of (Inl e, w') \<Rightarrow> Some (Inl e, w')
      | (Inr (Continue s'), w') \<Rightarrow> iter body s' w' | (Inr (Leave x), w') \<Rightarrow> Some (Inr x, w')) = Some r"
    and kept: "\<forall>s. keeps I (body s)" "I w"
  obtain q w' where q: "body s w = (q, w')" by (cases "body s w")
  with kept have "I w'" by (blast dest: keepsD)
  with IH eq kept(1) q show "I (snd r)" by (auto split: sum.splits ctrl.splits)
qed

lemma keeps_forever [keep_rules]:
  assumes "\<And>s. keeps I (body s)"
  shows "keeps I (forever body s)"
  by (rule keepsI) (use assms in \<open>auto simp: forever_def split: option.split dest: iterate_keeps [where I = I]\<close>)

subsection \<open>Actions that return\<close>

text \<open>When the action returns, the result and the state it leaves are related by \<open>Q\<close>.\<close>

definition returns :: "('w \<Rightarrow> bool) \<Rightarrow> ('w, 'a) act \<Rightarrow> ('a \<Rightarrow> 'w \<Rightarrow> bool) \<Rightarrow> bool" where
  "returns P m Q \<longleftrightarrow> (\<forall>w x w'. P w \<longrightarrow> m w = (Inr x, w') \<longrightarrow> Q x w')"

lemma returnsI: "(\<And>w x w'. P w \<Longrightarrow> m w = (Inr x, w') \<Longrightarrow> Q x w') \<Longrightarrow> returns P m Q"
  and returnsD: "returns P m Q \<Longrightarrow> P w \<Longrightarrow> m w = (Inr x, w') \<Longrightarrow> Q x w'"
  by (auto simp: returns_def)

lemma returns_ret: "(\<And>w. P w \<Longrightarrow> Q x w) \<Longrightarrow> returns P (ret x) Q"
  and returns_raise: "returns P (raise e) Q"
  by (auto simp: returns_def ret_def raise_def)

lemma returns_bnd: "returns P m R \<Longrightarrow> (\<And>x. returns (R x) (f x) Q) \<Longrightarrow> returns P (bnd m f) Q"
  by (fastforce simp: returns_def bnd_def split: prod.splits sum.splits)

lemma returns_andthen: "returns P m (\<lambda>_. R) \<Longrightarrow> returns R k Q \<Longrightarrow> returns P (andthen m k) Q"
  unfolding andthen_def by (rule returns_bnd)

lemma returns_any: "returns P m (\<lambda>_ _. True)"
  by (simp add: returns_def)

lemma returns_bnd_last: "(\<And>x. returns (\<lambda>_. True) (f x) Q) \<Longrightarrow> returns P (bnd m f) Q"
  and returns_andthen_last: "returns (\<lambda>_. True) k Q \<Longrightarrow> returns P (andthen m k) Q"
  by (rule returns_bnd [OF returns_any], assumption) (rule returns_andthen [OF returns_any])

lemma returns_if: "(c \<Longrightarrow> returns P m Q) \<Longrightarrow> (\<not> c \<Longrightarrow> returns P k Q) \<Longrightarrow> returns P (if c then m else k) Q"
  by simp

lemma returns_lift: "returns (\<lambda>_. True) m Q \<Longrightarrow> returns P (lift m) (\<lambda>x. beside (Q x))"
  by (fastforce simp: returns_def lift_def beside_def split: prod.splits)

lemma returns_with_local:
  assumes "returns (beside P) body R" and "\<And>x s. R x s \<Longrightarrow> Q x (destroy s)"
  shows "returns P (with_local p destroy body) Q"
proof (rule returnsI)
  fix w x w' assume "P w" and run: "with_local p destroy body w = (Inr x, w')"
  obtain r s where "body (p, w) = (r, s)" by (cases "body (p, w)")
  with run have "body (p, w) = (Inr x, s)" and w': "w' = destroy s" by (simp_all add: with_local_def)
  moreover have "beside P (p, w)" using \<open>P w\<close> by simp
  ultimately have "R x s" using returnsD [OF assms(1)] by blast
  with w' show "Q x w'" by (simp add: assms(2))
qed

text \<open>A loop returns where its body leaves.\<close>

lemma iterate_returns:
  assumes "iterate body s w = Some r"
  shows "(\<forall>s w w' x. body s w = (Inr (Leave x), w') \<longrightarrow> Q x w') \<longrightarrow> (\<forall>x. fst r = Inr x \<longrightarrow> Q x (snd r))"
proof (rule iterate.raw_induct [OF _ assms, where P = "\<lambda>body s w r.
    (\<forall>s w w' x. body s w = (Inr (Leave x), w') \<longrightarrow> Q x w') \<longrightarrow> (\<forall>x. fst r = Inr x \<longrightarrow> Q x (snd r))"], intro impI)
  fix iter body s w r
  assume IH: "\<And>s w b y. iter s w b = Some y \<Longrightarrow>
      (\<forall>t w w' x. s t w = (Inr (Leave x), w') \<longrightarrow> Q x w') \<longrightarrow> (\<forall>x. fst y = Inr x \<longrightarrow> Q x (snd y))"
    and eq: "(case body s w of (Inl e, w') \<Rightarrow> Some (Inl e, w')
      | (Inr (Continue s'), w') \<Rightarrow> iter body s' w' | (Inr (Leave x), w') \<Rightarrow> Some (Inr x, w')) = Some r"
    and leave: "\<forall>s w w' x. body s w = (Inr (Leave x), w') \<longrightarrow> Q x w'"
  obtain q w' where q: "body s w = (q, w')" by (cases "body s w")
  show "\<forall>x. fst r = Inr x \<longrightarrow> Q x (snd r)"
    using eq q leave IH [of body _ _ r] by (auto split: sum.splits ctrl.splits)
qed

lemma returns_forever:
  assumes "\<And>s. returns (\<lambda>_. True) (body s) (\<lambda>c w. \<forall>x. c = Leave x \<longrightarrow> Q x w)"
  shows "returns P (forever body s) Q"
proof (rule returnsI)
  fix w x w' assume run: "forever body s w = (Inr x, w')"
  then have "iterate body s w = Some (Inr x, w')" by (simp add: forever_def split: option.splits)
  with assms show "Q x w'" using iterate_returns [of body s w "(Inr x, w')" Q] by (auto simp: returns_def)
qed

end
