(* ===== verification/Well_Sent.thy ===== *)
theory Well_Sent
  imports Keeps Device "HOL-Library.Sublist"
begin

text \<open>
  The type of what is sent. Whatever a device does - answers nothing, answers wrongly, refuses
  bytes, fails to flush - and however a command ends, what the device gets is a sequence of
  commands of the protocol, each a packet with the size of payload its opcode has; only the
  last may be cut off, and then the stream is not used again.

  \<open>typed\<close> checks this for a list of bytes, \<open>well_sent\<close> is the invariant of a stream. The locale
  \<open>sink\<close> is all that is assumed of a device: \<open>out\<close> are the bytes it has accepted, \<open>got\<close> those
  of them that have arrived; a flush that succeeds brings the rest, a write or a flush that fails
  may lose it.
\<close>

subsection \<open>Well-typed bytes\<close>

text \<open>The opcodes of the commands, with the size of the payload of each.\<close>

definition command_ok :: "u16 \<Rightarrow> nat \<Rightarrow> bool" where
  "command_ok opcode n \<longleftrightarrow>
    (if opcode \<in> set [0xA0A0, 0xA1A1, 0xA2A0, 0xD0A1, 0xD0A2, 0xE0A0, 0xE0A1, 0xE0A2, 0xE0A3, 0xE0A4, 0xE0A6, 0xE0A9]
     then n = 0
     else if opcode \<in> set [0xE0A5, 0xE0AD] then n = 8
     else if opcode = 0xD0A0 then n = 34
     else opcode = 0xC0A0 \<and> n \<le> 65531)"

function typed :: "byte list \<Rightarrow> bool" where
  "typed bs =
    (if bs = [] then True
     else let n = le_value (take 2 (drop 2 bs))
       in if 4 \<le> n \<and> n \<le> length bs
          then command_ok (word_of_nat (le_value (take 2 bs))) (n - 4) \<and> typed (drop n bs)
          else False)"
  by pat_completeness auto
termination by (relation "measure length") (auto simp: le_value_less)

declare typed.simps [simp del]

lemma typed_Nil [simp]: "typed []"
  by (simp add: typed.simps)

lemma typed_packet:
  assumes "length payload \<le> 65531"
  shows "typed (packet_bytes opcode payload @ bs) \<longleftrightarrow> command_ok opcode (length payload) \<and> typed bs"
proof -
  have size: "le_value (take 2 (drop 2 (packet_bytes opcode payload))) = 4 + length payload"
    using assms by (simp add: packet_bytes_def le_value_le_bytes)
  have op: "word_of_nat (le_value (take 2 (packet_bytes opcode payload))) = opcode"
    by (simp add: packet_bytes_def le_value_2)
  have len: "length (packet_bytes opcode payload) = 4 + length payload"
    by (simp add: packet_bytes_def)
  show ?thesis
    by (subst typed.simps) (simp add: size op len Let_def)
qed

lemma typed_append: "typed xs \<Longrightarrow> typed ys \<Longrightarrow> typed (xs @ ys)"
proof (induction xs rule: typed.induct)
  case (1 xs)
  show ?case
  proof (cases "xs = []")
    case False
    let ?n = "le_value (take 2 (drop 2 xs))"
    have n: "4 \<le> ?n" "?n \<le> length xs" "command_ok (word_of_nat (le_value (take 2 xs))) (?n - 4)" "typed (drop ?n xs)"
      using 1(2) False by (auto simp: typed.simps [of xs] Let_def split: if_splits)
    then have "typed (drop ?n xs @ ys)" using 1(1) [OF False refl] 1(3) by simp
    with n show ?thesis by (subst typed.simps) (simp add: Let_def)
  qed (use 1 in simp)
qed

lemma command_ok_size: "command_ok opcode n \<Longrightarrow> n \<le> 65531"
  by (auto simp: command_ok_def split: if_splits)

subsection \<open>Devices\<close>

locale sink =
  fixes dops :: "'d device_ops"
    and out :: "'d \<Rightarrow> byte list"
    and got :: "'d \<Rightarrow> byte list"
  assumes arrived: "prefix (got d) (out d)"
    and sink_read: "out (snd (dRead dops n d)) = out d" "got (snd (dRead dops n d)) = got d"
    and sink_bump: "out (snd (dBump dops d)) = out d" "got (snd (dBump dops d)) = got d"
    and sink_write: "dWrite dops bs d = (n, d') \<Longrightarrow> n = length bs \<Longrightarrow> out d' = out d @ bs"
      "dWrite dops bs d = (n, d') \<Longrightarrow> prefix (got d') (out d @ bs)"
    and sink_sync: "dSync dops d = (True, d') \<Longrightarrow> out d' = out d \<and> got d' = out d"
      "dSync dops d = (ok, d') \<Longrightarrow> prefix (got d') (out d)"

definition well_sent :: "('d \<Rightarrow> byte list) \<Rightarrow> ('d \<Rightarrow> byte list) \<Rightarrow> 'd iostream \<Rightarrow> bool" where
  "well_sent out got io \<longleftrightarrow>
    (isGood io \<longrightarrow> typed (out (isDev io)) \<and> got (isDev io) = out (isDev io)) \<and>
    (\<exists>more. typed (got (isDev io) @ more))"

context sink
begin

abbreviation sends :: "'d iostream \<Rightarrow> bool" where
  "sends \<equiv> well_sent out got"

text \<open>Before the flush.\<close>

definition accepted :: "'d iostream \<Rightarrow> bool" where
  "accepted io \<longleftrightarrow> (isGood io \<longrightarrow> typed (out (isDev io))) \<and> (\<exists>more. typed (got (isDev io) @ more))"

text \<open>In the middle of a packet: \<open>part\<close> of \<open>whole\<close> is written after \<open>W\<close>.\<close>

definition midway :: "byte list \<Rightarrow> byte list \<Rightarrow> byte list \<Rightarrow> 'd iostream \<Rightarrow> bool" where
  "midway W part whole io \<longleftrightarrow>
    (isGood io \<longrightarrow> out (isDev io) = W @ part) \<and> prefix (got (isDev io)) (W @ whole)"

lemma midway_write:
  assumes "midway W part whole io" and "prefix (part @ bs) whole"
  obtains io' where "os_write dops bs io = (Inr (), io')" "midway W (part @ bs) whole io'"
proof (cases "isGood io")
  case True
  obtain n d where w: "dWrite dops bs (isDev io) = (n, d)" by fastforce
  have "out (isDev io) = W @ part" using assms(1) True by (simp add: midway_def)
  moreover have "prefix (W @ part @ bs) (W @ whole)" using assms(2) by simp
  ultimately have "midway W (part @ bs) whole (io\<lparr>isGood := (n = length bs), isDev := d\<rparr>)"
    using sink_write [OF w] by (auto simp: midway_def intro: prefix_order.trans)
  with that w True show thesis by (simp add: os_write_def)
next
  case False
  with that [of io] assms(1) show thesis by (simp add: os_write_def midway_def)
qed

lemma midway_WriteLittle:
  assumes "midway W part whole io" and "prefix (part @ le_bytes n v) whole"
  obtains io' where "WriteLittle dops n v io = (Inr (), io')" "midway W (part @ le_bytes n v) whole io'"
proof (cases "isGood io")
  case True
  obtain io' where "os_write dops (le_bytes n v) io = (Inr (), io')" "midway W (part @ le_bytes n v) whole io'"
    using assms by (rule midway_write)
  with that True show thesis by (simp add: WriteLittle_def good_def run_simps)
next
  case False
  with that [of io] assms(1) show thesis by (simp add: WriteLittle_def good_def run_simps midway_def)
qed

lemma midway_done:
  assumes "midway W whole whole io" and "typed W" and "typed whole"
  shows "accepted io"
proof -
  have "typed (W @ whole)" using assms(2,3) by (rule typed_append)
  moreover obtain more where "W @ whole = got (isDev io) @ more"
    using assms(1) by (auto simp: midway_def elim: prefixE)
  ultimately show ?thesis using assms(1) by (auto simp: midway_def accepted_def)
qed

lemma WriteTo_accepted:
  assumes "command_ok opcode (length payload)" and sent: "sends io"
  obtains io' where "WriteTo dops opcode payload io = (Inr (), io')" "accepted io'"
proof (cases "isGood io")
  case True
  let ?W = "out (isDev io)" and ?op = "le_bytes 2 (unat opcode)" and ?sz = "le_bytes 2 (4 + length payload)"
  let ?whole = "packet_bytes opcode payload"
  have size: "length payload \<le> 65531" using assms(1) by (rule command_ok_size)
  have "midway ?W [] ?whole io"
    using arrived [of "isDev io"] by (simp add: midway_def prefix_prefix)
  then obtain io1 where io1: "WriteLittle dops 2 (unat opcode) io = (Inr (), io1)" "midway ?W ([] @ ?op) ?whole io1"
    by (rule midway_WriteLittle) (auto simp: packet_bytes_def prefix_def)
  obtain io2 where io2: "WriteLittle dops 2 (4 + length payload) io1 = (Inr (), io2)"
    "midway ?W (([] @ ?op) @ ?sz) ?whole io2"
    using io1(2) by (rule midway_WriteLittle) (auto simp: packet_bytes_def prefix_def)
  obtain io3 where io3: "os_write dops payload io2 = (Inr (), io3)"
    "midway ?W ((([] @ ?op) @ ?sz) @ payload) ?whole io3"
    using io2(2) by (rule midway_write [where bs = payload]) (simp_all add: packet_bytes_def)
  have "typed ?whole" using typed_packet [OF size, of opcode "[]"] assms(1) by simp
  moreover have "typed ?W" using sent True by (simp add: well_sent_def)
  ultimately have "accepted io3" using io3(2) by (intro midway_done [where W = ?W and whole = ?whole]) (simp_all add: packet_bytes_def)
  with True size io1(1) io2(1) io3(1) that [of io3] show thesis by (simp add: WriteTo_def good_def run_simps)
  next
  case False
  with that [of io] sent show thesis by (simp add: WriteTo_def good_def run_simps accepted_def well_sent_def)
qed

lemma flush_accepted:
  assumes "accepted io"
  shows "sends (snd (os_flush dops io))"
proof (cases "isGood io")
  case True
  obtain ok d where s: "dSync dops (isDev io) = (ok, d)" by fastforce
  have "ok \<Longrightarrow> out d = out (isDev io) \<and> got d = out (isDev io)" using sink_sync(1) s by simp
  moreover obtain more where "out (isDev io) = got d @ more" using sink_sync(2) [OF s] by (auto elim: prefixE)
  ultimately show ?thesis using True assms s by (auto simp: accepted_def well_sent_def os_flush_def)
next
  case False
  then show ?thesis using assms by (simp add: accepted_def well_sent_def os_flush_def)
qed

lemma keeps_request [keep_rules]:
  assumes "command_ok opcode (length payload)"
  shows "keeps sends (request dops opcode payload)"
proof (rule keepsI)
  fix io assume "sends io"
  with assms obtain io' where "WriteTo dops opcode payload io = (Inr (), io')" "accepted io'"
    by (rule WriteTo_accepted)
  then show "sends (snd (request dops opcode payload io))" by (simp add: request_def run_simps flush_accepted)
qed

subsection \<open>Reading\<close>

lemma keeps_good [keep_rules]: "keeps sends good"
  by (simp add: keeps_def good_def)

lemma keeps_is_read [keep_rules]: "keeps sends (is_read dops n)"
proof (rule keepsI)
  fix io assume sent: "sends io"
  obtain bs d where r: "dRead dops n (isDev io) = (bs, d)" by fastforce
  then have "out d = out (isDev io)" "got d = got (isDev io)" using sink_read [of n "isDev io"] by simp_all
  with sent r show "sends (snd (is_read dops n io))" by (auto simp: well_sent_def is_read_def)
qed

lemma keeps_ReadLittle [keep_rules]: "keeps sends (ReadLittle dops n)"
  unfolding ReadLittle_def by (intro keep_rules)

lemma skip_bytes_sink: "out (skip_bytes dops n d) = out d" "got (skip_bytes dops n d) = got d"
  by (induction n arbitrary: d) (simp_all add: sink_bump)

lemma sends_Discard: "sends (snd s) \<Longrightarrow> sends (snd (Discard dops s))"
  by (auto simp: Discard_def Let_def well_sent_def skip_bytes_sink)

lemma keeps_read_header: "keeps (beside sends) (read_header dops)"
proof -
  have "keeps (beside sends) (\<lambda>s. bnd (lift (ReadLittle dops 2)) (\<lambda>sz. bnd (lift good) (\<lambda>g.
      if \<not> g then ret ()
      else if sz < 4 then raise (CaptFailure ImpossiblePacketSize)
      else (\<lambda>(h, io). (Inr (), (h\<lparr>PayloadSize := word_of_nat (sz - 4)\<rparr>, io)))))
      ((fst s)\<lparr>Opcode := word_of_nat op\<rparr>, snd s))" for op
  proof (rule keeps_map [where f = "\<lambda>h. h\<lparr>Opcode := word_of_nat op\<rparr>"], intro keep_rules)
  qed (simp add: keeps_def)
  then show ?thesis unfolding read_header_def by (intro keep_rules)
qed

lemma keeps_read_packet [keep_rules]: "keeps (beside sends) (read_packet dops)"
proof (rule keepsI)
  fix s :: "StreamPacket \<times> 'd iostream"
  assume "beside sends s"
  obtain p io where d: "Discard dops s = (p, io)" by fastforce
  with \<open>beside sends s\<close> have "sends io" using sends_Discard [of s] by (simp add: beside_def)
  obtain r h io' where r: "read_header dops (pHeader p, io) = (r, (h, io'))" by (cases "read_header dops (pHeader p, io)") auto
  with \<open>sends io\<close> have "sends io'" using keepsD [OF keeps_read_header _ r] by simp
  with d r show "beside sends (snd (read_packet dops s))" by (simp add: read_packet_def split: sum.split)
qed

lemma keeps_sp_ReadInt [keep_rules]: "keeps (beside sends) (sp_ReadInt dops n)"
proof -
  have "keeps (beside sends) (\<lambda>(p, io). lift (ReadLittle dops n) (p\<lparr>pRemain := pRemain p - n\<rparr>, io))"
    using keeps_map [OF keeps_lift [OF keeps_ReadLittle], where f = "\<lambda>p. p\<lparr>pRemain := pRemain p - n\<rparr>"]
    by (simp add: case_prod_beta')
  then have "keeps (beside sends) (andthen (assertM (pAttached p))
      (if pRemain p < n then raise (CaptFailure OutOfRange)
       else (\<lambda>(p, io). lift (ReadLittle dops n) (p\<lparr>pRemain := pRemain p - n\<rparr>, io))))" for p
    by (intro keeps_andthen keeps_if keeps_assertM keeps_raise)
  then show ?thesis unfolding keeps_def sp_ReadInt_def Let_def by blast
qed

lemma keeps_sp_ReadByte [keep_rules]: "keeps (beside sends) (sp_ReadByte dops)"
  and keeps_sp_ReadUint16 [keep_rules]: "keeps (beside sends) (sp_ReadUint16 dops)"
  and keeps_packet_opcode [keep_rules]: "keeps (beside sends) packet_opcode"
  and keeps_checkOpcode [keep_rules]: "keeps I (checkOpcode actual expected)"
  unfolding sp_ReadByte_def sp_ReadUint16_def checkOpcode_def
  by (intro keep_rules, intro keep_rules, simp add: keeps_def packet_opcode_def, intro keep_rules)

lemma keeps_answer [keep_rules]:
  "keeps (beside sends) body \<Longrightarrow> keeps sends (answer dops expected body)"
  unfolding answer_def
  by (rule keeps_with_local) (intro keep_rules, simp_all add: destroyStreamPacket_def sends_Discard)

subsection \<open>The commands\<close>

lemma keeps_bodies [keep_rules]:
  "keeps (beside sends) (status_body dops)" "keeps (beside sends) (info_body dops)"
  "keeps (beside sends) (basic_body dops changed)"
  unfolding status_body_def info_body_def basic_body_def by (intro keep_rules)+

lemma keeps_execCmd: "command_ok opcode 0 \<Longrightarrow> keeps sends (execCmd dops opcode)"
  unfolding execCmd_def by (intro keep_rules) simp

lemma keeps_queries [keep_rules]:
  "keeps sends (PC_GET_EXTENDED_STATUS dops)" "keeps sends (PC_GET_PRINTER_INFO dops)"
  "keeps sends (PCR_GET_BASIC_STATUS dops changed)"
  unfolding PC_GET_EXTENDED_STATUS_def PC_GET_PRINTER_INFO_def PCR_GET_BASIC_STATUS_def
  by (intro keep_rules, simp add: command_ok_def)+

lemma keeps_codes [keep_rules]:
  "keeps sends (PC_RESERVE_UNIT dops)" "keeps sends (PCR_DISCARD_DATA dops)" "keeps sends (PCR_CLEAR_ERROR dops)"
  "keeps sends (PCR_GO_OFFLINE dops)" "keeps sends (PCR_RELEASE_UNIT dops)" "keeps sends (PCR_CLEAR_MISPRINT dops)"
  "keeps sends (PCR_RESET_ENGINE dops)"
  unfolding PC_RESERVE_UNIT_def PCR_DISCARD_DATA_def PCR_CLEAR_ERROR_def PCR_GO_OFFLINE_def PCR_RELEASE_UNIT_def
    PCR_CLEAR_MISPRINT_def PCR_RESET_ENGINE_def
  by (rule keeps_execCmd, simp add: command_ok_def)+

lemma keeps_online [keep_rules]: "keeps sends (PCR_GO_ONLINE dops n)" "keeps sends (PCR_CLEANING dops)"
  unfolding PCR_GO_ONLINE_def PCR_CLEANING_def
  by (intro keep_rules, simp add: command_ok_def online_payload_def)+

lemma keeps_page [keep_rules]:
  "keeps sends (IC_BEGIN_PAGE dops params)" "keeps sends (IC_BEGIN_DATA dops)" "keeps sends (IC_END_PAGE dops)"
  unfolding IC_BEGIN_PAGE_def IC_BEGIN_DATA_def IC_END_PAGE_def
  by (intro keep_rules, simp add: command_ok_def length_begin_page_payload)+

text \<open>Too long a block is not sent at all.\<close>

lemma keeps_video [keep_rules]: "keeps sends (IC_VIDEO_DATA dops data)"
proof (cases "length data \<le> 65531")
  case True
  then show ?thesis unfolding IC_VIDEO_DATA_def by (intro keep_rules) (simp add: command_ok_def)
next
  case False
  then show ?thesis
    by (simp add: keeps_def IC_VIDEO_DATA_def request_def WriteTo_def andthen_def bnd_def good_def ret_def raise_def
        os_flush_def)
qed

end

subsection \<open>A command that returns leaves a good stream\<close>

named_theorems good_rules \<open>reading that keeps a stream good when it returns\<close>

abbreviation fine :: "StreamPacket \<times> 'd iostream \<Rightarrow> bool" where
  "fine s \<equiv> isGood (snd s)"

lemma good_ret [good_rules]: "returns fine (ret x) (\<lambda>_. fine)"
  and good_raise [good_rules]: "returns fine (raise e) (\<lambda>_. fine)"
  by (simp_all add: returns_def ret_def raise_def)

lemma good_bnd [good_rules]: "returns fine m (\<lambda>_. fine) \<Longrightarrow> (\<And>x. returns fine (f x) (\<lambda>_. fine)) \<Longrightarrow>
    returns fine (bnd m f) (\<lambda>_. fine)"
  by (rule returns_bnd)

lemma good_if [good_rules]: "returns fine m (\<lambda>_. fine) \<Longrightarrow> returns fine k (\<lambda>_. fine) \<Longrightarrow>
    returns fine (if c then m else k) (\<lambda>_. fine)"
  by simp

lemma good_ReadLittle: "isGood io \<Longrightarrow> ReadLittle dops n io = (Inr v, io') \<Longrightarrow> isGood io'"
  by (auto simp: ReadLittle_def good_def bnd_def is_read_def ret_def raise_def split: prod.splits if_splits)

lemma bad_ReadLittle: "\<not> isGood io \<Longrightarrow> ReadLittle dops n io = (Inr 0, io)"
  by (simp add: ReadLittle_def good_def bnd_def ret_def)

lemma good_reads [good_rules]:
  "returns fine (sp_ReadByte dops) (\<lambda>_. fine)" "returns fine (sp_ReadUint16 dops) (\<lambda>_. fine)"
proof -
  have int: "returns fine (sp_ReadInt dops n) (\<lambda>_. fine)" for n
  proof (rule returnsI)
    fix s :: "StreamPacket \<times> 'a iostream" and v s'
    assume "fine s" and run: "sp_ReadInt dops n s = (Inr v, s')"
    obtain p io where s: "s = (p, io)" by fastforce
    obtain r io' where "ReadLittle dops n io = (r, io')" by fastforce
    with run have "ReadLittle dops n io = (Inr v, io')" "snd s' = io'"
      by (auto simp: s sp_ReadInt_def andthen_def bnd_def assertM_def ret_def raise_def lift_def split: if_splits)
    with \<open>fine s\<close> show "fine s'" using good_ReadLittle by (auto simp: s)
  qed
  show "returns fine (sp_ReadByte dops) (\<lambda>_. fine)" "returns fine (sp_ReadUint16 dops) (\<lambda>_. fine)"
    unfolding sp_ReadByte_def sp_ReadUint16_def by (intro good_rules int)+
qed

lemma good_bodies [good_rules]:
  "returns fine (status_body dops) (\<lambda>_. fine)" "returns fine (info_body dops) (\<lambda>_. fine)"
  "returns fine (basic_body dops changed) (\<lambda>_. fine)"
  unfolding status_body_def info_body_def basic_body_def by (intro good_rules)+

text \<open>On a stream that is not good the opcode that is read is 0.\<close>

lemma read_header_good:
  assumes "read_header dops (h, io) = (Inr x, (h', io'))"
  shows "isGood io' \<or> Opcode h' = 0"
proof (cases "isGood io")
  case True
  obtain r1 io1 where r1: "ReadLittle dops 2 io = (r1, io1)" by fastforce
  obtain r2 io2 where r2: "ReadLittle dops 2 io1 = (r2, io2)" by fastforce
  obtain v1 v2 where "r1 = Inr v1" "r2 = Inr v2" "io' = io2"
    using assms r1 r2 by (cases r1; cases r2)
      (auto simp: read_header_def bnd_def lift_def good_def ret_def raise_def split: if_splits)
  then show ?thesis using good_ReadLittle [OF True] good_ReadLittle r1 r2 by blast
next
  case False
  with assms show ?thesis
    by (auto simp: read_header_def bnd_def lift_def bad_ReadLittle good_def ret_def)
qed

lemma answer_good:
  assumes "returns fine body (\<lambda>_. fine)" and "expected \<noteq> 0"
  shows "returns P (answer dops expected body) (\<lambda>_. isGood)"
  unfolding answer_def
proof (rule returns_with_local [where R = "\<lambda>_. fine"])
  have "returns (beside P) (read_packet dops) (\<lambda>_ s. fine s \<or> Opcode (pHeader (fst s)) = 0)"
  proof (rule returnsI)
    fix s s' :: "StreamPacket \<times> 'a iostream" and x
    assume run: "read_packet dops s = (Inr x, s')"
    obtain p io where d: "Discard dops s = (p, io)" by fastforce
    obtain r h io' where r: "read_header dops (pHeader p, io) = (r, (h, io'))"
      by (cases "read_header dops (pHeader p, io)") auto
    with run d have "r = Inr ()" "snd s' = io'" "pHeader (fst s') = h"
      by (auto simp: read_packet_def split: sum.splits)
    with read_header_good r show "fine s' \<or> Opcode (pHeader (fst s')) = 0" by blast
  qed
  moreover have "returns (\<lambda>s. fine s \<or> Opcode (pHeader (fst s)) = 0) packet_opcode (\<lambda>op s. fine s \<or> op = 0)"
    by (auto simp: returns_def packet_opcode_def)
  moreover have "returns (\<lambda>s :: StreamPacket \<times> 'a iostream. fine s \<or> op = 0) (checkOpcode op expected) (\<lambda>_. fine)" for op
    using assms(2) by (auto simp: returns_def checkOpcode_def ret_def raise_def)
  ultimately show "returns (beside P) (andthen (read_packet dops)
      (bnd packet_opcode (\<lambda>op. andthen (checkOpcode op expected) body))) (\<lambda>_. fine)"
    using assms(1) by (blast intro: returns_andthen returns_bnd)
next
  show "isGood (destroyStreamPacket dops s)" if "fine s" for s :: "StreamPacket \<times> 'a iostream"
    using that by (auto simp: destroyStreamPacket_def Discard_def Let_def)
qed

lemma queries_good:
  "returns P (PC_GET_EXTENDED_STATUS dops) (\<lambda>_. isGood)"
  "returns P (PCR_GET_BASIC_STATUS dops changed) (\<lambda>_. isGood)"
  unfolding PC_GET_EXTENDED_STATUS_def PCR_GET_BASIC_STATUS_def
  by (intro returns_andthen_last answer_good good_rules; simp)+

interpretation sim_sink: sink "sim_ops respond" simSent simSent for respond
  by unfold_locales (auto simp: sim_ops_def split: list.splits)

end
