(* ===== verification/Pbm.thy ===== *)
theory Pbm
  imports Device
begin

text \<open>
  Reading the header of a PBM image: \<^verbatim>\<open>readPbmHeader\<close> and
  \<^verbatim>\<open>PbmPageProvider\<close> of \<^verbatim>\<open>examples/printpbm.cpp\<close>.

  \<open>istream\<close> is a formatted input stream over the bytes of a file, with its eof and fail
  bits; its operations are those of the standard library the code uses, in the C locale.
  The fail bit also stands for the bad bit, which nothing here sets.
\<close>

subsection \<open>Input streams\<close>

record istream =
  inBytes :: "byte list"
  inEof :: bool
  inFail :: bool

definition is_good :: "istream \<Rightarrow> bool" where
  "is_good st \<longleftrightarrow> \<not> inEof st \<and> \<not> inFail st"

definition isspace :: "byte \<Rightarrow> bool" where
  "isspace c \<longleftrightarrow> c = 32 \<or> 9 \<le> c \<and> c \<le> 13"

definition isdigit :: "byte \<Rightarrow> bool" where
  "isdigit c \<longleftrightarrow> 48 \<le> c \<and> c \<le> 57"

text \<open>
  \<^verbatim>\<open>peek\<close> and \<^verbatim>\<open>get\<close> (nothing at the end),
  \<^verbatim>\<open>read\<close> (the bytes that were there).
\<close>

definition in_peek :: "(istream, byte option) act" where
  "in_peek st =
    (if \<not> is_good st then (Inr None, st\<lparr>inFail := True\<rparr>)
     else case inBytes st of
       [] \<Rightarrow> (Inr None, st\<lparr>inEof := True\<rparr>)
     | c # _ \<Rightarrow> (Inr (Some c), st))"

definition in_get :: "(istream, byte option) act" where
  "in_get st =
    (if \<not> is_good st then (Inr None, st\<lparr>inFail := True\<rparr>)
     else case inBytes st of
       [] \<Rightarrow> (Inr None, st\<lparr>inEof := True, inFail := True\<rparr>)
     | c # cs \<Rightarrow> (Inr (Some c), st\<lparr>inBytes := cs\<rparr>))"

definition in_read :: "nat \<Rightarrow> (istream, byte list) act" where
  "in_read n st =
    (if \<not> is_good st then (Inr [], st\<lparr>inFail := True\<rparr>)
     else if n \<le> length (inBytes st) then
       (Inr (take n (inBytes st)), st\<lparr>inBytes := drop n (inBytes st)\<rparr>)
     else (Inr (inBytes st), st\<lparr>inBytes := [], inEof := True, inFail := True\<rparr>))"

definition in_eof :: "(istream, bool) act" where
  "in_eof st = (Inr (inEof st), st)"

definition in_good :: "(istream, bool) act" where
  "in_good st = (Inr (is_good st), st)"

text \<open>
  \<^verbatim>\<open>operator>>\<close> for \<^verbatim>\<open>unsigned\<close>: skip white space, an
  optional sign and decimal digits; no value when there is no digit or the number does not fit.
\<close>

definition digits_value :: "byte list \<Rightarrow> nat" where
  "digits_value ds = foldl (\<lambda>v d. 10 * v + (unat d - 48)) 0 ds"

definition in_unsigned :: "(istream, nat option) act" where
  "in_unsigned st =
    (if \<not> is_good st then (Inr None, st\<lparr>inFail := True\<rparr>)
     else
       let bytes = dropWhile isspace (inBytes st)
       in case bytes of
            [] \<Rightarrow> (Inr None, st\<lparr>inBytes := [], inEof := True, inFail := True\<rparr>)
          | c # cs \<Rightarrow>
              let signed = c = 43 \<or> c = 45;
                  field = (if signed then cs else bytes);
                  ds = takeWhile isdigit field;
                  rest = dropWhile isdigit field;
                  v = digits_value ds;
                  st' = st\<lparr>inBytes := rest, inEof := (rest = [])\<rparr>
              in if ds = [] \<or> v \<ge> 2 ^ 32 then (Inr None, st'\<lparr>inFail := True\<rparr>)
                 else (Inr (Some (if c = 45 then (2 ^ 32 - v) mod 2 ^ 32 else v)), st'))"

subsection \<open>The header\<close>

definition space_opt :: "byte option \<Rightarrow> bool" where
  "space_opt c = (case c of None \<Rightarrow> False | Some b \<Rightarrow> isspace b)"

definition comment_body :: "unit \<Rightarrow> (istream, (unit, unit) ctrl) act" where
  "comment_body _ =
    bnd in_get (\<lambda>c.
      if c = Some 10 then ret (Leave ())
      else bnd in_eof (\<lambda>e.
        if e then raise (RuntimeError ''PBM: unexpected EOF'') else ret (Continue ())))"

definition comments_body :: "unit \<Rightarrow> (istream, (unit, unit) ctrl) act" where
  "comments_body _ =
    bnd in_peek (\<lambda>c.
      if c = Some 35 then andthen (forever comment_body ()) (ret (Continue ()))
      else ret (Leave ()))"

definition header_end_body :: "unit \<Rightarrow> (istream, (unit, unit) ctrl) act" where
  "header_end_body _ =
    bnd in_get (\<lambda>c. bnd in_good (\<lambda>g.
      if \<not> space_opt c \<and> g then ret (Continue ()) else ret (Leave ())))"

text \<open>Width and height, or nothing at the end of the file.\<close>

definition readPbmHeader :: "(istream, (nat \<times> nat) option) act" where
  "readPbmHeader =
    bnd (in_read 3) (\<lambda>buffer.
    bnd in_eof (\<lambda>e.
      if e then ret None
      else if length buffer < 3 then raise UndefinedBehaviour
      else if buffer ! 0 \<noteq> 80 \<or> buffer ! 1 \<noteq> 52 \<or> \<not> isspace (buffer ! 2) then
        raise (RuntimeError ''PBM: invalid magic'')
      else
        andthen (forever comments_body ())
       (bnd in_unsigned (\<lambda>w. case w of
          None \<Rightarrow> raise (RuntimeError ''PBM: failed to read width'')
        | Some width \<Rightarrow>
            bnd in_get (\<lambda>c.
              if \<not> space_opt c then raise (RuntimeError ''PBM: unexpected char'')
              else
                bnd in_unsigned (\<lambda>h. case h of
                  None \<Rightarrow> raise (RuntimeError ''PBM: failed to read height'')
                | Some height \<Rightarrow>
                    andthen (forever header_end_body ())
                   (bnd in_eof (\<lambda>e.
                      if e then raise (RuntimeError ''PBM: unexpected EOF'')
                      else ret (Some (width, height)))))))))) "

definition ReadHeader :: "(istream, PageParams option) act" where
  "ReadHeader =
    bnd readPbmHeader (\<lambda>r. case r of
      None \<Rightarrow> ret None
    | Some (width, lines) \<Rightarrow>
        if width mod 8 \<noteq> 0 then raise (RuntimeError ''PBM width must be a multiple of 8'')
        else ret (Some
          \<lparr>PaperSize = 0x09, TonerDensity = 0x3f, Mode = 0, Resolution = RES_600, SmoothEnable = True,
           TonerSaving = False, MarginLeft = 1, MarginTop = 1, ImageLineSize = word_of_nat (width div 8),
           ImageLines = word_of_nat lines, PaperWidth = 4960, PaperHeight = 7014\<rparr>))"

subsection \<open>The loops of the header\<close>

lemma comment_loop:
  "is_good st \<Longrightarrow> forever comment_body () st =
    (if 10 \<in> set (inBytes st)
     then (Inr (), st\<lparr>inBytes := tl (dropWhile (\<lambda>c. c \<noteq> 10) (inBytes st))\<rparr>)
     else (Inl (RuntimeError ''PBM: unexpected EOF''), st\<lparr>inBytes := [], inEof := True, inFail := True\<rparr>))"
proof (induction "inBytes st" arbitrary: st)
  case Nil
  then have "comment_body () st =
      (Inl (RuntimeError ''PBM: unexpected EOF''), st\<lparr>inBytes := [], inEof := True, inFail := True\<rparr>)"
    by (simp add: comment_body_def in_get_def in_eof_def bnd_def raise_def)
  from forever_throw [where body = comment_body, OF this] show ?case using Nil by simp
next
  case (Cons c cs)
  show ?case
  proof (cases "c = 10")
    case True
    then have "comment_body () st = (Inr (Leave ()), st\<lparr>inBytes := cs\<rparr>)"
      using Cons.prems Cons.hyps(2) [symmetric] by (simp add: comment_body_def in_get_def bnd_def ret_def)
    from forever_leave [where body = comment_body, OF this] show ?thesis
      using True Cons.hyps(2) [symmetric] by simp
  next
    case False
    let ?st = "st\<lparr>inBytes := cs\<rparr>"
    have step: "comment_body () st = (Inr (Continue ()), ?st)"
      using False Cons.prems Cons.hyps(2) [symmetric]
      by (simp add: comment_body_def in_get_def in_eof_def is_good_def bnd_def ret_def)
    have "is_good ?st" using Cons.prems by (simp add: is_good_def)
    note loop = Cons.hyps(1) [of ?st, simplified, OF this]
    obtain r st' where r: "forever comment_body () ?st = (r, st')" by (cases "forever comment_body () ?st")
    with loop have "r \<noteq> Inl Diverges" by (auto split: if_splits)
    from forever_step [where body = comment_body, OF step r this] r loop show ?thesis
      using False Cons.hyps(2) [symmetric] by auto
  qed
qed

lemma comments_loop_step:
  assumes "is_good st" and "inBytes st = 35 # c @ 10 # rest" and "10 \<notin> set c"
  shows "comments_body () st = (Inr (Continue ()), st\<lparr>inBytes := rest\<rparr>)"
proof -
  have "dropWhile (\<lambda>c. c \<noteq> 10) (35 # c @ 10 # rest) = 10 # rest"
    using assms(3) by (induction c) auto
  then have "forever comment_body () st = (Inr (), st\<lparr>inBytes := rest\<rparr>)"
    using comment_loop [OF assms(1)] assms(2) by simp
  then show ?thesis
    using assms by (simp add: comments_body_def in_peek_def bnd_def andthen_def ret_def)
qed

lemma comments_loop_end:
  assumes "is_good st" and "inBytes st = b # bs" and "b \<noteq> 35"
  shows "forever comments_body () st = (Inr (), st)"
proof -
  have "comments_body () st = (Inr (Leave ()), st)"
    using assms by (simp add: comments_body_def in_peek_def bnd_def ret_def)
  then show ?thesis by (rule forever_leave)
qed

lemma comments_loop:
  "list_all (\<lambda>c. 10 \<notin> set c) cs \<Longrightarrow> is_good st \<Longrightarrow>
    inBytes st = concat (map (\<lambda>c. 35 # c @ [10]) cs) @ b # bs \<Longrightarrow> b \<noteq> 35 \<Longrightarrow>
    forever comments_body () st = (Inr (), st\<lparr>inBytes := b # bs\<rparr>)"
proof (induction cs arbitrary: st)
  case Nil
  then show ?case using comments_loop_end [of st b bs] by simp
next
  case (Cons c cs)
  let ?rest = "concat (map (\<lambda>c. 35 # c @ [10]) cs) @ b # bs"
  have "comments_body () st = (Inr (Continue ()), st\<lparr>inBytes := ?rest\<rparr>)"
    using Cons.prems by (intro comments_loop_step [where c = c]) simp_all
  moreover have "forever comments_body () (st\<lparr>inBytes := ?rest\<rparr>) = (Inr (), st\<lparr>inBytes := b # bs\<rparr>)"
    using Cons.IH [of "st\<lparr>inBytes := ?rest\<rparr>"] Cons.prems by (simp add: is_good_def)
  ultimately show ?case by (rule forever_step) simp
qed

text \<open>Whatever the file holds, the comments end or the file does.\<close>

lemma comments_loop_total: "is_good st \<Longrightarrow> fst (forever comments_body () st) \<noteq> Inl Diverges"
proof (induction "length (inBytes st)" arbitrary: st rule: less_induct)
  case less
  show ?case
  proof (cases "inBytes st")
    case Nil
    then have "comments_body () st = (Inr (Leave ()), st\<lparr>inEof := True\<rparr>)"
      using less.prems by (simp add: comments_body_def in_peek_def bnd_def ret_def)
    from forever_leave [where body = comments_body, OF this] show ?thesis by simp
  next
    case (Cons b bs)
    show ?thesis
    proof (cases "b = 35")
      case False
      with comments_loop_end [OF less.prems Cons] show ?thesis by simp
    next
      case True
      show ?thesis
      proof (cases "10 \<in> set (inBytes st)")
        case False
        then have "comments_body () st = (Inl (RuntimeError ''PBM: unexpected EOF''),
            st\<lparr>inBytes := [], inEof := True, inFail := True\<rparr>)"
          using comment_loop [OF less.prems] less.prems Cons True
          by (simp add: comments_body_def in_peek_def bnd_def andthen_def)
        from forever_throw [where body = comments_body, OF this] show ?thesis by simp
      next
        case True': True
        let ?st = "st\<lparr>inBytes := tl (dropWhile (\<lambda>c. c \<noteq> 10) (inBytes st))\<rparr>"
        have step: "comments_body () st = (Inr (Continue ()), ?st)"
          using comment_loop [OF less.prems] less.prems Cons True True'
          by (simp add: comments_body_def in_peek_def bnd_def andthen_def ret_def)
        have "length (inBytes ?st) < length (inBytes st)"
          using Cons length_dropWhile_le [of "\<lambda>c. c \<noteq> 10" "inBytes st"] by (simp; linarith)
        then have ih: "fst (forever comments_body () ?st) \<noteq> Inl Diverges"
          using less.prems by (intro less.hyps) (simp_all add: is_good_def)
        obtain r st' where r: "forever comments_body () ?st = (r, st')" by (cases "forever comments_body () ?st")
        from forever_step [where body = comments_body, OF step r] ih r show ?thesis by simp
      qed
    qed
  qed
qed

lemma header_end_loop:
  "is_good st \<Longrightarrow> forever header_end_body () st =
    (Inr (), if \<exists>c \<in> set (inBytes st). isspace c
       then st\<lparr>inBytes := tl (dropWhile (\<lambda>c. \<not> isspace c) (inBytes st))\<rparr>
       else st\<lparr>inBytes := [], inEof := True, inFail := True\<rparr>)"
proof (induction "inBytes st" arbitrary: st)
  case Nil
  then have "header_end_body () st = (Inr (Leave ()), st\<lparr>inBytes := [], inEof := True, inFail := True\<rparr>)"
    by (simp add: header_end_body_def in_get_def in_good_def is_good_def bnd_def ret_def)
  from forever_leave [where body = header_end_body, OF this] show ?case using Nil by simp
next
  case (Cons c cs)
  let ?st = "st\<lparr>inBytes := cs\<rparr>"
  have good: "is_good ?st" using Cons.prems by (simp add: is_good_def)
  show ?case
  proof (cases "isspace c")
    case True
    then have "header_end_body () st = (Inr (Leave ()), ?st)"
      using Cons.prems Cons.hyps(2) [symmetric]
      by (simp add: header_end_body_def in_get_def in_good_def space_opt_def bnd_def ret_def)
    from forever_leave [where body = header_end_body, OF this] show ?thesis
      using True Cons.hyps(2) [symmetric] by simp
  next
    case False
    have step: "header_end_body () st = (Inr (Continue ()), ?st)"
      using False Cons.prems Cons.hyps(2) [symmetric] good
      by (simp add: header_end_body_def in_get_def in_good_def space_opt_def bnd_def ret_def)
    note loop = Cons.hyps(1) [of ?st, simplified, OF good]
    show ?thesis
      by (rule forever_step [where body = header_end_body, OF step loop, THEN trans])
        (use False Cons.hyps(2) [symmetric] in auto)
  qed
qed

lemma isdigit_unat: "isdigit c \<longleftrightarrow> 48 \<le> unat c \<and> unat c \<le> 57"
  by (simp add: isdigit_def word_le_nat_alt)

lemma isspace_unat: "isspace c \<longleftrightarrow> unat c = 32 \<or> 9 \<le> unat c \<and> unat c \<le> 13"
  by (simp add: isspace_def word_le_nat_alt word_unat_eq_iff)

lemma digit_no_space: "isdigit c \<Longrightarrow> \<not> isspace c \<and> c \<noteq> 43 \<and> c \<noteq> 45"
  by (auto simp: isdigit_unat isspace_unat)

lemma space_no_digit: "isspace c \<Longrightarrow> \<not> isdigit c \<and> c \<noteq> 35"
  by (auto simp: isdigit_unat isspace_unat)

lemma in_unsigned_digits:
  assumes "is_good st" and "inBytes st = ws @ ds @ x # rest" and "list_all isspace ws"
    and "ds \<noteq> []" and "list_all isdigit ds" and "\<not> isdigit x" and "digits_value ds < 2 ^ 32"
  shows "in_unsigned st = (Inr (Some (digits_value ds)), st\<lparr>inBytes := x # rest\<rparr>)"
proof -
  obtain d ds' where ds: "ds = d # ds'" using assms(4) by (cases ds) simp_all
  have d: "\<not> isspace d" "d \<noteq> 43" "d \<noteq> 45" using assms(5) ds digit_no_space by auto
  have skip: "dropWhile isspace (inBytes st) = ds @ x # rest"
    unfolding assms(2) using assms(3) d(1) ds by (induction ws) simp_all
  have "takeWhile isdigit (ds @ x # rest) = ds" "dropWhile isdigit (ds @ x # rest) = x # rest"
    using assms(5,6) by (induction ds) simp_all
  then show ?thesis
    using assms(1,7) skip ds d by (simp add: in_unsigned_def Let_def is_good_def)
qed

text \<open>A header: comment lines after the magic bytes, the numbers, anything up to a white space.\<close>

definition header_bytes ::
  "byte list list \<Rightarrow> byte list \<Rightarrow> byte list \<Rightarrow> byte list \<Rightarrow> byte list \<Rightarrow> byte list \<Rightarrow> byte list" where
  "header_bytes comments ws width ws' height junk =
    [80, 52, 10] @ concat (map (\<lambda>c. 35 # c @ [10]) comments) @ ws @ width @ [10] @ ws' @ height @ junk @ [10]"

lemma dropWhile_junk:
  "list_all (\<lambda>c. \<not> isspace c) junk \<Longrightarrow> isspace s \<Longrightarrow>
    dropWhile (\<lambda>c. \<not> isspace c) (junk @ s # rest) = s # rest"
  by (induction junk) simp_all

lemma readPbmHeader_parses:
  assumes "is_good st" and "inBytes st = header_bytes comments ws width ws' height junk @ rest"
    and "list_all (\<lambda>c. 10 \<notin> set c) comments" and "list_all isspace ws" and "list_all isspace ws'"
    and "width \<noteq> []" and "list_all isdigit width" and "digits_value width < 2 ^ 32"
    and "height \<noteq> []" and "list_all isdigit height" and "digits_value height < 2 ^ 32"
    and "list_all (\<lambda>c. \<not> isspace c) junk" and "junk \<noteq> [] \<longrightarrow> \<not> isdigit (hd junk)"
  shows "readPbmHeader st = (Inr (Some (digits_value width, digits_value height)), st\<lparr>inBytes := rest\<rparr>)"
proof -
  let ?b1 = "concat (map (\<lambda>c. 35 # c @ [10]) comments) @ ws @ width @ 10 # ws' @ height @ junk @ 10 # rest"
  let ?b2 = "ws @ width @ 10 # ws' @ height @ junk @ 10 # rest"
  let ?b3 = "ws' @ height @ junk @ 10 # rest"
  have newline: "isspace 10" by (simp add: isspace_unat)
  have good: "is_good (st\<lparr>inBytes := bs\<rparr>)" for bs using assms(1) by (simp add: is_good_def)
  have read: "in_read 3 st = (Inr [80, 52, 10], st\<lparr>inBytes := ?b1\<rparr>)"
    using assms(1,2) by (simp add: in_read_def header_bytes_def)
  have "?b2 \<noteq> [] \<and> hd ?b2 \<noteq> 35"
    using assms(4,6,7) space_no_digit by (cases ws; cases width) (auto simp: isdigit_unat)
  then obtain b bs where b: "?b2 = b # bs" "b \<noteq> 35" by (cases ?b2) auto
  have comments: "forever comments_body () (st\<lparr>inBytes := ?b1\<rparr>) = (Inr (), st\<lparr>inBytes := ?b2\<rparr>)"
    using comments_loop [OF assms(3) good, of ?b1 b bs] b by simp
  have width: "in_unsigned (st\<lparr>inBytes := ?b2\<rparr>) = (Inr (Some (digits_value width)), st\<lparr>inBytes := 10 # ?b3\<rparr>)"
    using in_unsigned_digits [OF good, of ?b2 ws width 10 ?b3] assms(4,6-8) by (simp add: isdigit_unat)
  have sep: "in_get (st\<lparr>inBytes := 10 # ?b3\<rparr>) = (Inr (Some 10), st\<lparr>inBytes := ?b3\<rparr>)"
    using good by (simp add: in_get_def)
  obtain x r where x: "junk @ 10 # rest = x # r" "\<not> isdigit x"
    using assms(13) space_no_digit [OF newline] by (cases junk) auto
  have height: "in_unsigned (st\<lparr>inBytes := ?b3\<rparr>) =
      (Inr (Some (digits_value height)), st\<lparr>inBytes := junk @ 10 # rest\<rparr>)"
    using in_unsigned_digits [OF good, of ?b3 ws' height x r] assms(5,9-11) x by simp
  have last: "forever header_end_body () (st\<lparr>inBytes := junk @ 10 # rest\<rparr>) = (Inr (), st\<lparr>inBytes := rest\<rparr>)"
    using header_end_loop [OF good, of "junk @ 10 # rest"] newline dropWhile_junk [OF assms(12) newline, of rest]
    by simp
  have eof: "in_eof (st\<lparr>inBytes := bs\<rparr>) = (Inr False, st\<lparr>inBytes := bs\<rparr>)" for bs
    using assms(1) by (simp add: in_eof_def is_good_def)
  show ?thesis
    by (simp add: readPbmHeader_def bnd_def andthen_def ret_def read eof comments width sep height last
        newline space_opt_def)
qed

text \<open>A composed action returns when its parts do.\<close>

lemma returns_rules:
  "fst (m s) \<noteq> Inl Diverges \<Longrightarrow> (\<And>x s'. m s = (Inr x, s') \<Longrightarrow> fst (f x s') \<noteq> Inl Diverges) \<Longrightarrow>
    fst (bnd m f s) \<noteq> Inl Diverges"
  "fst (m s) \<noteq> Inl Diverges \<Longrightarrow> (\<And>x s'. m s = (Inr x, s') \<Longrightarrow> fst (k s') \<noteq> Inl Diverges) \<Longrightarrow>
    fst (andthen m k s) \<noteq> Inl Diverges"
  "(P \<Longrightarrow> fst (a s) \<noteq> Inl Diverges) \<Longrightarrow> (\<not> P \<Longrightarrow> fst (b s) \<noteq> Inl Diverges) \<Longrightarrow>
    fst ((if P then a else b) s) \<noteq> Inl Diverges"
  "(v = None \<Longrightarrow> fst (a s) \<noteq> Inl Diverges) \<Longrightarrow> (\<And>x. v = Some x \<Longrightarrow> fst (g x s) \<noteq> Inl Diverges) \<Longrightarrow>
    fst ((case v of None \<Rightarrow> a | Some x \<Rightarrow> g x) s) \<noteq> Inl Diverges"
  "fst (ret y s) \<noteq> Inl Diverges"
  "fst (raise (RuntimeError msg) s) \<noteq> Inl Diverges" "fst (raise UndefinedBehaviour s) \<noteq> Inl Diverges"
  by (auto simp: bnd_def andthen_def ret_def raise_def split: prod.splits sum.splits option.splits)

lemma readPbmHeader_total: "fst (readPbmHeader st) \<noteq> Inl Diverges"
proof (cases "is_good st \<and> 3 \<le> length (inBytes st)")
  case False
  then show ?thesis
    by (auto simp: readPbmHeader_def bnd_def in_read_def in_eof_def ret_def raise_def is_good_def)
next
  case True
  then have st: "is_good st" "3 \<le> length (inBytes st)" by simp_all
  let ?st = "st\<lparr>inBytes := drop 3 (inBytes st)\<rparr>"
  have good: "is_good ?st" using st by (simp add: is_good_def)
  have last: "fst (forever header_end_body () s) \<noteq> Inl Diverges" for s
  proof (cases "is_good s")
    case False
    then have "header_end_body () s = (Inr (Leave ()), s\<lparr>inFail := True\<rparr>)"
      by (auto simp: header_end_body_def in_get_def in_good_def is_good_def bnd_def ret_def)
    from forever_leave [where body = header_end_body, OF this] show ?thesis by simp
  qed (simp add: header_end_loop)
  note comments = comments_loop_total [OF good]
  have unsigned: "fst (in_unsigned s) \<noteq> Inl e" and get: "fst (in_get s) \<noteq> Inl e" for s e
    by (auto simp: in_unsigned_def in_get_def Let_def split: list.splits)
  have eof: "fst (in_eof s) \<noteq> Inl e" for s e by (simp add: in_eof_def)
  have read: "in_read 3 st = (Inr (take 3 (inBytes st)), ?st)" using st by (simp add: in_read_def)
  have rest: "fst (andthen (forever comments_body ()) k ?st) \<noteq> Inl Diverges"
    if "\<And>s'. fst (k s') \<noteq> Inl Diverges" for k :: "(istream, (nat \<times> nat) option) act"
    by (rule returns_rules(2)) (use comments that in simp_all)
  have eof0: "in_eof ?st = (Inr False, ?st)" using good by (simp add: in_eof_def is_good_def)
  show ?thesis
    unfolding readPbmHeader_def run_bnd(2) [of "in_read 3" st, OF read] run_bnd(2) [of in_eof ?st, OF eof0] if_False
    by (intro rest returns_rules unsigned get eof last)
qed

subsection \<open>Properties\<close>

text \<open>
C17. A page header of a PBM file. After the magic bytes any number of comment lines is skipped; width
and height are the decimal numbers before and after one white space; after the height everything up to
the next white space is ignored, and the stream stands at the first byte of the raster. The page
gets width / 8 bytes in a line, both sizes modulo 65536; a width that is no multiple of 8
throws. For no file at all does reading a header run for ever.
\<close>

theorem pbm_header:
  assumes "is_good st" and "inBytes st = header_bytes comments ws width ws' height junk @ rest"
    and "list_all (\<lambda>c. 10 \<notin> set c) comments" and "list_all isspace ws" and "list_all isspace ws'"
    and "width \<noteq> []" and "list_all isdigit width" and "digits_value width < 2 ^ 32"
    and "height \<noteq> []" and "list_all isdigit height" and "digits_value height < 2 ^ 32"
    and "list_all (\<lambda>c. \<not> isspace c) junk" and "junk \<noteq> [] \<longrightarrow> \<not> isdigit (hd junk)"
  shows
    "(digits_value width mod 8 = 0 \<longrightarrow>
      (\<exists>params. ReadHeader st = (Inr (Some params), st\<lparr>inBytes := rest\<rparr>) \<and>
        unat (ImageLineSize params) = digits_value width div 8 mod 65536 \<and>
        unat (ImageLines params) = digits_value height mod 65536)) \<and>
     (digits_value width mod 8 \<noteq> 0 \<longrightarrow>
      fst (ReadHeader st) = Inl (RuntimeError ''PBM width must be a multiple of 8'')) \<and>
     fst (readPbmHeader any) \<noteq> Inl Diverges"
  using readPbmHeader_parses [OF assms] readPbmHeader_total [of any]
  by (simp add: ReadHeader_def bnd_def ret_def raise_def unat_of_nat)

theorem pbm_header_witness:
  "let st = \<lparr>inBytes = header_bytes [[97], []] [32] [49, 54] [] [50] [] @ [7], inEof = False, inFail = False\<rparr>
   in \<exists>params. ReadHeader st = (Inr (Some params), st\<lparr>inBytes := [7]\<rparr>) \<and> ImageLineSize params = 2"
  using pbm_header [of "\<lparr>inBytes = header_bytes [[97], []] [32] [49, 54] [] [50] [] @ [7], inEof = False, inFail = False\<rparr>"
      "[[97], []]" "[32]" "[49, 54]" "[]" "[50]" "[]" "[7]"]
  by (auto simp: Let_def is_good_def isspace_unat isdigit_unat digits_value_def word_unat_eq_iff)

end
