(* ===== verification/Print_Pbm.thy ===== *)
theory Print_Pbm
  imports Printer Scoa_Roundtrip Buffered_Page Pbm
begin

text \<open>
  \<^verbatim>\<open>examples/printpbm.cpp\<close>: printing the pages of a PBM file.

  The functions are templates over the stop token; the token of the program is an argument.
  What is written to the standard output is \<open>console\<close>. A page is a \<open>buffered_page\<close>; the functions
  that take references to pages run on a state with these pages in it, next to the session.
\<close>

subsection \<open>Waiting for the printer\<close>

record 'd shell = "'d session" +
  console :: string

definition put :: "string \<Rightarrow> (('d, 'z) shell_scheme, unit) act" where
  "put s w = (Inr (), w\<lparr>console := console w @ s\<rparr>)"

definition clear_line :: string where
  "clear_line = CHR 0x1B # ''[2K'' @ [CHR 0x0D]"

text \<open>The first of the engine flags that only have to be waited for.\<close>

definition engine_flag :: "ExtendedStatus \<Rightarrow> string option" where
  "engine_flag status =
    (if Engine status AND DOOR_OPEN \<noteq> 0 then Some ''DOOR_OPEN''
     else if Engine status AND NO_CARTRIDGE \<noteq> 0 then Some ''NO_CARTRIDGE''
     else if Engine status AND WAITING \<noteq> 0 then Some ''WAITING''
     else if Engine status AND TEST_PRINTING \<noteq> 0 then Some ''TEST_PRINTING''
     else if Engine status AND NO_PRINT_PAPER \<noteq> 0 then Some ''NO_PRINT_PAPER''
     else if Engine status AND JAM \<noteq> 0 then Some ''JAM''
     else if Engine status AND CLEANING \<noteq> 0 then Some ''CLEANING''
     else None)"

definition next_status ::
  "'d device_ops \<Rightarrow> (('d, 'z) shell_scheme, (ExtendedStatus, ExtendedStatus) ctrl) act" where
  "next_status dops = bnd (GetStatus dops) (\<lambda>status. ret (Continue status))"

definition wait_ready_body ::
  "'d device_ops \<Rightarrow> StopToken \<Rightarrow> ExtendedStatus \<Rightarrow>
    (('d, 'z) shell_scheme, (ExtendedStatus, ExtendedStatus) ctrl) act" where
  "wait_ready_body dops stopToken status =
    (if Ready status then ret (Leave status)
     else
       bnd (stop_requested stopToken) (\<lambda>stop.
         if stop then ret (Leave status)
         else
           andthen (put clear_line)
             (case engine_flag status of
                Some name \<Rightarrow> andthen (put (''Not ready: '' @ name)) (next_status dops)
              | None \<Rightarrow>
                  if Engine status AND SERVICE_CALL \<noteq> 0
                  then raise (RuntimeError ''Unrecoverable error: SERVICE_CALL'')
                  else if ClearErrorNeeded status then
                    andthen (put ''Sending clear error...'')
                      (andthen (ClearError dops (Some status)) (next_status dops))
                  else andthen (put ''Not ready: unknown error'') (ret (Leave status)))))"

definition waitReady ::
  "'d device_ops \<Rightarrow> StopToken \<Rightarrow> (('d, 'z) shell_scheme, ExtendedStatus) act" where
  "waitReady dops stopToken =
    bnd (GetStatus dops) (\<lambda>status.
      if Ready status then ret status
      else
        bnd (forever (wait_ready_body dops stopToken) status) (\<lambda>status.
          andthen (put [CHR 0x0A]) (ret status)))"

definition prepare_body ::
  "'d device_ops \<Rightarrow> StopToken \<Rightarrow> nat \<Rightarrow> unit \<Rightarrow> (('d, 'z) shell_scheme, (unit, unit) ctrl) act" where
  "prepare_body dops stopToken page _ =
    bnd (waitReady dops stopToken) (\<lambda>status.
    bnd (stop_requested stopToken) (\<lambda>stop.
      if stop then ret (Leave ())
      else
        andthen (assertM (Ready status))
          (if \<not> Online status \<or> unat (Start status) \<noteq> page then
             bnd (GoOnline dops page) (\<lambda>online.
               if \<not> online
               then andthen (put (''Failed to go online, retrying...'' @ [CHR 0x0A])) (ret (Continue ()))
               else ret (Leave ()))
           else ret (Leave ()))))"

definition prepareBeforePrint ::
  "'d device_ops \<Rightarrow> StopToken \<Rightarrow> nat \<Rightarrow> (('d, 'z) shell_scheme, unit) act" where
  "prepareBeforePrint dops stopToken page = forever (prepare_body dops stopToken page) ()"

subsection \<open>Writing a page\<close>

text \<open>
  The reference \<open>p\<close> of the code: the previous page when \<open>old\<close>, else the current one. The pages of
  the state are the current one and the previous one, if there is a pointer to it.
\<close>

definition with_page :: "bool \<Rightarrow> ('p \<times> 'w, 'a) act \<Rightarrow> (('p \<times> 'p option) \<times> 'w, 'a) act" where
  "with_page old m s =
    (case s of ((page, prev), w) \<Rightarrow>
       case (if old then prev else None) of
         Some q \<Rightarrow> (case m (q, w) of (r, (q', w')) \<Rightarrow> (r, ((page, Some q'), w')))
       | None \<Rightarrow> (case m (page, w) of (r, (page', w')) \<Rightarrow> (r, ((page', prev), w'))))"

definition has_prev :: "(('p \<times> 'p option) \<times> 'w, bool) act" where
  "has_prev s = (Inr (snd (fst s) \<noteq> None), s)"

definition page_rewind :: "('s buffered_page \<times> 'w, unit) act" where
  "page_rewind s =
    (case page_seekpos 0 True (fst s) of
       Inl e \<Rightarrow> (Inl e, s)
     | Inr (_, p) \<Rightarrow> (Inr (), (p, snd s)))"

definition page_labels :: "('s buffered_page \<times> 'w, nat \<times> PageParams) act" where
  "page_labels s = (Inr (PageNumber (fst s), pageParams (fst s)), s)"

text \<open>What follows the page: the reason why it was refused, and which page is to be sent next.\<close>

definition after_write ::
  "'d device_ops \<Rightarrow> StopToken \<Rightarrow> bool \<Rightarrow> bool \<Rightarrow>
    ('p \<times> ('d, 'z) shell_scheme, (ReprintStatus, bool) ctrl) act" where
  "after_write dops stopToken old ok =
    (if ok then (if old then ret (Continue rsNone) else ret (Leave True))
     else
       bnd (lift (WaitPrintEnd dops stopToken)) (\<lambda>status. case status of
         None \<Rightarrow> ret (Leave True)
       | Some ex \<Rightarrow>
           if VideoDataError ex then ret (Leave False)
           else andthen (assertM (\<not> Ready ex)) (ret (Continue (GetReprintStatus ex)))))"

definition write_page_body ::
  "'d device_ops \<Rightarrow> 's streambuf_ops \<Rightarrow> StopToken \<Rightarrow> ReprintStatus \<Rightarrow>
    (('s buffered_page \<times> 's buffered_page option) \<times> ('d, 'z) shell_scheme, (ReprintStatus, bool) ctrl) act" where
  "write_page_body dops vio stopToken reprint =
    bnd (lift (stop_requested stopToken)) (\<lambda>stop.
      if stop then ret (Leave True)
      else
        bnd has_prev (\<lambda>prev.
        bnd (ret (prev \<and> reprint = rsPrev)) (\<lambda>old.
        andthen (with_page old page_rewind)
       (bnd (with_page old page_labels) (\<lambda>p.
        andthen (lift (prepareBeforePrint dops stopToken (fst p)))
       (bnd (lift (stop_requested stopToken)) (\<lambda>stop.
          if stop then ret (Leave True)
          else
            andthen (lift (put ((if reprint \<noteq> rsNone then ''Retrying page '' else ''Writing page '') @
                show_base 10 (fst p) @ ''...'' @ [CHR 0x0A])))
           (bnd (with_page old
                (WriteVideoDataDefault dops (area_ops (page_underflow vio)) (snd p) 0)) (\<lambda>ok.
              after_write dops stopToken old ok)))))))))"

definition writePage ::
  "'d device_ops \<Rightarrow> 's streambuf_ops \<Rightarrow> StopToken \<Rightarrow>
    (('s buffered_page \<times> 's buffered_page option) \<times> ('d, 'z) shell_scheme, bool) act" where
  "writePage dops vio stopToken = forever (write_page_body dops vio stopToken) rsNone"

text \<open>\<^verbatim>\<open>writePage(stopToken, printer, page, nullptr)\<close>\<close>

definition alone :: "(('p \<times> 'p option) \<times> 'w, 'a) act \<Rightarrow> ('p \<times> 'w, 'a) act" where
  "alone m s = (case m ((fst s, None), snd s) of (r, ((page, _), w)) \<Rightarrow> (r, (page, w)))"

definition last_page_body ::
  "'d device_ops \<Rightarrow> 's streambuf_ops \<Rightarrow> StopToken \<Rightarrow> unit \<Rightarrow>
    ('s buffered_page \<times> ('d, 'z) shell_scheme, (unit, bool) ctrl) act" where
  "last_page_body dops vio stopToken _ =
    bnd (lift (stop_requested stopToken)) (\<lambda>stop.
      if stop then ret (Leave True)
      else
        bnd (lift (WaitPrintEnd dops stopToken)) (\<lambda>status. case status of
          None \<Rightarrow> ret (Leave True)
        | Some ex \<Rightarrow>
            if VideoDataError ex then ret (Leave False)
            else if GetReprintStatus ex = rsNone then ret (Leave True)
            else
              bnd (alone (writePage dops vio stopToken)) (\<lambda>ok.
                if \<not> ok then ret (Leave False) else ret (Continue ()))))"

definition waitLastPage ::
  "'d device_ops \<Rightarrow> 's streambuf_ops \<Rightarrow> StopToken \<Rightarrow>
    ('s buffered_page \<times> ('d, 'z) shell_scheme, bool) act" where
  "waitLastPage dops vio stopToken = forever (last_page_body dops vio stopToken) ()"

subsection \<open>The program\<close>

text \<open>
  The loop over the pages of the file and what comes before and after it. The compressing stream reads
  from the buffer of the file stream: it gets the bytes that are left, and what it leaves of them
  is what the file stream has afterwards. The state is the file stream and the session.
\<close>

type_synonym pbm_page = "byte list scoa_streambuf buffered_page"

definition raster_left :: "pbm_page \<Rightarrow> byte list" where
  "raster_left p = (case bpVideo p of None \<Rightarrow> [] | Some ss \<Rightarrow> (case rasterStream ss of None \<Rightarrow> [] | Some r \<Rightarrow> r))"

definition write_next_page ::
  "'d device_ops \<Rightarrow> StopToken \<Rightarrow> nat \<Rightarrow> PageParams \<Rightarrow> pbm_page \<Rightarrow>
    (istream \<times> ('d, 'z) shell_scheme, bool \<times> pbm_page) act" where
  "write_next_page dops stopToken page params prevPage s =
    (let ss = newScoaStreambuf (inBytes (fst s)) (unat (ImageLineSize params)) (unat (ImageLines params));
         currPage = newBufferedPage page params (Some ss) 4096
     in case writePage dops (area_ops (scoa_underflow memory_ops)) stopToken
              ((currPage, if page = 0 then None else Some prevPage), snd s) of
          (r, ((currPage', prev), w)) \<Rightarrow>
            (bindR r (\<lambda>ok. Inr (ok, fst (page_move_assign (case prev of None \<Rightarrow> prevPage | Some q \<Rightarrow> q) currPage'))),
             ((fst s)\<lparr>inBytes := raster_left currPage'\<rparr>, w)))"

definition main_body ::
  "'d device_ops \<Rightarrow> StopToken \<Rightarrow> nat \<times> pbm_page \<Rightarrow>
    (istream \<times> ('d, 'z) shell_scheme, (nat \<times> pbm_page, (nat \<times> pbm_page) option) ctrl) act" where
  "main_body dops stopToken local =
    bnd (lift (stop_requested stopToken)) (\<lambda>stop.
      if stop then ret (Leave (Some local))
      else
        bnd (\<lambda>(pbm, w). case ReadHeader pbm of (r, pbm') \<Rightarrow> (r, (pbm', w))) (\<lambda>params. case params of
          None \<Rightarrow> ret (Leave (Some local))
        | Some params \<Rightarrow>
            bnd (write_next_page dops stopToken (fst local) params (snd local)) (\<lambda>r.
              if \<not> fst r then andthen (lift (put (''Error: WritePage failed'' @ [CHR 0x0A]))) (ret (Leave None))
              else ret (Continue (fst local + 1, snd r)))))"

definition on_last_page :: "(pbm_page \<times> 'w, 'a) act \<Rightarrow> pbm_page \<Rightarrow> (istream \<times> 'w, 'a) act" where
  "on_last_page m page s = (case m (page, snd s) of (r, (_, w)) \<Rightarrow> (r, (fst s, w)))"

definition print_file ::
  "'d device_ops \<Rightarrow> StopToken \<Rightarrow> PageParams \<Rightarrow> (istream \<times> ('d, 'z) shell_scheme, nat) act" where
  "print_file dops stopToken uninit =
    andthen (lift (ReserveUnit dops))
   (andthen (lift (ClearError dops None))
   (bnd (forever (main_body dops stopToken) (0, emptyBufferedPage uninit)) (\<lambda>r. case r of
      None \<Rightarrow> ret 1
    | Some (page, prevPage) \<Rightarrow>
        bnd (if page \<noteq> 0
             then on_last_page (waitLastPage dops (area_ops (scoa_underflow memory_ops)) stopToken) prevPage
             else ret True) (\<lambda>ok.
          if \<not> ok then andthen (lift (put (''Error: waitLastPage failed'' @ [CHR 0x0A]))) (ret 1)
          else andthen (lift (GoOffline dops)) (andthen (lift (ReleaseUnit dops)) (ret 0))))))"

subsection \<open>Getting ready\<close>

text \<open>The exchanges before a page: a status that is ready, and going online where it is needed.\<close>

definition ready_talk :: "nat \<Rightarrow> ExtendedStatus \<Rightarrow> ExtendedStatus \<Rightarrow> exchange list" where
  "ready_talk page ex ex' =
    x_status ex #
    (if Online ex \<and> unat (Start ex) = page then [] else [x_online (word_of_nat page) 0, x_status ex'])"

definition valid :: "ExtendedStatus \<Rightarrow> bool" where
  "valid ex \<longleftrightarrow> Basic ex AND ERROR_BIT = 0"

definition prints :: "nat \<Rightarrow> ExtendedStatus \<Rightarrow> ExtendedStatus \<Rightarrow> bool" where
  "prints page ex ex' \<longleftrightarrow> valid ex \<and> Ready ex \<and>
    (Online ex \<and> unat (Start ex) = page \<or> valid ex' \<and> Online ex')"

text \<open>A status after which the program asks again: one with a flag to wait for, or errors to clear.\<close>

definition waits :: "ExtendedStatus \<Rightarrow> bool" where
  "waits ex \<longleftrightarrow> valid ex \<and> \<not> Ready ex \<and>
    (engine_flag ex \<noteq> None \<or> Engine ex AND SERVICE_CALL = 0 \<and> ClearErrorNeeded ex \<and> UnitReserved ex)"

definition clear_talk :: "ExtendedStatus \<Rightarrow> exchange list" where
  "clear_talk ex = (if engine_flag ex = None then seq_talk (clear_cmds ex) else [])"

definition wait_talk :: "ExtendedStatus list \<Rightarrow> exchange list" where
  "wait_talk exs = concat (map (\<lambda>ex. x_status ex # clear_talk ex) exs)"

definition said_on :: "('d, 'z) shell_scheme \<Rightarrow> string \<Rightarrow> ('d, 'z) shell_scheme" where
  "said_on w s = w\<lparr>console := console w @ s\<rparr>"

lemma said_on_simps [simp]: "unstopped stopToken (said_on w s) = unstopped stopToken w"
  "cachedInfo (said_on w s) = cachedInfo w" "said_on (said_on w s) u = said_on w (s @ u)"
  "said_on w [] = w"
  by (simp_all add: said_on_def unstopped_def)

context responder
begin

lemma runs_put: "runs (put s) (around w) [] (Inr ()) (around (said_on w s))"
  by (rule runs_pure) (simp add: put_def said_on_def)

lemma runs_wait_status:
  fixes w :: "('d, 'z) shell_scheme"
  assumes "unstopped stopToken w" and "waits ex" and "valid ex'"
  obtains s where "runs (wait_ready_body dops stopToken ex) (around w) (clear_talk ex @ [x_status ex'])
    (Inr (Continue ex')) (around (said_on w s))"
proof -
  have nr: "\<not> Ready ex" using assms(2) by (simp add: waits_def)
  have look: "runs (next_status dops) (around u) [x_status ex'] (Inr (Continue ex')) (around u)"
    for u :: "('d, 'z) shell_scheme"
    unfolding next_status_def
    by (rule runs_bnd [OF runs_GetStatus runs_ret]) (use assms(3) in \<open>simp_all add: valid_def\<close>)
  show thesis
  proof (cases "engine_flag ex")
    case (Some name)
    have "runs (wait_ready_body dops stopToken ex) (around w) [x_status ex'] (Inr (Continue ex'))
        (around (said_on (said_on w clear_line) (''Not ready: '' @ name)))"
      unfolding wait_ready_body_def Some option.case
      apply (simp only: nr if_False)
      apply (rule runs_bnd [OF runs_stop [OF assms(1)] _ append_Nil [symmetric]])
      apply (simp only: if_False)
      apply (rule runs_andthen [OF runs_put _ append_Nil [symmetric]])
      by (rule runs_andthen [OF runs_put look append_Nil [symmetric]])
    with that Some show thesis by (simp add: clear_talk_def)
  next
    case None
    have ex: "(Engine ex AND SERVICE_CALL \<noteq> 0) = False" "ClearErrorNeeded ex" "UnitReserved ex"
      using assms(2) None by (simp_all add: waits_def)
    have "runs (wait_ready_body dops stopToken ex) (around w) (seq_talk (clear_cmds ex) @ [x_status ex'])
        (Inr (Continue ex')) (around (said_on (said_on w clear_line) ''Sending clear error...''))"
      unfolding wait_ready_body_def None option.case
      apply (simp only: nr if_False)
      apply (rule runs_bnd [OF runs_stop [OF assms(1)] _ append_Nil [symmetric]])
      apply (simp only: if_False)
      apply (rule runs_andthen [OF runs_put _ append_Nil [symmetric]])
      apply (simp only: ex(1,2) if_False if_True)
      apply (rule runs_andthen [OF runs_put _ append_Nil [symmetric]])
      by (rule runs_andthen [OF runs_ClearError(1) [OF ex(3)] look refl])
    with that None show thesis by (simp add: clear_talk_def)
  qed
qed

lemma runs_wait_loop:
  assumes "valid ex" and "Ready ex"
  shows "unstopped stopToken w \<Longrightarrow> waits e \<Longrightarrow> list_all waits exs \<Longrightarrow>
    \<exists>s. runs (forever (wait_ready_body dops stopToken) e) (around w)
      (clear_talk e @ wait_talk exs @ [x_status ex]) (Inr ex) (around (said_on w s))"
proof (induction exs arbitrary: e w)
  case Nil
  obtain s where step: "runs (wait_ready_body dops stopToken e) (around w) (clear_talk e @ [x_status ex])
      (Inr (Continue ex)) (around (said_on w s))"
    using runs_wait_status [OF Nil.prems(1,2) assms(1)] by blast
  have "runs (wait_ready_body dops stopToken ex) (around (said_on w s)) [] (Inr (Leave ex)) (around (said_on w s))"
    unfolding wait_ready_body_def using assms(2) by (simp add: runs_ret)
  then have "runs (forever (wait_ready_body dops stopToken) ex) (around (said_on w s)) [] (Inr ex)
      (around (said_on w s))"
    by (rule runs_leave)
  from runs_step [OF step this] show ?case by (auto simp: wait_talk_def)
next
  case (Cons f exs)
  obtain s where step: "runs (wait_ready_body dops stopToken e) (around w) (clear_talk e @ [x_status f])
      (Inr (Continue f)) (around (said_on w s))"
    using runs_wait_status [OF Cons.prems(1,2), of f] Cons.prems(3) by (auto simp: waits_def)
  have "unstopped stopToken (said_on w s)" "waits f" "list_all waits exs" using Cons.prems by simp_all
  from Cons.IH [OF this] obtain s' where
    "runs (forever (wait_ready_body dops stopToken) f) (around (said_on w s))
      (clear_talk f @ wait_talk exs @ [x_status ex]) (Inr ex) (around (said_on (said_on w s) s'))" by blast
  from runs_step [OF step this] show ?case by (auto simp: wait_talk_def)
qed

lemma runs_waitReady:
  assumes "unstopped stopToken w" and "list_all waits exs" and "valid ex" and "Ready ex"
  obtains s where "runs (waitReady dops stopToken) (around w) (wait_talk exs @ [x_status ex]) (Inr ex)
    (around (said_on w s))"
proof (cases exs)
  case Nil
  have "runs (waitReady dops stopToken) (around w) [x_status ex] (Inr ex) (around w)"
    unfolding waitReady_def
    by (rule runs_bnd [OF runs_GetStatus, where u = "[]"]) (use assms in \<open>simp_all add: valid_def runs_ret\<close>)
  with Nil that [of "[]"] show thesis by (simp add: wait_talk_def)
next
  case (Cons e exs')
  have e: "valid e" "\<not> Ready e" "waits e" "list_all waits exs'" using assms(2) Cons by (simp_all add: waits_def)
  obtain s where s: "runs (forever (wait_ready_body dops stopToken) e) (around w)
      (clear_talk e @ wait_talk exs' @ [x_status ex]) (Inr ex) (around (said_on w s))"
    using runs_wait_loop [OF assms(3,4,1) e(3,4)] by blast
  have "runs (waitReady dops stopToken) (around w) (x_status e # clear_talk e @ wait_talk exs' @ [x_status ex]) (Inr ex)
      (around (said_on (said_on w s) [CHR 0x0A]))"
    unfolding waitReady_def
    apply (rule runs_bnd [OF runs_GetStatus])
      apply (use e(1) in \<open>simp add: valid_def\<close>)
     apply (simp only: e(2) if_False)
     apply (rule runs_bnd [OF s _ append_Nil2 [symmetric]])
     apply (rule runs_andthen [OF runs_put runs_ret append_Nil [symmetric]])
    by simp
  with Cons that show thesis by (simp add: wait_talk_def)
qed

lemma runs_prepare:
  assumes "unstopped stopToken w" and "list_all waits exs" and "prints page ex ex'"
  obtains s where "runs (prepareBeforePrint dops stopToken page) (around w)
    (wait_talk exs @ ready_talk page ex ex') (Inr ()) (around (said_on w s))"
proof -
  have ex: "valid ex" "Ready ex" using assms(3) by (simp_all add: prints_def)
  obtain s where s: "runs (waitReady dops stopToken) (around w) (wait_talk exs @ [x_status ex]) (Inr ex)
      (around (said_on w s))"
    using runs_waitReady [OF assms(1,2) ex] by blast
  let ?w = "said_on w s"
  have unst: "unstopped stopToken ?w" using assms(1) by simp
  have tail: "runs (if \<not> Online ex \<or> unat (Start ex) \<noteq> page then
             bnd (GoOnline dops page) (\<lambda>online.
               if \<not> online
               then andthen (put (''Failed to go online, retrying...'' @ [CHR 0x0A])) (ret (Continue ()))
               else ret (Leave ()))
           else ret (Leave ())) (around ?w)
      (tl (ready_talk page ex ex')) (Inr (Leave ())) (around ?w)"
  proof (cases "Online ex \<and> unat (Start ex) = page")
    case True
    then show ?thesis by (simp add: ready_talk_def runs_ret)
  next
    case False
    then have ex': "Basic ex' AND ERROR_BIT = 0" "Online ex'"
      using assms(3) by (auto simp: prints_def valid_def)
    have "runs (bnd (GoOnline dops page) (\<lambda>online.
               if \<not> online
               then andthen (put (''Failed to go online, retrying...'' @ [CHR 0x0A])) (ret (Continue ()))
               else ret (Leave ()))) (around ?w) [x_online (word_of_nat page) 0, x_status ex'] (Inr (Leave ())) (around ?w)"
      by (rule runs_bnd [OF runs_GoOnline [OF ex'(1)], where u = "[]"]) (use ex'(2) in \<open>simp_all add: runs_ret\<close>)
    with False show ?thesis by (auto simp: ready_talk_def)
  qed
  have "runs (prepare_body dops stopToken page ()) (around w)
      ((wait_talk exs @ [x_status ex]) @ tl (ready_talk page ex ex')) (Inr (Leave ())) (around ?w)"
    unfolding prepare_body_def
    apply (rule runs_bnd [OF s _ refl])
    apply (rule runs_bnd [OF runs_stop [OF unst] _ append_Nil [symmetric]])
    apply (simp only: if_False)
    by (rule runs_andthen [OF runs_assert [OF ex(2)] tail append_Nil [symmetric]])
  then have "runs (prepareBeforePrint dops stopToken page) (around w)
      ((wait_talk exs @ [x_status ex]) @ tl (ready_talk page ex ex')) (Inr ()) (around ?w)"
    unfolding prepareBeforePrint_def by (rule runs_leave)
  with that [of s] show thesis by (simp add: ready_talk_def)
qed

end

subsection \<open>Pages that keep their bytes\<close>

text \<open>What no read and no seek changes: the bytes, the number and the parameters of a page.\<close>

definition page_id :: "('s \<Rightarrow> byte list) \<Rightarrow> 's buffered_page \<Rightarrow> byte list \<times> nat \<times> PageParams" where
  "page_id content b = (page_whole content b, PageNumber b, pageParams b)"

definition keeps_labels :: "'s buffered_page \<Rightarrow> fault + ('a \<times> 's buffered_page) \<Rightarrow> bool" where
  "keeps_labels b r \<longleftrightarrow>
    (\<forall>x b'. r = Inr (x, b') \<longrightarrow> PageNumber b' = PageNumber b \<and> pageParams b' = pageParams b \<and>
      (bpVideo b' = None \<longleftrightarrow> bpVideo b = None))"

lemma underflow_keeps: "keeps_labels b (page_underflow io b)"
  by (auto simp: keeps_labels_def page_underflow_def Let_def elim!: bindR_eq_InrE split: option.splits if_splits)

lemma bump_keeps: "keeps_labels b (area_sbumpc (page_underflow io) b)"
  using underflow_keeps [of b io]
  by (auto simp: keeps_labels_def area_sbumpc_def area_uflow_def elim!: bindR_eq_InrE split: option.splits if_splits)

lemma read_keeps: "keeps_labels b (xsgetn (area_sbumpc (page_underflow io)) n b)"
proof (induction n arbitrary: b)
  case (Suc n)
  show ?case
    unfolding keeps_labels_def
  proof (intro allI impI)
    fix x b' assume "xsgetn (area_sbumpc (page_underflow io)) (Suc n) b = Inr (x, b')"
    then obtain c b1 where b1: "area_sbumpc (page_underflow io) b = Inr (c, b1)"
      and "b' = b1 \<or> (\<exists>y. xsgetn (area_sbumpc (page_underflow io)) n b1 = Inr (y, b'))"
      by (auto elim!: bindR_eq_InrE split: option.splits)
    with bump_keeps [of b io] Suc [of b1]
    show "PageNumber b' = PageNumber b \<and> pageParams b' = pageParams b \<and> (bpVideo b' = None \<longleftrightarrow> bpVideo b = None)"
      by (auto simp: keeps_labels_def)
  qed
qed (simp add: keeps_labels_def)

context page_source
begin

definition same_page :: "'a buffered_page \<Rightarrow> 'a buffered_page \<Rightarrow> bool" where
  "same_page p b \<longleftrightarrow> page_ok ok lineSize b \<and> page_id content b = page_id content p \<and>
    (bpVideo b = None \<longleftrightarrow> bpVideo p = None)"

lemma kept_source: "byte_source (area_ops (page_underflow io)) (same_page p) page.stream_content"
proof unfold_locales
  fix b n assume b: "same_page p b"
  then have ok: "page_ok ok lineSize b" and id: "page_id content b = page_id content p"
    "bpVideo b = None \<longleftrightarrow> bpVideo p = None"
    by (simp_all add: same_page_def)
  obtain b1 where b1: "sgetn (area_ops (page_underflow io)) n b = Inr (take n (page.stream_content b), b1)"
    "page_ok ok lineSize b1" "page.stream_content b1 = drop n (page.stream_content b)"
    using page.read [OF ok, of n] by (rule deliversE)
  then have "page_id content b1 = page_id content b" "bpVideo b1 = None \<longleftrightarrow> bpVideo b = None"
    using page_read_whole [OF ok, of n] read_keeps [of b io n]
    by (simp_all add: area_ops_def page_id_def keeps_labels_def)
  with b1 id show "delivers (same_page p) page.stream_content (sgetn (area_ops (page_underflow io)) n b)
      (take n (page.stream_content b)) (drop n (page.stream_content b))"
    by (simp add: deliversI same_page_def)
  obtain b2 where b2: "sbumpc (area_ops (page_underflow io)) b = Inr (hd_opt (page.stream_content b), b2)"
    "page_ok ok lineSize b2" "page.stream_content b2 = tl (page.stream_content b)"
    using page.bump [OF ok] by (rule deliversE)
  then have "page_id content b2 = page_id content b" "bpVideo b2 = None \<longleftrightarrow> bpVideo b = None"
    using page_bump_whole [OF ok] bump_keeps [of b io]
    by (simp_all add: area_ops_def page_id_def keeps_labels_def)
  with b2 id show "delivers (same_page p) page.stream_content (sbumpc (area_ops (page_underflow io)) b)
      (hd_opt (page.stream_content b)) (tl (page.stream_content b))"
    by (simp add: deliversI same_page_def)
  obtain b3 where b3: "sgetc (area_ops (page_underflow io)) b = Inr (hd_opt (page.stream_content b), b3)"
    "page_ok ok lineSize b3" "page.stream_content b3 = page.stream_content b"
    using page.peek [OF ok] by (rule deliversE)
  have "page_id content b3 = page_id content b \<and> (bpVideo b3 = None \<longleftrightarrow> bpVideo b = None)"
  proof (cases "gpos b < length (gdata b)")
    case True
    with b3(1) show ?thesis by (simp add: area_ops_def area_sgetc_def)
  next
    case False
    with b3(1) have "page_underflow io b = Inr (hd_opt (page.stream_content b), b3)"
      by (simp add: area_ops_def area_sgetc_def)
    with page_refill [OF ok False] underflow_keeps [of b io] show ?thesis
      by (auto simp: page_id_def keeps_labels_def)
  qed
  with b3 id show "delivers (same_page p) page.stream_content (sgetc (area_ops (page_underflow io)) b)
      (hd_opt (page.stream_content b)) (page.stream_content b)"
    by (simp add: deliversI same_page_def)
qed

lemma rewind_page:
  assumes "same_page p b"
  shows "page_rewind (b, w) = (Inr (), (b\<lparr>gpos := 0\<rparr>, w))" "same_page p (b\<lparr>gpos := 0\<rparr>)"
    "page.stream_content (b\<lparr>gpos := 0\<rparr>) = fst (page_id content p)"
proof -
  have "page_id content (b\<lparr>gpos := 0\<rparr>) = page_id content b"
    by (simp add: page_id_def page_whole_def page_rest_def)
  then show "same_page p (b\<lparr>gpos := 0\<rparr>)" using assms by (simp add: same_page_def page_ok_def)
  show "page_rewind (b, w) = (Inr (), (b\<lparr>gpos := 0\<rparr>, w))"
    by (simp add: page_rewind_def page_seekpos_def set_pos_def)
  show "page.stream_content (b\<lparr>gpos := 0\<rparr>) = fst (page_id content p)"
    using assms by (simp add: same_page_def page_id_def page.stream_content_def page_whole_def page_rest_def)
qed

end

subsection \<open>The abstract protocol of a page\<close>

text \<open>
  A sheet is what there is to print: the bytes, the number and the parameters. The printer
  decides how each attempt to print one ends. Before it the program waits: the statuses are the ones
  that are waited for, the ready one, and the one after going online. During the data the
  printer is polled; when it refuses, statuses follow until it has stopped printing.
\<close>

type_synonym sheet = "byte list \<times> nat \<times> PageParams"

datatype outcome =
  Accepted "(byte list \<times> byte) list"
| Refused "(byte list \<times> byte) list" "byte list" byte "ExtendedStatus list" ExtendedStatus

datatype attempt = Attempt "ExtendedStatus list" ExtendedStatus ExtendedStatus outcome

fun attempt_ok :: "nat \<Rightarrow> sheet \<Rightarrow> attempt \<Rightarrow> bool" where
  "attempt_ok n (bytes, page, params) (Attempt exs ex ex' (Accepted polls)) \<longleftrightarrow>
    list_all waits exs \<and> prints page ex ex' \<and> length polls = length (blocks_of n bytes) \<and> polls_ok polls"
| "attempt_ok n (bytes, page, params) (Attempt exs ex ex' (Refused polls bsy final sts st)) \<longleftrightarrow>
    list_all waits exs \<and> prints page ex ex' \<and> length polls * n < length bytes \<and> polls_ok polls \<and>
    list_all busy bsy \<and> final AND NOT_READY \<noteq> 0 \<and>
    list_all (\<lambda>e. IsPrinting e \<and> valid e) sts \<and> \<not> IsPrinting st \<and> valid st \<and>
    (VideoDataError st \<or> \<not> Ready st)"

fun attempt_talk :: "nat \<Rightarrow> exchange list \<Rightarrow> sheet \<Rightarrow> attempt \<Rightarrow> exchange list" where
  "attempt_talk n sz (bytes, page, params) (Attempt exs ex ex' (Accepted polls)) =
    wait_talk exs @ ready_talk page ex ex' @ sz @ begin_talk params @
    video_talk (blocks_of n bytes) polls @ [tells 0xD0A2 []]"
| "attempt_talk n sz (bytes, page, params) (Attempt exs ex ex' (Refused polls bsy final sts st)) =
    wait_talk exs @ ready_talk page ex ex' @ sz @ begin_talk params @
    video_talk (first_blocks n (length polls) bytes) polls @ poll_talk bsy final @
    map x_status sts @ [x_status st]"

fun printed :: "attempt \<Rightarrow> bool" where
  "printed (Attempt exs ex ex' (Accepted polls)) \<longleftrightarrow> True"
| "printed (Attempt exs ex ex' (Refused polls bsy final sts st)) \<longleftrightarrow> False"

definition old_page :: "'p option \<Rightarrow> ReprintStatus \<Rightarrow> bool" where
  "old_page prev reprint \<longleftrightarrow> prev \<noteq> None \<and> reprint = rsPrev"

definition aim :: "'p \<Rightarrow> 'p option \<Rightarrow> ReprintStatus \<Rightarrow> 'p" where
  "aim cur prev reprint = (if reprint = rsPrev then (case prev of None \<Rightarrow> cur | Some q \<Rightarrow> q) else cur)"

text \<open>
  Which sheet each attempt is for, and how the page ends: the previous sheet after a status that
  asks for it, else the current one, until that one is accepted or an error in the data stops everything.
  \<open>None\<close>: these attempts are no possible sequence.
\<close>

fun page_plan :: "nat \<Rightarrow> sheet \<Rightarrow> sheet option \<Rightarrow> ReprintStatus \<Rightarrow> attempt list \<Rightarrow> bool option" where
  "page_plan n cur prev reprint [] = None"
| "page_plan n cur prev reprint (a # as) =
    (if \<not> attempt_ok n (aim cur prev reprint) a then None
     else case a of
       Attempt _ _ _ (Accepted _) \<Rightarrow>
         if old_page prev reprint then page_plan n cur prev rsNone as
         else if as = [] then Some True else None
     | Attempt _ _ _ (Refused _ _ _ _ st) \<Rightarrow>
         if VideoDataError st then if as = [] then Some False else None
         else page_plan n cur prev (GetReprintStatus st) as)"

fun page_talk ::
  "nat \<Rightarrow> exchange list \<Rightarrow> sheet \<Rightarrow> sheet option \<Rightarrow> ReprintStatus \<Rightarrow> attempt list \<Rightarrow> exchange list" where
  "page_talk n sz cur prev reprint [] = []"
| "page_talk n sz cur prev reprint (a # as) =
    attempt_talk n sz (aim cur prev reprint) a @
    page_talk n [] cur prev
      (case a of Attempt _ _ _ (Accepted _) \<Rightarrow> rsNone | Attempt _ _ _ (Refused _ _ _ _ st) \<Rightarrow> GetReprintStatus st) as"

subsection \<open>One attempt\<close>

text \<open>Exchanging the page a reference stands for.\<close>

definition replaced :: "'p option \<Rightarrow> ReprintStatus \<Rightarrow> 'p \<Rightarrow> 'p \<times> 'p option \<Rightarrow> 'p \<times> 'p option" where
  "replaced prev reprint b P = (if old_page prev reprint then (fst P, Some b) else (b, snd P))"

lemma with_page_aim:
  "with_page (old_page (snd P) reprint) m (P, w) =
    (case m (aim (fst P) (snd P) reprint, w) of (r, (b, w')) \<Rightarrow> (r, (replaced (snd P) reprint b P, w')))"
  by (cases P; cases "snd P"; cases "reprint = rsPrev")
    (simp_all add: with_page_def old_page_def aim_def replaced_def)

lemma replaced_simps [simp]:
  "aim (fst (replaced (snd P) reprint b P)) (snd (replaced (snd P) reprint b P)) reprint = b"
  "old_page (snd (replaced (snd P) reprint b P)) reprint' = old_page (snd P) reprint'"
  "snd (replaced (snd P) reprint b P) = None \<longleftrightarrow> snd P = None"
  "replaced (snd (replaced (snd P) reprint b P)) reprint b' (replaced (snd P) reprint b P) = replaced (snd P) reprint b' P"
  by (cases P; cases "snd P"; cases "reprint = rsPrev"; simp add: replaced_def old_page_def aim_def)+

context responder
begin

lemma runs_with_page:
  assumes "runs m (\<lambda>io. (aim (fst P) (snd P) reprint, a io)) t r (\<lambda>io. (b, c io))"
  shows "runs (with_page (old_page (snd P) reprint) m) (\<lambda>io. (P, a io)) t r
    (\<lambda>io. (replaced (snd P) reprint b P, c io))"
proof (rule runsI)
  fix W io assume "quiet io W" "follows respond W t"
  with assms obtain io' where "m (aim (fst P) (snd P) reprint, a io) = (r, (b, c io'))" "quiet io' (W @ said t)"
    by (blast elim: runsE)
  then show "\<exists>io'. with_page (old_page (snd P) reprint) m (P, a io) = (r, (replaced (snd P) reprint b P, c io')) \<and>
      quiet io' (W @ said t)"
    by (auto simp: with_page_aim)
qed

end

locale page_link =
  responder dops dok pending sent consumed respond + page_source vio vok content blockSize
  for dops :: "'d device_ops"
    and dok :: "'d \<Rightarrow> bool"
    and pending :: "'d \<Rightarrow> byte list"
    and sent :: "'d \<Rightarrow> byte list"
    and consumed :: "'d \<Rightarrow> nat"
    and respond :: "byte list \<Rightarrow> byte list"
    and vio :: "'s streambuf_ops"
    and vok :: "'s \<Rightarrow> bool"
    and content :: "'s \<Rightarrow> byte list"
    and blockSize :: nat
begin

lemma link: "video_link dops dok pending sent consumed respond (area_ops (page_underflow vio))
    (same_page p) page.stream_content"
  by (rule video_link.intro [OF responder_axioms kept_source])

lemma runs_with_replaced:
  assumes "runs m (\<lambda>io. (b, a io)) t r (\<lambda>io. (b', c io))"
  shows "runs (with_page (old_page (snd P) reprint) m) (\<lambda>io. (replaced (snd P) reprint b P, a io)) t r
    (\<lambda>io. (replaced (snd P) reprint b' P, c io))"
proof -
  have "runs m (\<lambda>io. (aim (fst (replaced (snd P) reprint b P)) (snd (replaced (snd P) reprint b P)) reprint, a io))
      t r (\<lambda>io. (b', c io))"
    using assms by simp
  from runs_with_page [OF this] show ?thesis by simp
qed

lemma runs_until_outcome:
  fixes w :: "('d, 'z) shell_scheme"
  assumes "unstopped stopToken w" and "same_page p (aim (fst P) (snd P) reprint)"
    and "list_all waits exs" and "prints (PageNumber p) ex ex'"
    and "\<And>b s. same_page p b \<Longrightarrow> page.stream_content b = fst (page_id content p) \<Longrightarrow>
      \<exists>b'. same_page p b' \<and> Q b' \<and>
        runs (WriteVideoDataDefault dops (area_ops (page_underflow vio)) (pageParams p) 0)
          (\<lambda>io. (b, around (said_on w s) io)) t (Inr ok) (\<lambda>io. (b', around (after_size 0 (said_on w s) i) io))"
    and "\<And>(b :: 's buffered_page \<times> 's buffered_page option) s. runs (after_write dops stopToken (old_page (snd P) reprint) ok)
      (\<lambda>io. (b, around (after_size 0 (said_on w s) i) io)) u (Inr x) (\<lambda>io. (b, around (after_size 0 (said_on w s) i) io))"
  shows "\<exists>b' s. same_page p b' \<and> Q b' \<and>
    runs (write_page_body dops vio stopToken reprint) (\<lambda>io. (P, around w io))
      (wait_talk exs @ ready_talk (PageNumber p) ex ex' @ t @ u) (Inr x)
      (\<lambda>io. (replaced (snd P) reprint b' P, around (after_size 0 (said_on w s) i) io))"
proof -
  let ?b = "aim (fst P) (snd P) reprint"
  let ?top = "?b\<lparr>gpos := 0\<rparr>"
  note b0 = rewind_page [OF assms(2)]
  have labels: "PageNumber ?top = PageNumber p" "pageParams ?top = pageParams p"
    using b0(2) by (simp_all add: same_page_def page_id_def)
  obtain s1 where s1: "runs (prepareBeforePrint dops stopToken (PageNumber p)) (around w)
      (wait_talk exs @ ready_talk (PageNumber p) ex ex') (Inr ()) (around (said_on w s1))"
    using runs_prepare [OF assms(1,3,4)] by blast
  let ?say = "(if reprint \<noteq> rsNone then ''Retrying page '' else ''Writing page '') @
      show_base 10 (PageNumber p) @ ''...'' @ [CHR 0x0A]"
  let ?s = "s1 @ ?say"
  obtain b' where b': "same_page p b'" "Q b'"
    "runs (WriteVideoDataDefault dops (area_ops (page_underflow vio)) (pageParams p) 0)
      (\<lambda>io. (?top, around (said_on w ?s) io)) t (Inr ok) (\<lambda>io. (b', around (after_size 0 (said_on w ?s) i) io))"
    using assms(5) [OF b0(2,3)] by blast
  have prev: "runs has_prev (\<lambda>io. (P, a io)) [] (Inr (snd P \<noteq> None)) (\<lambda>io. (P, a io))"
    for a :: "'d iostream \<Rightarrow> ('d, 'z) shell_scheme"
    by (rule runs_pure) (simp add: has_prev_def)
  have rewind: "runs page_rewind (\<lambda>io. (?b, a io)) [] (Inr ()) (\<lambda>io. (?top, a io))"
    for a :: "'d iostream \<Rightarrow> ('d, 'z) shell_scheme"
    by (rule runs_pure) (rule rewind_page(1) [OF assms(2)])
  have label: "runs page_labels (\<lambda>io. (?top, a io)) [] (Inr (PageNumber p, pageParams p)) (\<lambda>io. (?top, a io))"
    for a :: "'d iostream \<Rightarrow> ('d, 'z) shell_scheme"
    by (rule runs_pure) (simp add: page_labels_def labels [simplified])
  have unst: "unstopped stopToken (said_on w s1)" using assms(1) by simp
  have "runs (write_page_body dops vio stopToken reprint) (\<lambda>io. (P, around w io))
      ((wait_talk exs @ ready_talk (PageNumber p) ex ex') @ t @ u) (Inr x)
      (\<lambda>io. (replaced (snd P) reprint b' P, around (after_size 0 (said_on w ?s) i) io))"
    unfolding write_page_body_def
    apply (rule runs_bnd [OF runs_lift [OF runs_stop [OF assms(1)]] _ append_Nil [symmetric]])
    apply (simp only: if_False)
    apply (rule runs_bnd [OF prev _ append_Nil [symmetric]])
    apply (rule runs_bnd [OF runs_ret _ append_Nil [symmetric]])
    apply (simp only: old_page_def [symmetric])
    apply (rule runs_andthen [OF runs_with_page [OF rewind] _ append_Nil [symmetric]])
    apply (rule runs_bnd [OF runs_with_replaced [OF label] _ append_Nil [symmetric]])
    apply (simp only: fst_conv snd_conv)
    apply (rule runs_andthen [OF runs_lift [OF s1] _ refl])
    apply (rule runs_bnd [OF runs_lift [OF runs_stop [OF unst]] _ append_Nil [symmetric]])
    apply (simp only: if_False)
    apply (rule runs_andthen [OF runs_lift [OF runs_put] _ append_Nil [symmetric]])
    apply (simp only: said_on_simps)
    apply (rule runs_bnd [OF runs_with_replaced [OF b'(3)] _ refl])
    by (rule assms(6))
  with b'(1,2) show ?thesis by auto
qed

text \<open>Each outcome.\<close>

lemma runs_print_end:
  assumes "unstopped stopToken w" and "list_all (\<lambda>e. IsPrinting e \<and> valid e) sts"
    and "\<not> IsPrinting st" and "valid st"
  shows "runs (WaitPrintEnd dops stopToken) (around w) (map x_status sts @ [x_status st]) (Inr (Some st)) (around w)"
proof -
  have "list_all (\<lambda>e. \<not> \<not> IsPrinting e \<and> Basic e AND ERROR_BIT = 0) sts"
    using assms(2) by (simp add: valid_def list_all_iff)
  then show ?thesis
    unfolding WaitPrintEnd_def using assms(3,4) by (intro runs_wait_found assms(1)) (simp_all add: valid_def)
qed

lemma runs_refusal:
  assumes "unstopped stopToken w" and "list_all (\<lambda>e. IsPrinting e \<and> valid e) sts"
    and "\<not> IsPrinting st" and "valid st" and "VideoDataError st \<or> \<not> Ready st"
  shows "runs (after_write dops stopToken old False) (\<lambda>io. (P, around w io))
    (map x_status sts @ [x_status st])
    (Inr (if VideoDataError st then Leave False else Continue (GetReprintStatus st))) (\<lambda>io. (P, around w io))"
proof -
  note wait = runs_lift [OF runs_print_end [OF assms(1-4)]]
  show ?thesis
    unfolding after_write_def if_False
    apply (rule runs_bnd [OF wait _ append_Nil2 [symmetric]])
    using assms(5) by (auto intro: runs_ret runs_andthen [OF runs_assert runs_ret])
qed

lemma runs_attempt:
  fixes w :: "('d, 'z) shell_scheme"
  assumes "unstopped stopToken w" and "same_page p (aim (fst P) (snd P) reprint)"
    and "cachedInfo w = None \<or> cachedInfo w = Some i" and "0 < BlockSize i" and "unat (BlockSize i) + 4 \<le> 65535"
    and "attempt_ok (unat (BlockSize i)) (page_id content p) a"
  shows "\<exists>b' s. same_page p b' \<and> (printed a \<longrightarrow> page.stream_content b' = []) \<and>
    runs (write_page_body dops vio stopToken reprint) (\<lambda>io. (P, around w io))
      (attempt_talk (unat (BlockSize i)) (size_talk 0 w i) (page_id content p) a)
      (Inr (case a of
         Attempt _ _ _ (Accepted _) \<Rightarrow> if old_page (snd P) reprint then Continue rsNone else Leave True
       | Attempt _ _ _ (Refused _ _ _ _ st) \<Rightarrow>
           if VideoDataError st then Leave False else Continue (GetReprintStatus st)))
      (\<lambda>io. (replaced (snd P) reprint b' P, around (after_size 0 (said_on w s) i) io))"
proof -
  let ?n = "unat (BlockSize i)" and ?bytes = "page_whole content p"
  have id: "page_id content p = (?bytes, PageNumber p, pageParams p)" by (simp add: page_id_def)
  have n: "chosen_size 0 i = ?n" "0 < ?n" using assms(4) by (simp_all add: chosen_size_def word_less_nat_alt)
  have info: "cachedInfo (said_on w s) = None \<or> cachedInfo (said_on w s) = Some i"
    and talk: "size_talk 0 (said_on w s) i = size_talk 0 w i" for s
    using assms(3) by (simp_all add: size_talk_def)
  have src: "unstopped NoSource u" for u :: "('d, 'z) shell_scheme" by (simp add: unstopped_def)
  obtain exs ex ex' out where a: "a = Attempt exs ex ex' out" by (cases a)
  show ?thesis
  proof (cases out)
    case (Accepted polls)
    have ok: "list_all waits exs" "prints (PageNumber p) ex ex'" "length polls = length (blocks_of ?n ?bytes)"
      "polls_ok polls"
      using assms(6) by (simp_all add: a Accepted id)
    have sends: "\<exists>b'. same_page p b' \<and> page.stream_content b' = [] \<and>
        runs (WriteVideoDataDefault dops (area_ops (page_underflow vio)) (pageParams p) 0)
          (\<lambda>io. (b, around (said_on w s) io))
          (size_talk 0 w i @ begin_talk (pageParams p) @ video_talk (blocks_of ?n ?bytes) polls @ [tells 0xD0A2 []])
          (Inr True) (\<lambda>io. (b', around (after_size 0 (said_on w s) i) io))"
      if "same_page p b" "page.stream_content b = fst (page_id content p)" for b s
      using video_link.runs_write_video [OF link that(1) src info [of s], of 0 polls "pageParams p"]
        n assms(5) ok(3,4) that(2)
      unfolding id fst_conv talk WriteVideoDataDefault_def by metis
    have "runs (after_write dops stopToken (old_page (snd P) reprint) True)
        (\<lambda>io. (b, around (after_size 0 (said_on w s) i) io)) []
        (Inr (if old_page (snd P) reprint then Continue rsNone else Leave True))
        (\<lambda>io. (b, around (after_size 0 (said_on w s) i) io))" for b :: "'s buffered_page \<times> 's buffered_page option" and s
      by (simp add: after_write_def runs_ret)
    from runs_until_outcome [OF assms(1,2) ok(1,2) sends this]
    show ?thesis by (simp add: a Accepted id)
  next
    case (Refused polls bsy final sts st)
    have ok: "list_all waits exs" "prints (PageNumber p) ex ex'" "length polls * ?n < length ?bytes" "polls_ok polls"
      "list_all busy bsy" "final AND NOT_READY \<noteq> 0" "list_all (\<lambda>e. IsPrinting e \<and> valid e) sts"
      "\<not> IsPrinting st" "valid st" "VideoDataError st \<or> \<not> Ready st"
      using assms(6) by (simp_all add: a Refused id)
    have sends: "\<exists>b'. same_page p b' \<and> True \<and>
        runs (WriteVideoDataDefault dops (area_ops (page_underflow vio)) (pageParams p) 0)
          (\<lambda>io. (b, around (said_on w s) io))
          (size_talk 0 w i @ begin_talk (pageParams p) @ video_talk (first_blocks ?n (length polls) ?bytes) polls @
            poll_talk bsy final)
          (Inr False) (\<lambda>io. (b', around (after_size 0 (said_on w s) i) io))"
      if "same_page p b" "page.stream_content b = fst (page_id content p)" for b s
      using video_link.runs_write_refused [OF link that(1) src info [of s], of 0 "length polls" polls bsy final "pageParams p"]
        n assms(5) ok(3-6) that(2)
      unfolding id fst_conv talk WriteVideoDataDefault_def by metis
    have "unstopped stopToken (after_size 0 (said_on w s) i)" for s using assms(1) by simp
    note refusal = runs_refusal [OF this ok(7-10)]
    show ?thesis
      using runs_until_outcome [OF assms(1,2) ok(1,2) sends refusal] by (simp add: a Refused id)
  qed
qed

end

text \<open>All attempts of a page.\<close>

lemma aim_map: "aim (f p) (map_option f prev) reprint = f (aim p prev reprint)"
  by (simp add: aim_def split: option.split)

lemma old_page_map [simp]: "old_page (map_option f prev) reprint = old_page prev reprint"
  by (simp add: old_page_def)

lemma after_size_said_on [simp]:
  "said_on (after_size 0 w i) s = after_size 0 (said_on w s) i"
  "after_size 0 (after_size 0 w i) i = after_size 0 w i"
  "size_talk 0 (after_size 0 w i) j = []" "cachedInfo (after_size 0 w i) = Some i"
  by (simp_all add: after_size_def said_on_def size_talk_def)

context page_link
begin

definition same_pages ::
  "'s buffered_page \<Rightarrow> 's buffered_page option \<Rightarrow> 's buffered_page \<times> 's buffered_page option \<Rightarrow> bool" where
  "same_pages p prev P \<longleftrightarrow> same_page p (fst P) \<and> rel_option same_page prev (snd P)"

lemma same_pages_aim:
  assumes "same_pages p prev P"
  shows "same_page (aim p prev reprint) (aim (fst P) (snd P) reprint)"
    "old_page (snd P) reprint = old_page prev reprint"
    "same_page (aim p prev reprint) b \<Longrightarrow> same_pages p prev (replaced (snd P) reprint b P)"
  using assms by (cases P; cases "snd P"; cases prev; cases "reprint = rsPrev";
    simp add: same_pages_def aim_def old_page_def replaced_def)+

lemma runs_page:
  fixes w :: "('d, 'z) shell_scheme"
  assumes "0 < BlockSize i" and "unat (BlockSize i) + 4 \<le> 65535"
  shows "unstopped stopToken w \<Longrightarrow> same_pages p prev P \<Longrightarrow> cachedInfo w = None \<or> cachedInfo w = Some i \<Longrightarrow>
    page_plan (unat (BlockSize i)) (page_id content p) (map_option (page_id content) prev) reprint as = Some ok \<Longrightarrow>
    \<exists>P' s. same_pages p prev P' \<and> (ok \<longrightarrow> page.stream_content (fst P') = []) \<and>
      runs (forever (write_page_body dops vio stopToken) reprint) (\<lambda>io. (P, around w io))
        (page_talk (unat (BlockSize i)) (size_talk 0 w i) (page_id content p) (map_option (page_id content) prev)
          reprint as) (Inr ok) (\<lambda>io. (P', around (after_size 0 (said_on w s) i) io))"
proof (induction "as" arbitrary: reprint P w)
  case (Cons a as')
  let ?n = "unat (BlockSize i)" and ?cur = "page_id content p" and ?prev = "map_option (page_id content) prev"
  let ?loop = "forever (write_page_body dops vio stopToken)"
  note aims = same_pages_aim [OF Cons.prems(2)]
  have ok: "attempt_ok ?n (page_id content (aim p prev reprint)) a"
    using Cons.prems(4) by (simp add: aim_map split: if_splits)
  obtain b0 s where b0: "same_page (aim p prev reprint) b0" "printed a \<longrightarrow> page.stream_content b0 = []"
    and body: "runs (write_page_body dops vio stopToken reprint) (\<lambda>io. (P, around w io))
      (attempt_talk ?n (size_talk 0 w i) (page_id content (aim p prev reprint)) a)
      (Inr (case a of
         Attempt _ _ _ (Accepted _) \<Rightarrow> if old_page prev reprint then Continue rsNone else Leave True
       | Attempt _ _ _ (Refused _ _ _ _ st) \<Rightarrow>
           if VideoDataError st then Leave False else Continue (GetReprintStatus st)))
      (\<lambda>io. (replaced (snd P) reprint b0 P, around (after_size 0 (said_on w s) i) io))"
    using runs_attempt [OF Cons.prems(1) aims(1) Cons.prems(3) assms ok] unfolding aims(2) by (elim exE conjE)
  define Q where "Q = replaced (snd P) reprint b0 P"
  note b = aims(3) [OF b0(1), folded Q_def] and body = body [folded Q_def]
  have leave: "runs (?loop reprint) (\<lambda>io. (P, around w io))
      (attempt_talk ?n (size_talk 0 w i) (page_id content (aim p prev reprint)) a) (Inr x)
      (\<lambda>io. (Q, around (after_size 0 (said_on w s) i) io))"
    if "(case a of
         Attempt _ _ _ (Accepted _) \<Rightarrow> if old_page prev reprint then Continue rsNone else Leave True
       | Attempt _ _ _ (Refused _ _ _ _ st) \<Rightarrow>
           if VideoDataError st then Leave False else Continue (GetReprintStatus st)) = Leave x" for x
    by (rule runs_leave) (rule body [unfolded that])
  have go: "\<exists>P' s. same_pages p prev P' \<and> (ok \<longrightarrow> page.stream_content (fst P') = []) \<and>
      runs (?loop reprint) (\<lambda>io. (P, around w io))
        (attempt_talk ?n (size_talk 0 w i) (page_id content (aim p prev reprint)) a @
          page_talk ?n [] ?cur ?prev re as') (Inr ok) (\<lambda>io. (P', around (after_size 0 (said_on w s) i) io))"
    if cont: "(case a of
         Attempt _ _ _ (Accepted _) \<Rightarrow> if old_page prev reprint then Continue rsNone else Leave True
       | Attempt _ _ _ (Refused _ _ _ _ st) \<Rightarrow>
           if VideoDataError st then Leave False else Continue (GetReprintStatus st)) = Continue re"
      and plan: "page_plan ?n ?cur ?prev re as' = Some ok" for re
  proof -
    let ?w = "after_size 0 (said_on w s) i"
    have "unstopped stopToken ?w" "cachedInfo ?w = None \<or> cachedInfo ?w = Some i" using Cons.prems(1) by simp_all
    from Cons.IH [OF this(1) b this(2) plan] obtain P' s' where P': "same_pages p prev P'" "ok \<longrightarrow> page.stream_content (fst P') = []"
      "runs (?loop re) (\<lambda>io. (Q, around ?w io)) (page_talk ?n [] ?cur ?prev re as') (Inr ok)
        (\<lambda>io. (P', around (after_size 0 (said_on w (s @ s')) i) io))"
      by auto
    from runs_step [OF body [unfolded cont] P'(3)] P'(1,2) show ?thesis by blast
  qed
  obtain exs ex ex' out where a: "a = Attempt exs ex ex' out" by (cases a)
  show ?case
  proof (cases out)
    case (Accepted polls)
    then have "fst Q = b0" if "\<not> old_page prev reprint"
      using that aims(2) by (simp add: Q_def replaced_def)
    with Cons.prems(4) leave [of True] go [of rsNone] b b0(2) Accepted show ?thesis
      by (cases Q) (auto simp: a aim_map split: if_splits)
  next
    case (Refused polls bsy final sts st)
    with Cons.prems(4) leave [of False] go [of "GetReprintStatus st"] b show ?thesis
      by (cases Q) (auto simp: a aim_map split: if_splits)
  qed
qed simp

end

subsection \<open>Interpretations\<close>

interpretation sim_print: page_link "sim_ops respond" "\<lambda>_. True" simIn simSent simRead respond
  "area_ops (scoa_underflow memory_ops)" "scoa_ok (\<lambda>_. True) ls" memory_raster.scoa.stream_content bs
  for respond ls bs
  by (rule page_link.intro) (rule sim.responder_axioms, rule page_source.intro, unfold_locales)

lemma speaks_map [simp]: "speaks (map f xs) \<longleftrightarrow> (\<forall>x \<in> set xs. fst (f x) \<noteq> [])"
  by (auto simp: speaks_def)

lemma speaks_concat [simp]: "speaks (concat ts) \<longleftrightarrow> (\<forall>t \<in> set ts. speaks t)"
  by (auto simp: speaks_def)

lemma speaks_talks [simp]: "speaks (seq_talk cmds)" "speaks (clear_talk ex)" "speaks (wait_talk exs)"
  "speaks (ready_talk page ex ex')" "speaks (begin_talk params)" "speaks (poll_talk bsy final)"
  "speaks (video_talk blocks polls)"
  by (auto simp: seq_talk_def clear_talk_def wait_talk_def ready_talk_def begin_talk_def poll_talk_def
      video_talk_def block_talk_def)

lemma speaks_attempt [simp]: "speaks (attempt_talk n sz sheet a) \<longleftrightarrow> speaks sz"
  by (induction n sz sheet a rule: attempt_talk.induct) simp_all

lemma speaks_page [simp]: "speaks sz \<Longrightarrow> speaks (page_talk n sz cur prev reprint as)"
  by (induction "as" arbitrary: sz reprint) simp_all

abbreviation sim_shell :: "sim iostream \<Rightarrow> sim shell" where
  "sim_shell io \<equiv> \<lparr>prStream = io, cachedInfo = None, stopAfter = None, console = []\<rparr>"

subsection \<open>Properties\<close>

text \<open>
C3. Printing a page. Whatever sequence of attempts the printer makes of it, writePage holds the conversation
and returns the result of the abstract protocol: before an attempt it waits until the printer
is ready, clearing errors where they are reported, and goes online with the page number; an attempt
that is refused is followed by another one for the page the status asks for, the
previous or the current one, always with all of its bytes from the first one and under its own number and
parameters; true is returned when the current page has been accepted, false after an error in the
data. Both pages still have all their bytes afterwards.
\<close>

theorem write_page:
  assumes "responder dops dok pending sent consumed respond" and "page_source vio vok content bs"
    and "unstopped stopToken w" and "cachedInfo w = None \<or> cachedInfo w = Some i"
    and "0 < BlockSize i" and "unat (BlockSize i) + 4 \<le> 65535"
    and "page_ok vok bs page" and "\<forall>q. prev = Some q \<longrightarrow> page_ok vok bs q"
    and "page_plan (unat (BlockSize i)) (page_id content page) (map_option (page_id content) prev) rsNone as = Some ok"
  shows "\<exists>page' prev' s.
    converses dok sent consumed respond (writePage dops vio stopToken) (\<lambda>io. ((page, prev), around w io))
      (page_talk (unat (BlockSize i)) (size_talk 0 w i) (page_id content page) (map_option (page_id content) prev)
        rsNone as) (Inr ok) (\<lambda>io. ((page', prev'), around (after_size 0 (said_on w s) i) io)) \<and>
    page_id content page' = page_id content page \<and> page_ok vok bs page' \<and>
    map_option (page_id content) prev' = map_option (page_id content) prev"
proof -
  have link: "page_link dops dok pending sent consumed respond vio vok content bs"
    using assms(1,2) by (rule page_link.intro)
  note defs = page_source.same_page_def [OF assms(2)] page_link.same_pages_def [OF link]
  have "page_link.same_pages vok content bs page prev (page, prev)"
    using assms(7,8) by (cases prev) (simp_all add: defs)
  from page_link.runs_page [OF link assms(5,6,3) this assms(4,9)] obtain P' s
    where "page_link.same_pages vok content bs page prev P'"
    and "converses dok sent consumed respond (writePage dops vio stopToken) (\<lambda>io. ((page, prev), around w io))
      (page_talk (unat (BlockSize i)) (size_talk 0 w i) (page_id content page) (map_option (page_id content) prev)
        rsNone as) (Inr ok) (\<lambda>io. (P', around (after_size 0 (said_on w s) i) io))"
    unfolding writePage_def by blast
  then show ?thesis by (cases P'; cases prev; cases "snd P'") (auto simp: defs)
qed

definition rejected_status :: ExtendedStatus where
  "rejected_status = idle_status\<lparr>Basic := 2, Controller := 0x40\<rparr>"

theorem write_page_witness:
  "let i = \<lparr>DeviceId = 0, infoType = 0, VersionMajor = 1, VersionMinor = 0, BlockSize = 2, Buffers = 9\<rparr>;
       as = [Attempt [] idle_status idle_status (Refused [([], 0)] [8] 2 [] rejected_status),
             Attempt [rejected_status] idle_status idle_status (Accepted [([], 0), ([8], 0)])];
       t = page_talk 2 [x_info i] ([1, 2, 3], 0, dummyParams) None rsNone as
   in \<exists>P' w'. writePage (sim_ops (respond_of t)) memory_ops NoSource
         ((newBufferedPage 0 dummyParams (Some [1, 2, 3]) 4096, None), sim_shell new_sim) = (Inr True, (P', w')) \<and>
       simSent (isDev (prStream w')) = said t"
proof -
  let ?i = "\<lparr>DeviceId = 0, infoType = 0, VersionMajor = 1, VersionMinor = 0, BlockSize = 2, Buffers = 9\<rparr>"
  let ?as = "[Attempt [] idle_status idle_status (Refused [([], 0)] [8] 2 [] rejected_status),
    Attempt [rejected_status] idle_status idle_status (Accepted [([], 0), ([8], 0)])]"
  let ?t = "page_talk 2 [x_info ?i] ([1, 2, 3], 0, dummyParams) None rsNone ?as"
  let ?page = "newBufferedPage 0 dummyParams (Some [1, 2, 3]) 4096"
  have blocks: "length (blocks_of 2 [1, 2, 3 :: byte]) = 2" by (simp add: blocks_of_def)
  have id: "page_id (\<lambda>s. s) ?page = ([1, 2, 3], 0, dummyParams)" "page_ok (\<lambda>_. True) 4096 ?page"
    by (simp_all add: page_id_def page_whole_def page_rest_def newBufferedPage_def page_ok_def)
  have "page_plan 2 ([1, 2, 3], 0, dummyParams) None rsNone ?as = Some True"
    by (simp add: aim_def old_page_def blocks prints_def valid_def waits_def Ready_def Online_def IsPrinting_def
        VideoDataError_def ClearErrorNeeded_def Rejected_def UnitReserved_def engine_flag_def polls_ok_def busy_def
        accepts_def rejected_status_def idle_status_def status_flags)
  then obtain P' s where "converses (\<lambda>_. True) simSent simRead (respond_of ?t)
      (writePage (sim_ops (respond_of ?t)) memory_ops NoSource) (\<lambda>io. ((?page, None), sim_shell io)) ?t (Inr True)
      (\<lambda>io. (P', around (after_size 0 (said_on (sim_shell new_sim) s) ?i) io))"
    using write_page [OF sim.responder_axioms [of "respond_of ?t"] memory_page.page_source_axioms,
      where bs = 4096 and page = ?page and prev = None and w = "sim_shell new_sim" and i = ?i and stopToken = NoSource and as = ?as
        and ok = True]
    by (auto simp: id unstopped_def size_talk_def simp del: page_plan.simps page_talk.simps)
  from sim_run [OF this] show ?thesis by (auto simp: Let_def simp del: page_talk.simps)
qed

end
