(* ===== verification/Print_File.thy ===== *)
theory Print_File
  imports Print_Pbm
begin

text \<open>
  The whole program \<^verbatim>\<open>examples/printpbm.cpp\<close>: the conversation of waiting for the last page and of
  printing all pages of a file.

  The pages of the program compress the raster straight from the buffer of the file. \<open>raster_ok\<close>
  adds to the contract of the compressing stream what is in the file behind the page, so that after
  a page has been sent the next header is read at the right place.
\<close>

subsection \<open>The raster of a page in the file\<close>

text \<open>What is in the file behind the lines of the page that have not been read yet.\<close>

definition raster_ok :: "nat \<Rightarrow> byte list \<Rightarrow> byte list scoa_streambuf \<Rightarrow> bool" where
  "raster_ok ls after b \<longleftrightarrow> scoa_ok (\<lambda>_. True) ls b \<and>
    (\<exists>r. rasterStream b = Some r \<and> linesRemain b * ls \<le> length r \<and> drop (linesRemain b * ls) r = after)"

lemma underflow_raster:
  assumes "raster_ok ls after b" and "scoa_underflow memory_ops b = Inr (c, b')" and "scoa_ok (\<lambda>_. True) ls b'"
  shows "raster_ok ls after b'"
proof -
  obtain r where r: "rasterStream b = Some r" "length (sCurrLine b) = ls" "1 \<le> ls"
    "linesRemain b * ls \<le> length r" "drop (linesRemain b * ls) r = after"
    using assms(1) by (auto simp: raster_ok_def scoa_ok_def)
  consider "b' = b" | n where "linesRemain b = Suc n" "linesRemain b' = n" "rasterStream b' = Some (drop ls r)"
    using assms(2) r(1-4)
    by (cases "linesRemain b")
      (auto simp: scoa_underflow_def memory_sgetn Let_def elim!: bindR_eq_InrE split: if_splits)
  then show ?thesis
  proof cases
    case 2
    then have "drop (n * ls) (drop ls r) = after" "n * ls \<le> length (drop ls r)"
      using r(4,5) by (simp_all add: add.commute)
    with 2 assms(3) show ?thesis by (simp add: raster_ok_def)
  qed (use assms(1) in simp)
qed

interpretation file_raster: underflow_class "scoa_underflow memory_ops" "raster_ok ls after" "scoa_rest (\<lambda>s. s)"
  for ls after
proof unfold_locales
  show "raster_ok ls after (b\<lparr>gpos := Suc (gpos b)\<rparr>)" if "raster_ok ls after b" for b
    using that by (simp add: raster_ok_def scoa_ok_def)
  show "scoa_rest (\<lambda>s. s) (b\<lparr>gpos := p\<rparr>) = scoa_rest (\<lambda>s. s) b" for b :: "byte list scoa_streambuf" and p
    by (rule memory_raster.scoa.rest_gpos)
  fix b :: "byte list scoa_streambuf"
  assume b: "raster_ok ls after b" "\<not> gpos b < length (gdata b)"
  then obtain b' where "scoa_underflow memory_ops b = Inr (hd_opt (scoa_rest (\<lambda>s. s) b), b')"
    "scoa_ok (\<lambda>_. True) ls b'" "drop (gpos b') (gdata b') @ scoa_rest (\<lambda>s. s) b' = scoa_rest (\<lambda>s. s) b"
    "scoa_rest (\<lambda>s. s) b \<noteq> [] \<longrightarrow> gpos b' < length (gdata b')"
    using memory_raster.scoa.refill [of ls b] by (auto simp: raster_ok_def)
  with underflow_raster [OF b(1)]
  show "\<exists>b'. scoa_underflow memory_ops b = Inr (hd_opt (scoa_rest (\<lambda>s. s) b), b') \<and> raster_ok ls after b' \<and>
      drop (gpos b') (gdata b') @ scoa_rest (\<lambda>s. s) b' = scoa_rest (\<lambda>s. s) b \<and>
      (scoa_rest (\<lambda>s. s) b \<noteq> [] \<longrightarrow> gpos b' < length (gdata b'))"
    by blast
qed

abbreviation page_stream :: "byte list scoa_streambuf streambuf_ops" where
  "page_stream \<equiv> area_ops (scoa_underflow memory_ops)"

abbreviation page_stream_content :: "byte list scoa_streambuf \<Rightarrow> byte list" where
  "page_stream_content \<equiv> memory_raster.scoa.stream_content"

interpretation file_page: page_source page_stream "raster_ok ls after" page_stream_content bs for ls after bs
  by (rule page_source.intro) unfold_locales

abbreviation page_bytes_of :: "pbm_page \<Rightarrow> sheet" where
  "page_bytes_of \<equiv> page_id page_stream_content"

text \<open>A new page of the file, and what is left of the file when it has been read.\<close>

definition sheet_of :: "nat \<Rightarrow> PageParams \<Rightarrow> byte list \<Rightarrow> sheet" where
  "sheet_of page params raster =
    (encode_lines (unat (ImageLines params)) (unat (ImageLineSize params)) 0 [] raster, page, params)"

definition new_page :: "nat \<Rightarrow> PageParams \<Rightarrow> byte list \<Rightarrow> pbm_page" where
  "new_page page params bytes = newBufferedPage page params
    (Some (newScoaStreambuf bytes (unat (ImageLineSize params)) (unat (ImageLines params)))) 4096"

lemma new_page_fits:
  assumes "ImageLineSize params \<noteq> 0" and "length raster = unat (ImageLines params) * unat (ImageLineSize params)"
  shows "page_ok (raster_ok (unat (ImageLineSize params)) after) 4096 (new_page page params (raster @ after))"
    and "page_bytes_of (new_page page params (raster @ after)) = sheet_of page params raster"
proof -
  have ls: "1 \<le> unat (ImageLineSize params)" "unat (ImageLineSize params) < 2 ^ 32"
    using assms(1) unat_u16_less [of "ImageLineSize params"] by (simp_all add: Suc_le_eq unat_gt_0)
  then show "page_ok (raster_ok (unat (ImageLineSize params)) after) 4096 (new_page page params (raster @ after))"
    using assms(2) newScoaStreambuf_ok [of "\<lambda>_. True"]
    by (simp add: new_page_def page_ok_def newBufferedPage_def raster_ok_def newScoaStreambuf_ok) (simp add: newScoaStreambuf_def)
  show "page_bytes_of (new_page page params (raster @ after)) = sheet_of page params raster"
    using memory_raster.newScoaStreambuf_content [of "raster @ after" "unat (ImageLineSize params)"] assms(2)
    by (simp add: page_id_def page_whole_def page_rest_def new_page_def newBufferedPage_def sheet_of_def
        encode_lines_prefix)
qed

lemma encode_lines_Nil: "0 < ls \<Longrightarrow> ls < 2 ^ 32 \<Longrightarrow> n * ls \<le> length raster \<Longrightarrow> vs = 0 \<or> length prev = ls \<Longrightarrow>
    encode_lines n ls vs prev raster = [] \<Longrightarrow> n = 0"
proof (cases n)
  case (Suc m)
  assume a: "0 < ls" "ls < 2 ^ 32" "n * ls \<le> length raster" "vs = 0 \<or> length prev = ls"
    "encode_lines n ls vs prev raster = []"
  let ?ln = "take ls raster" and ?prev = "if vs = 0 then [] else prev"
  have "?ln \<noteq> []" "length ?ln = ls" "prev_fits ?prev ?ln" "length ?ln < 2 ^ 32" using a Suc by (auto simp: prev_fits_def)
  then have "line_code ?prev ?ln \<noteq> []" using line_code_bounds [of ?ln ?prev] by auto
  with a Suc show ?thesis by (simp add: Let_def)
qed simp

lemma raster_left_read:
  assumes "page_ok (raster_ok ls after) bs p" and "file_page.page.stream_content p = []" and "bpVideo p \<noteq> None"
  shows "raster_left p = after"
proof -
  obtain b where b: "bpVideo p = Some b" "raster_ok ls after b" "page_stream_content b = []"
    using assms by (auto simp: page_ok_def file_page.page.stream_content_def page_rest_def)
  then have rest: "scoa_rest (\<lambda>s. s) b = []" by (simp add: memory_raster.scoa.stream_content_def)
  obtain r where r: "rasterStream b = Some r" "linesRemain b * ls \<le> length r" "drop (linesRemain b * ls) r = after"
    and ls: "length (sCurrLine b) = ls" "0 < ls" "ls < 2 ^ 32" "sVideoSize b = 0 \<or> length (sPrevLine b) = ls"
    using b(2) by (auto simp: raster_ok_def scoa_ok_def)
  have "linesRemain b = 0"
    using encode_lines_Nil [OF ls(2,3) r(2) ls(4)] rest r(1) ls(1) by (simp add: scoa_rest_def)
  with b(1) r show ?thesis by (simp add: raster_left_def)
qed

subsection \<open>Waiting for the last page\<close>

text \<open>
  The abstract protocol after the last page: the printer prints, reports how it ended, and the
  page is printed again, by the protocol of a page, until it has been printed.
\<close>

fun last_plan :: "nat \<Rightarrow> sheet \<Rightarrow> (ExtendedStatus list \<times> ExtendedStatus \<times> attempt list) list \<Rightarrow> bool option" where
  "last_plan n cur [] = None"
| "last_plan n cur ((sts, st, as) # rounds) =
    (if \<not> (list_all (\<lambda>e. IsPrinting e \<and> valid e) sts \<and> \<not> IsPrinting st \<and> valid st) then None
     else if VideoDataError st then if as = [] \<and> rounds = [] then Some False else None
     else if GetReprintStatus st = rsNone then if as = [] \<and> rounds = [] then Some True else None
     else case page_plan n cur None rsNone as of
       None \<Rightarrow> None
     | Some False \<Rightarrow> if rounds = [] then Some False else None
     | Some True \<Rightarrow> last_plan n cur rounds)"

fun last_talk :: "nat \<Rightarrow> sheet \<Rightarrow> (ExtendedStatus list \<times> ExtendedStatus \<times> attempt list) list \<Rightarrow> exchange list" where
  "last_talk n cur [] = []"
| "last_talk n cur ((sts, st, as) # rounds) =
    map x_status sts @ [x_status st] @ page_talk n [] cur None rsNone as @ last_talk n cur rounds"

context responder
begin

lemma runs_alone:
  assumes "runs m (\<lambda>io. ((p, None), a io)) t r (\<lambda>io. ((p', q), b io))"
  shows "runs (alone m) (\<lambda>io. (p, a io)) t r (\<lambda>io. (p', b io))"
proof (rule runsI)
  fix W io assume "quiet io W" "follows respond W t"
  with assms obtain io' where "m ((p, None), a io) = (r, ((p', q), b io'))" "quiet io' (W @ said t)"
    by (blast elim: runsE)
  then show "\<exists>io'. alone m (p, a io) = (r, (p', b io')) \<and> quiet io' (W @ said t)"
    by (auto simp: alone_def)
qed

end

context page_link
begin

lemma runs_last_round:
  fixes w :: "('d, 'z) shell_scheme"
  assumes "unstopped stopToken w" and "list_all (\<lambda>e. IsPrinting e \<and> valid e) sts"
    and "\<not> IsPrinting st" and "valid st"
    and "runs (if VideoDataError st then ret (Leave False)
       else if GetReprintStatus st = rsNone then ret (Leave True)
       else bnd (alone (writePage dops vio stopToken)) (\<lambda>ok. if \<not> ok then ret (Leave False) else ret (Continue ())))
      (\<lambda>io. (b, around w io)) t r (\<lambda>io. (b', around w' io))"
  shows "runs (last_page_body dops vio stopToken ()) (\<lambda>io. (b, around w io))
    (map x_status sts @ [x_status st] @ t) r (\<lambda>io. (b', around w' io))"
proof -
  have "runs (last_page_body dops vio stopToken ()) (\<lambda>io. (b, around w io))
      ((map x_status sts @ [x_status st]) @ t) r (\<lambda>io. (b', around w' io))"
    unfolding last_page_body_def
    apply (rule runs_bnd [OF runs_lift [OF runs_stop [OF assms(1)]] _ append_Nil [symmetric]])
    apply (simp only: if_False)
    apply (rule runs_bnd [OF runs_lift [OF runs_print_end [OF assms(1-4)]] _ refl])
    using assms(5) by simp
  then show ?thesis by simp
qed

lemma runs_last_page:
  fixes w :: "('d, 'z) shell_scheme"
  assumes "0 < BlockSize i" and "unat (BlockSize i) + 4 \<le> 65535"
  shows "unstopped stopToken w \<Longrightarrow> same_page p b \<Longrightarrow> cachedInfo w = Some i \<Longrightarrow>
    last_plan (unat (BlockSize i)) (page_id content p) rounds = Some ok \<Longrightarrow>
    \<exists>b' s. same_page p b' \<and>
      runs (waitLastPage dops vio stopToken) (\<lambda>io. (b, around w io))
        (last_talk (unat (BlockSize i)) (page_id content p) rounds) (Inr ok) (\<lambda>io. (b', around (said_on w s) io))"
proof (induction rounds arbitrary: b w)
  case (Cons round rounds)
  let ?n = "unat (BlockSize i)" and ?cur = "page_id content p"
  let ?body = "last_page_body dops vio stopToken"
  obtain sts st as' where round: "round = (sts, st, as')" by (cases round)
  have st: "list_all (\<lambda>e. IsPrinting e \<and> valid e) sts" "\<not> IsPrinting st" "valid st"
    using Cons.prems(4) by (simp_all add: round split: if_splits)
  note body = runs_last_round [OF Cons.prems(1) st]
  show ?case
  proof (cases "VideoDataError st \<or> GetReprintStatus st = rsNone")
    case True
    then have ok: "ok = (\<not> VideoDataError st)" "as' = []" "rounds = []"
      using Cons.prems(4) st by (auto simp: round split: if_splits)
    have "runs (?body ()) (\<lambda>io. (b, around w io)) (map x_status sts @ [x_status st] @ []) (Inr (Leave ok))
        (\<lambda>io. (b, around w io))"
      by (rule body) (use True ok in \<open>cases "VideoDataError st"; simp add: runs_ret\<close>)
    then have "runs (forever ?body ()) (\<lambda>io. (b, around w io)) (map x_status sts @ [x_status st] @ []) (Inr ok)
        (\<lambda>io. (b, around w io))"
      by (rule runs_leave)
    with Cons.prems(2) ok show ?thesis
      unfolding waitLastPage_def by (intro exI [of _ b] exI [of _ "[]"]) (simp add: round)
  next
    case False
    then obtain ok' where ok': "page_plan ?n ?cur None rsNone as' = Some ok'"
      using Cons.prems(4) st by (auto simp: round split: option.splits)
    have "same_pages p None (b, None)" using Cons.prems(2) by (simp add: same_pages_def)
    moreover have "size_talk 0 w i = []" "after_size 0 (said_on w s) i = said_on w s" for s
      using Cons.prems(3) by (simp_all add: size_talk_def after_size_def said_on_def)
    ultimately obtain P' s where P': "same_pages p None P'"
      "runs (writePage dops vio stopToken) (\<lambda>io. ((b, None), around w io)) (page_talk ?n [] ?cur None rsNone as')
        (Inr ok') (\<lambda>io. (P', around (said_on w s) io))"
      using runs_page [OF assms Cons.prems(1), of p None "(b, None)" rsNone as' ok'] Cons.prems(3) ok'
      unfolding writePage_def by auto
    obtain b1 q where b1: "P' = (b1, q)" by (cases P')
    have wr: "runs (alone (writePage dops vio stopToken)) (\<lambda>io. (b, around w io)) (page_talk ?n [] ?cur None rsNone as')
        (Inr ok') (\<lambda>io. (b1, around (said_on w s) io))"
      by (rule runs_alone) (use P'(2) b1 in simp)
    have same: "same_page p b1" using P'(1) b1 by (simp add: same_pages_def)
    have step: "runs (?body ()) (\<lambda>io. (b, around w io))
        (map x_status sts @ [x_status st] @ page_talk ?n [] ?cur None rsNone as')
        (Inr (if ok' then Continue () else Leave False)) (\<lambda>io. (b1, around (said_on w s) io))"
    proof (rule body)
      show "runs (if VideoDataError st then ret (Leave False)
         else if GetReprintStatus st = rsNone then ret (Leave True)
         else bnd (alone (writePage dops vio stopToken)) (\<lambda>ok. if \<not> ok then ret (Leave False) else ret (Continue ())))
        (\<lambda>io. (b, around w io)) (page_talk ?n [] ?cur None rsNone as')
        (Inr (if ok' then Continue () else Leave False)) (\<lambda>io. (b1, around (said_on w s) io))"
        using False by (cases ok'; simp) (rule runs_bnd [OF wr _ append_Nil2 [symmetric]], simp add: runs_ret)+
    qed
    show ?thesis
    proof (cases ok')
      case True
      have "last_plan ?n ?cur rounds = Some ok"
        using Cons.prems(4) st False ok' True by (auto simp: round)
      from Cons.IH [OF _ same _ this, of "said_on w s"] Cons.prems(1,3) obtain b' s' where b': "same_page p b'"
        "runs (forever ?body ()) (\<lambda>io. (b1, around (said_on w s) io)) (last_talk ?n ?cur rounds) (Inr ok)
          (\<lambda>io. (b', around (said_on w (s @ s')) io))"
        unfolding waitLastPage_def by auto
      have "(if ok' then Continue () else Leave False) = Continue ()" using True by simp
      note step' = step [unfolded this]
      have "runs (forever ?body ()) (\<lambda>io. (b, around w io)) (last_talk ?n ?cur (round # rounds)) (Inr ok)
          (\<lambda>io. (b', around (said_on w (s @ s')) io))"
        by (rule runs_step [OF step' b'(2)]) (simp_all add: round)
      with b'(1) show ?thesis unfolding waitLastPage_def by blast
    next
      case no: False
      have "rounds = []" "\<not> ok"
        using Cons.prems(4) st False ok' no by (auto simp: round split: if_splits)
      moreover have "runs (forever ?body ()) (\<lambda>io. (b, around w io))
          (map x_status sts @ [x_status st] @ page_talk ?n [] ?cur None rsNone as') (Inr False)
          (\<lambda>io. (b1, around (said_on w s) io))"
        by (rule runs_leave) (use step no in simp)
      ultimately show ?thesis
        using same unfolding waitLastPage_def by (intro exI [of _ b1] exI [of _ s]) (simp add: round)
    qed
  qed
qed simp

end

subsection \<open>The pages of a file\<close>

text \<open>A page of the file with what the printer makes of it: header, parameters, raster, attempts.\<close>

type_synonym job = "byte list \<times> PageParams \<times> byte list \<times> attempt list"

definition reads_header :: "byte list \<Rightarrow> PageParams \<Rightarrow> bool" where
  "reads_header header params \<longleftrightarrow> (\<forall>st rest. is_good st \<and> inBytes st = header @ rest \<longrightarrow>
    ReadHeader st = (Inr (Some params), st\<lparr>inBytes := rest\<rparr>))"

fun job_ok :: "job \<Rightarrow> bool" where
  "job_ok (header, params, raster, as) \<longleftrightarrow> reads_header header params \<and> ImageLineSize params \<noteq> 0 \<and>
    length raster = unat (ImageLines params) * unat (ImageLineSize params)"

fun file_bytes :: "job list \<Rightarrow> byte list" where
  "file_bytes [] = []"
| "file_bytes ((header, params, raster, as) # jobs) = header @ raster @ file_bytes jobs"

fun pages_plan :: "nat \<Rightarrow> nat \<Rightarrow> sheet option \<Rightarrow> job list \<Rightarrow> bool option" where
  "pages_plan n page prev [] = Some True"
| "pages_plan n page prev ((header, params, raster, as) # jobs) =
    (case page_plan n (sheet_of page params raster) prev rsNone as of
       None \<Rightarrow> None
     | Some False \<Rightarrow> if jobs = [] then Some False else None
     | Some True \<Rightarrow> pages_plan n (Suc page) (Some (sheet_of page params raster)) jobs)"

fun pages_talk :: "nat \<Rightarrow> exchange list \<Rightarrow> nat \<Rightarrow> sheet option \<Rightarrow> job list \<Rightarrow> exchange list" where
  "pages_talk n sz page prev [] = []"
| "pages_talk n sz page prev ((header, params, raster, as) # jobs) =
    page_talk n sz (sheet_of page params raster) prev rsNone as @
    pages_talk n [] (Suc page) (Some (sheet_of page params raster)) jobs"

fun last_sheet :: "nat \<Rightarrow> sheet option \<Rightarrow> job list \<Rightarrow> sheet option" where
  "last_sheet page prev [] = prev"
| "last_sheet page prev ((header, params, raster, as) # jobs) =
    last_sheet (Suc page) (Some (sheet_of page params raster)) jobs"

text \<open>A page that has been moved: it has its bytes and no stream.\<close>

definition moved :: "pbm_page \<Rightarrow> bool" where
  "moved p \<longleftrightarrow> bpVideo p = None \<and> bpBlockSize p = 4096 \<and> gdata p = bpBuffer p \<and> gpos p \<le> length (gdata p)"

lemma moved_page_ok: "moved p \<Longrightarrow> page_ok ok 4096 p"
  by (auto simp: moved_def page_ok_def)

lemma moved_assign:
  assumes "moved this" and "page_ok ok bs other" and "file_page.page.stream_content other = []"
  shows "moved (fst (page_move_assign this other))"
    and "page_bytes_of (fst (page_move_assign this other)) = page_bytes_of other"
  using assms
  by (auto simp: moved_def page_move_assign_def page_ok_def page_id_def page_whole_def page_rest_def
      file_page.page.stream_content_def)

context responder
begin

lemma file_link: "page_link dops dok pending sent consumed respond page_stream (raster_ok ls after) page_stream_content 4096"
  by (rule page_link.intro [OF responder_axioms file_page.page_source_axioms])

lemma runs_next_page:
  fixes w :: "('d, 'z) shell_scheme"
  assumes "0 < BlockSize i" and "unat (BlockSize i) + 4 \<le> 65535" and "unstopped stopToken w"
    and "cachedInfo w = None \<or> cachedInfo w = Some i"
    and "ImageLineSize params \<noteq> 0" and "length raster = unat (ImageLines params) * unat (ImageLineSize params)"
    and "inBytes pbm = raster @ after" and "moved prevPage"
    and "page_plan (unat (BlockSize i)) (sheet_of page params raster)
      (if page = 0 then None else Some (page_bytes_of prevPage)) rsNone as = Some ok"
  shows "\<exists>prevPage' pbm' s.
    runs (write_next_page dops stopToken page params prevPage) (\<lambda>io. (pbm, around w io))
      (page_talk (unat (BlockSize i)) (size_talk 0 w i) (sheet_of page params raster)
        (if page = 0 then None else Some (page_bytes_of prevPage)) rsNone as)
      (Inr (ok, prevPage')) (\<lambda>io. (pbm', around (after_size 0 (said_on w s) i) io)) \<and>
    (ok \<longrightarrow> moved prevPage' \<and> page_bytes_of prevPage' = sheet_of page params raster \<and> pbm' = pbm\<lparr>inBytes := after\<rparr>)"
proof -
  let ?page = "new_page page params (raster @ after)" and ?prev = "if page = 0 then None else Some prevPage"
  let ?ok = "raster_ok (unat (ImageLineSize params)) after"
  note page = new_page_fits [OF assms(5,6), where after = after and page = page]
  note defs = page_source.same_page_def [OF file_page.page_source_axioms]
  note link = file_link [where ls = "unat (ImageLineSize params)" and after = after]
  have start: "page_link.same_pages ?ok page_stream_content 4096 ?page ?prev (?page, ?prev)"
    using page(1) moved_page_ok [OF assms(8), of ?ok]
    by (simp add: page_link.same_pages_def [OF link] defs)
  have prev: "map_option page_bytes_of ?prev = (if page = 0 then None else Some (page_bytes_of prevPage))" by simp
  have plan: "page_plan (unat (BlockSize i)) (page_bytes_of ?page) (map_option page_bytes_of ?prev) rsNone as = Some ok"
    unfolding page(2) prev by (rule assms(9))
  from page_link.runs_page [OF link assms(1,2,3) start assms(4) plan]
  obtain P' s where P': "page_link.same_pages ?ok page_stream_content 4096 ?page ?prev P'"
    "ok \<longrightarrow> file_page.page.stream_content (fst P') = []"
    and runs: "runs (writePage dops page_stream stopToken) (\<lambda>io. ((?page, ?prev), around w io))
      (page_talk (unat (BlockSize i)) (size_talk 0 w i) (sheet_of page params raster)
        (if page = 0 then None else Some (page_bytes_of prevPage)) rsNone as) (Inr ok)
      (\<lambda>io. (P', around (after_size 0 (said_on w s) i) io))"
    unfolding page(2) prev writePage_def by blast
  obtain curr prev where P: "P' = (curr, prev)" by (cases P')
  let ?target = "case prev of None \<Rightarrow> prevPage | Some q \<Rightarrow> q"
  have curr: "page_ok ?ok 4096 curr" "page_bytes_of curr = sheet_of page params raster" "bpVideo curr \<noteq> None"
    and target: "moved ?target"
    using P'(1) page(2) assms(8)
    by (cases "page = 0"; cases prev;
      auto simp: P page_link.same_pages_def [OF link] defs new_page_def newBufferedPage_def moved_def page_ok_def)+
  have "moved (fst (page_move_assign ?target curr)) \<and>
      page_bytes_of (fst (page_move_assign ?target curr)) = sheet_of page params raster \<and>
      pbm\<lparr>inBytes := raster_left curr\<rparr> = pbm\<lparr>inBytes := after\<rparr>" if ok
    using raster_left_read [OF curr(1) _ curr(3)] moved_assign [OF target curr(1)] P'(2) that P curr(2) by simp
  moreover have "runs (write_next_page dops stopToken page params prevPage) (\<lambda>io. (pbm, around w io))
      (page_talk (unat (BlockSize i)) (size_talk 0 w i) (sheet_of page params raster)
        (if page = 0 then None else Some (page_bytes_of prevPage)) rsNone as)
      (Inr (ok, fst (page_move_assign ?target curr)))
      (\<lambda>io. (pbm\<lparr>inBytes := raster_left curr\<rparr>, around (after_size 0 (said_on w s) i) io))"
  proof (rule runsI)
    fix W io assume "quiet io W" "follows respond W (page_talk (unat (BlockSize i)) (size_talk 0 w i)
      (sheet_of page params raster) (if page = 0 then None else Some (page_bytes_of prevPage)) rsNone as)"
    with runs obtain io' where "writePage dops page_stream stopToken ((?page, ?prev), around w io) =
        (Inr ok, (P', around (after_size 0 (said_on w s) i) io'))"
      "quiet io' (W @ said (page_talk (unat (BlockSize i)) (size_talk 0 w i)
        (sheet_of page params raster) (if page = 0 then None else Some (page_bytes_of prevPage)) rsNone as))"
      by (blast elim: runsE)
    then show "\<exists>io'. write_next_page dops stopToken page params prevPage (pbm, around w io) =
        (Inr (ok, fst (page_move_assign ?target curr)),
         (pbm\<lparr>inBytes := raster_left curr\<rparr>, around (after_size 0 (said_on w s) i) io')) \<and>
        quiet io' (W @ said (page_talk (unat (BlockSize i)) (size_talk 0 w i)
          (sheet_of page params raster) (if page = 0 then None else Some (page_bytes_of prevPage)) rsNone as))"
      using assms(7) P by (auto simp: write_next_page_def new_page_def Let_def)
  qed
  ultimately show ?thesis by blast
qed

end

context responder
begin

lemma runs_header:
  assumes "reads_header header params" and "is_good pbm" and "inBytes pbm = header @ rest"
  shows "runs (\<lambda>(pbm, w). case ReadHeader pbm of (r, pbm') \<Rightarrow> (r, (pbm', w))) (\<lambda>io. (pbm, a io)) []
    (Inr (Some params)) (\<lambda>io. (pbm\<lparr>inBytes := rest\<rparr>, a io))"
  by (rule runs_pure) (use assms in \<open>simp add: reads_header_def\<close>)

lemma runs_no_header:
  assumes "is_good pbm" and "inBytes pbm = []"
  shows "\<exists>pbm'. runs (\<lambda>(pbm, w). case ReadHeader pbm of (r, pbm') \<Rightarrow> (r, (pbm', w))) (\<lambda>io. (pbm, a io)) []
    (Inr None) (\<lambda>io. (pbm', a io))"
  by (intro exI, rule runs_pure)
    (use assms in \<open>simp add: ReadHeader_def readPbmHeader_def bnd_def in_read_def is_good_def in_eof_def ret_def\<close>)

lemma runs_one_job:
  fixes w :: "('d, 'z) shell_scheme"
  assumes "0 < BlockSize i" and "unat (BlockSize i) + 4 \<le> 65535" and "unstopped stopToken w"
    and "cachedInfo w = None \<or> cachedInfo w = Some i"
    and "job_ok (header, params, raster, as)" and "is_good pbm" and "inBytes pbm = header @ raster @ after"
    and "moved prevPage"
    and "page_plan (unat (BlockSize i)) (sheet_of page params raster)
      (if page = 0 then None else Some (page_bytes_of prevPage)) rsNone as = Some ok"
  shows "\<exists>prevPage' pbm' s.
    runs (main_body dops stopToken (page, prevPage)) (\<lambda>io. (pbm, around w io))
      (page_talk (unat (BlockSize i)) (size_talk 0 w i) (sheet_of page params raster)
        (if page = 0 then None else Some (page_bytes_of prevPage)) rsNone as)
      (Inr (if ok then Continue (Suc page, prevPage') else Leave None))
      (\<lambda>io. (pbm', around (after_size 0 (said_on w s) i) io)) \<and>
    (ok \<longrightarrow> moved prevPage' \<and> page_bytes_of prevPage' = sheet_of page params raster \<and> pbm' = pbm\<lparr>inBytes := after\<rparr>)"
proof -
  have job: "reads_header header params" "ImageLineSize params \<noteq> 0"
    "length raster = unat (ImageLines params) * unat (ImageLineSize params)"
    using assms(5) by simp_all
  let ?pbm = "pbm\<lparr>inBytes := raster @ after\<rparr>"
  obtain prevPage' pbm' s where wr: "runs (write_next_page dops stopToken page params prevPage)
      (\<lambda>io. (?pbm, around w io))
      (page_talk (unat (BlockSize i)) (size_talk 0 w i) (sheet_of page params raster)
        (if page = 0 then None else Some (page_bytes_of prevPage)) rsNone as)
      (Inr (ok, prevPage')) (\<lambda>io. (pbm', around (after_size 0 (said_on w s) i) io))"
    and ok: "ok \<longrightarrow> moved prevPage' \<and> page_bytes_of prevPage' = sheet_of page params raster \<and> pbm' = pbm\<lparr>inBytes := after\<rparr>"
    using runs_next_page [OF assms(1-4) job(2,3) _ assms(8,9), of ?pbm after] by auto
  let ?w = "\<lambda>u. after_size 0 (said_on w u) i"
  let ?msg = "if ok then [] else ''Error: WritePage failed'' @ [CHR 0x0A]"
  have tail: "runs (if \<not> fst (ok, prevPage')
        then andthen (lift (put (''Error: WritePage failed'' @ [CHR 0x0A]))) (ret (Leave None))
        else ret (Continue (page + 1, snd (ok, prevPage'))))
      (\<lambda>io. (pbm', around (?w s) io)) [] (Inr (if ok then Continue (Suc page, prevPage') else Leave None))
      (\<lambda>io. (pbm', around (?w (s @ ?msg)) io))"
  proof (cases ok)
    case False
    have "runs (andthen (lift (put (''Error: WritePage failed'' @ [CHR 0x0A]))) (ret (Leave None)))
        (\<lambda>io. (pbm', around (?w s) io)) [] (Inr (Leave None))
        (\<lambda>io. (pbm', around (said_on (?w s) (''Error: WritePage failed'' @ [CHR 0x0A])) io))"
      by (rule runs_andthen [OF runs_lift [OF runs_put] runs_ret append_Nil [symmetric]])
    with False show ?thesis by simp
  qed (simp add: runs_ret)
  have "runs (main_body dops stopToken (page, prevPage)) (\<lambda>io. (pbm, around w io))
      (page_talk (unat (BlockSize i)) (size_talk 0 w i) (sheet_of page params raster)
        (if page = 0 then None else Some (page_bytes_of prevPage)) rsNone as)
      (Inr (if ok then Continue (Suc page, prevPage') else Leave None))
      (\<lambda>io. (pbm', around (?w (s @ ?msg)) io))"
    unfolding main_body_def
    apply (rule runs_bnd [OF runs_lift [OF runs_stop [OF assms(3)]] _ append_Nil [symmetric]])
    apply (simp only: if_False)
    apply (rule runs_bnd [OF runs_header [OF job(1) assms(6,7)] _ append_Nil [symmetric]])
    apply (simp only: option.case fst_conv snd_conv)
    apply (rule runs_bnd [OF wr _ append_Nil2 [symmetric]])
    by (rule tail)
  from conjI [OF this ok] show ?thesis by (intro exI)
qed

lemma runs_pages:
  fixes w :: "('d, 'z) shell_scheme"
  assumes "0 < BlockSize i" and "unat (BlockSize i) + 4 \<le> 65535"
  shows "unstopped stopToken w \<Longrightarrow> cachedInfo w = None \<or> cachedInfo w = Some i \<Longrightarrow>
    list_all job_ok jobs \<Longrightarrow> is_good pbm \<Longrightarrow> inBytes pbm = file_bytes jobs \<Longrightarrow> moved prevPage \<Longrightarrow>
    pages_plan (unat (BlockSize i)) page (if page = 0 then None else Some (page_bytes_of prevPage)) jobs = Some ok \<Longrightarrow>
    \<exists>prevPage' pbm' w'.
      runs (forever (main_body dops stopToken) (page, prevPage)) (\<lambda>io. (pbm, around w io))
        (pages_talk (unat (BlockSize i)) (size_talk 0 w i) page
          (if page = 0 then None else Some (page_bytes_of prevPage)) jobs)
        (Inr (if ok then Some (page + length jobs, prevPage') else None)) (\<lambda>io. (pbm', around w' io)) \<and>
      (\<exists>s. w' = (if jobs = [] then w else after_size 0 (said_on w s) i)) \<and>
      (ok \<longrightarrow> moved prevPage' \<and> last_sheet page (if page = 0 then None else Some (page_bytes_of prevPage)) jobs =
        (if page + length jobs = 0 then None else Some (page_bytes_of prevPage')))"
proof (induction jobs arbitrary: page prevPage pbm w)
  case Nil
  obtain pbm' where header: "runs (\<lambda>(pbm, w). case ReadHeader pbm of (r, pbm') \<Rightarrow> (r, (pbm', w)))
      (\<lambda>io. (pbm, around w io)) [] (Inr None) (\<lambda>io. (pbm', around w io))"
    using runs_no_header [of pbm "around w"] Nil.prems(4,5) by auto
  have "runs (main_body dops stopToken (page, prevPage)) (\<lambda>io. (pbm, around w io)) []
      (Inr (Leave (Some (page, prevPage)))) (\<lambda>io. (pbm', around w io))"
    unfolding main_body_def
    apply (rule runs_bnd [OF runs_lift [OF runs_stop [OF Nil.prems(1)]] _ append_Nil [symmetric]])
    apply (simp only: if_False)
    apply (rule runs_bnd [OF header _ append_Nil [symmetric]])
    by (simp add: runs_ret)
  then have "runs (forever (main_body dops stopToken) (page, prevPage)) (\<lambda>io. (pbm, around w io)) []
      (Inr (Some (page, prevPage))) (\<lambda>io. (pbm', around w io))"
    by (rule runs_leave)
  with Nil.prems(6,7) show ?case by (intro exI [of _ prevPage] exI [of _ pbm'] exI [of _ w]) simp
next
  case (Cons job jobs)
  let ?n = "unat (BlockSize i)" and ?prev = "if page = 0 then None else Some (page_bytes_of prevPage)"
  obtain header params raster as' where job: "job = (header, params, raster, as')" by (cases job)
  let ?sheet = "sheet_of page params raster"
  obtain ok1 where plan: "page_plan ?n ?sheet ?prev rsNone as' = Some ok1"
    using Cons.prems(7) by (auto simp: job split: option.splits)
  have "job_ok (header, params, raster, as')" "inBytes pbm = header @ raster @ file_bytes jobs"
    using Cons.prems(3,5) by (simp_all add: job)
  from runs_one_job [OF assms Cons.prems(1,2) this(1) Cons.prems(4) this(2) Cons.prems(6) plan]
  obtain prevPage1 pbm1 s where body: "runs (main_body dops stopToken (page, prevPage)) (\<lambda>io. (pbm, around w io))
      (page_talk ?n (size_talk 0 w i) ?sheet ?prev rsNone as')
      (Inr (if ok1 then Continue (Suc page, prevPage1) else Leave None))
      (\<lambda>io. (pbm1, around (after_size 0 (said_on w s) i) io))"
    and ok1: "ok1 \<longrightarrow> moved prevPage1 \<and> page_bytes_of prevPage1 = ?sheet \<and> pbm1 = pbm\<lparr>inBytes := file_bytes jobs\<rparr>"
    by blast
  show ?case
  proof (cases ok1)
    case False
    have ok: "jobs = []" "\<not> ok" using Cons.prems(7) plan False by (auto simp: job split: if_splits)
    have "runs (forever (main_body dops stopToken) (page, prevPage)) (\<lambda>io. (pbm, around w io))
        (page_talk ?n (size_talk 0 w i) ?sheet ?prev rsNone as') (Inr None)
        (\<lambda>io. (pbm1, around (after_size 0 (said_on w s) i) io))"
      by (rule runs_leave) (use body False in simp)
    with ok show ?thesis
      by (intro exI [of _ prevPage] exI [of _ pbm1] exI [of _ "after_size 0 (said_on w s) i"]) (auto simp: job)
  next
    case True
    let ?w = "after_size 0 (said_on w s) i"
    have next': "moved prevPage1" "page_bytes_of prevPage1 = ?sheet" "pbm1 = pbm\<lparr>inBytes := file_bytes jobs\<rparr>"
      using ok1 True by simp_all
    have pre: "unstopped stopToken ?w" "cachedInfo ?w = None \<or> cachedInfo ?w = Some i" "list_all job_ok jobs"
      "is_good pbm1" "inBytes pbm1 = file_bytes jobs"
      using Cons.prems next'(3) by (simp_all add: is_good_def)
    have "pages_plan ?n (Suc page) (if Suc page = 0 then None else Some (page_bytes_of prevPage1)) jobs = Some ok"
      using Cons.prems(7) plan True by (simp add: job next'(2))
    from Cons.IH [OF pre next'(1) this] obtain prevPage' pbm' w' where
      go: "runs (forever (main_body dops stopToken) (Suc page, prevPage1)) (\<lambda>io. (pbm1, around ?w io))
        (pages_talk ?n [] (Suc page) (Some ?sheet) jobs)
        (Inr (if ok then Some (Suc page + length jobs, prevPage') else None)) (\<lambda>io. (pbm', around w' io))"
      and w': "\<exists>s'. w' = (if jobs = [] then ?w else after_size 0 (said_on ?w s') i)"
      and last: "ok \<longrightarrow> moved prevPage' \<and> last_sheet (Suc page) (Some ?sheet) jobs = Some (page_bytes_of prevPage')"
      by (auto simp: next'(2))
    have "(if ok1 then Continue (Suc page, prevPage1) else Leave None) = Continue (Suc page, prevPage1)"
      using True by simp
    note step = body [unfolded this]
    have len: "Suc page + length jobs = page + length (job # jobs)" by simp
    have "runs (forever (main_body dops stopToken) (page, prevPage)) (\<lambda>io. (pbm, around w io))
        (pages_talk ?n (size_talk 0 w i) page ?prev (job # jobs))
        (Inr (if ok then Some (page + length (job # jobs), prevPage') else None)) (\<lambda>io. (pbm', around w' io))"
      using runs_step [OF step go [unfolded len], OF _ refl] by (simp add: job split del: if_split)
    moreover have "\<exists>s'. w' = after_size 0 (said_on w s') i" using w' by (auto split: if_splits)
    ultimately show ?thesis using last by (intro exI [of _ prevPage'] exI [of _ pbm'] exI [of _ w']) (simp add: job)
  qed
qed

end

subsection \<open>The session\<close>

definition start_talk :: "ExtendedStatus \<Rightarrow> ExtendedStatus \<Rightarrow> exchange list" where
  "start_talk ex ex' = [x_code 0xA2A0 0, x_status ex, x_status ex'] @ seq_talk (clear_cmds ex')"

definition start_ok :: "ExtendedStatus \<Rightarrow> ExtendedStatus \<Rightarrow> bool" where
  "start_ok ex ex' \<longleftrightarrow> valid ex \<and> UnitReserved ex \<and> valid ex' \<and> UnitReserved ex'"

definition end_talk :: "ExtendedStatus \<Rightarrow> ExtendedStatus \<Rightarrow> ExtendedStatus \<Rightarrow> exchange list" where
  "end_talk e1 e2 e3 = [x_code 0xE0A6 0, x_status e1, x_status e2] @
    (if UnitReserved e2 then [x_code 0xE0A9 0, x_status e3] else [])"

definition end_ok :: "ExtendedStatus \<Rightarrow> ExtendedStatus \<Rightarrow> ExtendedStatus \<Rightarrow> bool" where
  "end_ok e1 e2 e3 \<longleftrightarrow> valid e1 \<and> \<not> Online e1 \<and> valid e2 \<and> valid e3 \<and> (UnitReserved e2 \<longrightarrow> \<not> UnitReserved e3)"

text \<open>After the pages: nothing to wait for when there was none.\<close>

definition final_plan ::
  "nat \<Rightarrow> sheet option \<Rightarrow> (ExtendedStatus list \<times> ExtendedStatus \<times> attempt list) list \<Rightarrow> bool option" where
  "final_plan n cur rounds =
    (case cur of None \<Rightarrow> if rounds = [] then Some True else None | Some sheet \<Rightarrow> last_plan n sheet rounds)"

definition final_talk ::
  "nat \<Rightarrow> sheet option \<Rightarrow> (ExtendedStatus list \<times> ExtendedStatus \<times> attempt list) list \<Rightarrow> exchange list" where
  "final_talk n cur rounds = (case cur of None \<Rightarrow> [] | Some sheet \<Rightarrow> last_talk n sheet rounds)"

context responder
begin

lemma runs_on_last_page:
  assumes "runs m (\<lambda>io. (p, a io)) t r (\<lambda>io. (p', b io))"
  shows "runs (on_last_page m p) (\<lambda>io. (pbm, a io)) t r (\<lambda>io. (pbm, b io))"
proof (rule runsI)
  fix W io assume "quiet io W" "follows respond W t"
  with assms obtain io' where "m (p, a io) = (r, (p', b io'))" "quiet io' (W @ said t)" by (blast elim: runsE)
  then show "\<exists>io'. on_last_page m p (pbm, a io) = (r, (pbm, b io')) \<and> quiet io' (W @ said t)"
    by (auto simp: on_last_page_def)
qed

lemma runs_end:
  assumes "end_ok e1 e2 e3"
  shows "runs (andthen (lift (GoOffline dops)) (andthen (lift (ReleaseUnit dops)) (ret x)))
    (\<lambda>io. (s, around w io)) (end_talk e1 e2 e3) (Inr x) (\<lambda>io. (s, around w io))"
proof -
  have e: "Basic e1 AND ERROR_BIT = 0" "Basic e2 AND ERROR_BIT = 0" "Basic e3 AND ERROR_BIT = 0" "\<not> Online e1"
    using assms by (simp_all add: end_ok_def valid_def)
  have off: "runs (GoOffline dops) (around w) [x_code 0xE0A6 0, x_status e1] (Inr ()) (around w)"
    using runs_GoOffline [OF e(1), of w] e(4) by simp
  have rel: "runs (ReleaseUnit dops) (around w)
      (x_status e2 # (if UnitReserved e2 then [x_code 0xE0A9 0, x_status e3] else [])) (Inr ()) (around w)"
    using runs_ReleaseUnit [OF e(2,3), of w] assms by (cases "UnitReserved e2") (simp_all add: end_ok_def)
  show ?thesis
    by (rule runs_andthen [OF runs_lift [OF off] runs_andthen [OF runs_lift [OF rel] runs_ret append_Nil2 [symmetric]]])
      (simp add: end_talk_def)
qed

lemma runs_final:
  fixes w :: "('d, 'z) shell_scheme"
  assumes "0 < BlockSize i" and "unat (BlockSize i) + 4 \<le> 65535" and "unstopped stopToken w"
    and "page \<noteq> 0 \<longrightarrow> cachedInfo w = Some i" and "moved prevPage"
    and "final_plan (unat (BlockSize i)) (if page = 0 then None else Some (page_bytes_of prevPage)) rounds = Some ok"
  shows "\<exists>s. runs (if page \<noteq> 0 then on_last_page (waitLastPage dops page_stream stopToken) prevPage else ret True)
    (\<lambda>io. (pbm, around w io))
    (final_talk (unat (BlockSize i)) (if page = 0 then None else Some (page_bytes_of prevPage)) rounds) (Inr ok)
    (\<lambda>io. (pbm, around (said_on w s) io))"
proof (cases "page = 0")
  case True
  then show ?thesis
    using assms(6) by (intro exI [of _ "[]"]) (auto simp: final_plan_def final_talk_def runs_ret split: if_splits)
next
  case False
  note link = file_link [where ls = 0 and after = "[]"]
  have same: "page_source.same_page (raster_ok 0 []) page_stream_content 4096 prevPage prevPage"
    using moved_page_ok [OF assms(5)] by (simp add: page_source.same_page_def [OF file_page.page_source_axioms])
  have "cachedInfo w = Some i" "last_plan (unat (BlockSize i)) (page_bytes_of prevPage) rounds = Some ok"
    using assms(4,6) False by (simp_all add: final_plan_def)
  from page_link.runs_last_page [OF link assms(1-3) same this] False show ?thesis
    by (auto simp: final_talk_def intro: runs_on_last_page)
qed

lemma runs_print_file:
  fixes w :: "('d, 'z) shell_scheme"
  assumes "0 < BlockSize i" and "unat (BlockSize i) + 4 \<le> 65535" and "unstopped stopToken w"
    and "cachedInfo w = None \<or> cachedInfo w = Some i"
    and "is_good pbm" and "inBytes pbm = file_bytes jobs" and "list_all job_ok jobs"
    and "start_ok ex ex'" and "pages_plan (unat (BlockSize i)) 0 None jobs = Some ok"
    and "ok \<Longrightarrow> final_plan (unat (BlockSize i)) (last_sheet 0 None jobs) rounds = Some ok'"
    and "end_ok e1 e2 e3"
  shows "\<exists>pbm' w'. runs (print_file dops stopToken uninit) (\<lambda>io. (pbm, around w io))
    (start_talk ex ex' @ pages_talk (unat (BlockSize i)) (size_talk 0 w i) 0 None jobs @
     (if ok then final_talk (unat (BlockSize i)) (last_sheet 0 None jobs) rounds @
       (if ok' then end_talk e1 e2 e3 else []) else []))
    (Inr (if ok \<and> ok' then 0 else 1)) (\<lambda>io. (pbm', around w' io))"
proof -
  let ?n = "unat (BlockSize i)" and ?empty = "emptyBufferedPage uninit :: pbm_page"
  have ex: "Basic ex AND ERROR_BIT = 0" "UnitReserved ex" "Basic ex' AND ERROR_BIT = 0" "UnitReserved ex'"
    using assms(8) by (simp_all add: start_ok_def valid_def)
  have empty: "moved ?empty" by (simp add: moved_def emptyBufferedPage_def)
  have plan: "pages_plan ?n 0 (if 0 = (0 :: nat) then None else Some (page_bytes_of ?empty)) jobs = Some ok"
    using assms(9) by simp
  obtain prevPage pbm' w' where pages: "runs (forever (main_body dops stopToken) (0, ?empty)) (\<lambda>io. (pbm, around w io))
      (pages_talk ?n (size_talk 0 w i) 0 None jobs) (Inr (if ok then Some (length jobs, prevPage) else None))
      (\<lambda>io. (pbm', around w' io))"
    and w': "\<exists>s. w' = (if jobs = [] then w else after_size 0 (said_on w s) i)"
    and prev: "ok \<longrightarrow> moved prevPage \<and>
      last_sheet 0 None jobs = (if length jobs = 0 then None else Some (page_bytes_of prevPage))"
    using runs_pages [OF assms(1-4,7,5,6) empty plan] unfolding if_P [OF refl] add_0 by blast
  have start: "runs (print_file dops stopToken uninit) (\<lambda>io. (pbm, around w io))
      (start_talk ex ex' @ pages_talk ?n (size_talk 0 w i) 0 None jobs @ t) r c"
    if "runs (case (if ok then Some (length jobs, prevPage) else None) of
      None \<Rightarrow> ret 1
    | Some (page, prevPage) \<Rightarrow>
        bnd (if page \<noteq> 0 then on_last_page (waitLastPage dops page_stream stopToken) prevPage else ret True) (\<lambda>ok.
          if \<not> ok then andthen (lift (put (''Error: waitLastPage failed'' @ [CHR 0x0A]))) (ret 1)
          else andthen (lift (GoOffline dops)) (andthen (lift (ReleaseUnit dops)) (ret 0))))
      (\<lambda>io. (pbm', around w' io)) t r c" for t r c
  proof -
    have reserve: "runs (ReserveUnit dops) (around w) [x_code 0xA2A0 0, x_status ex] (Inr ()) (around w)"
      using runs_ReserveUnit [OF ex(1), of w] ex(2) by simp
    show ?thesis
      unfolding print_file_def
      apply (rule runs_andthen [OF runs_lift [OF reserve]])
       apply (rule runs_andthen [OF runs_lift [OF runs_ClearError(2) [OF ex(4,3)]]])
        apply (rule runs_bnd [OF pages])
         apply (rule that)
      by (simp_all add: start_talk_def)
  qed
  show ?thesis
  proof (cases ok)
    case False
    have "runs (print_file dops stopToken uninit) (\<lambda>io. (pbm, around w io))
        (start_talk ex ex' @ pages_talk ?n (size_talk 0 w i) 0 None jobs @ []) (Inr 1) (\<lambda>io. (pbm', around w' io))"
      by (rule start) (use False in \<open>simp add: runs_ret\<close>)
    with False show ?thesis by (intro exI [of _ pbm'] exI [of _ w']) simp
  next
    case True
    have "unstopped stopToken w'" "length jobs \<noteq> 0 \<longrightarrow> cachedInfo w' = Some i"
      using w' assms(3) after_size_said_on(4) [where i = i] by (cases "jobs = []"; auto; metis)+
    moreover have "final_plan ?n (if length jobs = 0 then None else Some (page_bytes_of prevPage)) rounds = Some ok'"
      using assms(10) True prev by simp
    ultimately obtain s where final: "runs (if length jobs \<noteq> 0
          then on_last_page (waitLastPage dops page_stream stopToken) prevPage else ret True)
        (\<lambda>io. (pbm', around w' io)) (final_talk ?n (last_sheet 0 None jobs) rounds) (Inr ok')
        (\<lambda>io. (pbm', around (said_on w' s) io))"
      using runs_final [OF assms(1,2), of stopToken w' "length jobs" prevPage rounds ok' pbm'] True prev by auto
    let ?w = "if ok' then said_on w' s else said_on (said_on w' s) (''Error: waitLastPage failed'' @ [CHR 0x0A])"
    have tail: "runs (if \<not> ok' then andthen (lift (put (''Error: waitLastPage failed'' @ [CHR 0x0A]))) (ret 1)
          else andthen (lift (GoOffline dops)) (andthen (lift (ReleaseUnit dops)) (ret (0 :: nat))))
        (\<lambda>io. (pbm', around (said_on w' s) io)) (if ok' then end_talk e1 e2 e3 else [])
        (Inr (if ok' then 0 else 1)) (\<lambda>io. (pbm', around ?w io))"
    proof (cases ok')
      case True
      then show ?thesis using runs_end [OF assms(11), where w = "said_on w' s"] by simp
    next
      case False
      have "runs (andthen (lift (put (''Error: waitLastPage failed'' @ [CHR 0x0A]))) (ret (1 :: nat)))
          (\<lambda>io. (pbm', around (said_on w' s) io)) [] (Inr 1) (\<lambda>io. (pbm', around ?w io))"
        unfolding if_not_P [OF False] by (rule runs_andthen [OF runs_lift [OF runs_put] runs_ret append_Nil [symmetric]])
      with False show ?thesis by simp
    qed
    have "runs (print_file dops stopToken uninit) (\<lambda>io. (pbm, around w io))
        (start_talk ex ex' @ pages_talk ?n (size_talk 0 w i) 0 None jobs @
          (final_talk ?n (last_sheet 0 None jobs) rounds @ (if ok' then end_talk e1 e2 e3 else [])))
        (Inr (if ok' then 0 else 1)) (\<lambda>io. (pbm', around ?w io))"
      apply (rule start)
      apply (simp only: True if_True option.case prod.case)
      apply (rule runs_bnd [OF final _ refl])
      by (rule tail)
    with True show ?thesis by (intro exI [of _ pbm'] exI [of _ ?w]) simp
  qed
qed

end

lemma reads_header_bytes:
  assumes "list_all (\<lambda>c. 10 \<notin> set c) comments" and "list_all isspace ws" and "list_all isspace ws'"
    and "width \<noteq> []" and "list_all isdigit width" and "digits_value width < 2 ^ 32"
    and "height \<noteq> []" and "list_all isdigit height" and "digits_value height < 2 ^ 32"
    and "list_all (\<lambda>c. \<not> isspace c) junk" and "junk \<noteq> [] \<longrightarrow> \<not> isdigit (hd junk)"
    and "digits_value width mod 8 = 0"
  shows "reads_header (header_bytes comments ws width ws' height junk)
    (dummyParams\<lparr>ImageLineSize := word_of_nat (digits_value width div 8), ImageLines := word_of_nat (digits_value height)\<rparr>)"
  unfolding reads_header_def
proof (intro allI impI)
  fix st rest assume "is_good st \<and> inBytes st = header_bytes comments ws width ws' height junk @ rest"
  then have "is_good st" "inBytes st = header_bytes comments ws width ws' height junk @ rest" by simp_all
  from readPbmHeader_parses [OF this assms(1-11)] assms(12)
  show "ReadHeader st = (Inr (Some (dummyParams\<lparr>ImageLineSize := word_of_nat (digits_value width div 8),
      ImageLines := word_of_nat (digits_value height)\<rparr>)), st\<lparr>inBytes := rest\<rparr>)"
    by (simp add: ReadHeader_def bnd_def ret_def dummyParams_def)
qed

lemma speaks_file [simp]: "speaks sz \<Longrightarrow> speaks (pages_talk n sz page prev jobs)"
  "speaks (last_talk n cur rounds)" "speaks (final_talk n sh rounds)" "speaks (start_talk ex ex')"
  "speaks (end_talk e1 e2 e3)"
proof -
  show "speaks sz \<Longrightarrow> speaks (pages_talk n sz page prev jobs)"
    by (induction n sz page prev jobs rule: pages_talk.induct) simp_all
  show last: "speaks (last_talk n cur rounds)" for n cur rounds
    by (induction n cur rounds rule: last_talk.induct) simp_all
  show "speaks (final_talk n sh rounds)" by (simp add: final_talk_def last split: option.split)
qed (simp_all add: start_talk_def end_talk_def)

subsection \<open>Properties\<close>


text \<open>A file with one page of one byte, printed without ado.\<close>

definition one_byte_job :: job where
  "one_byte_job = (header_bytes [] [] [56] [] [49] [], dummyParams\<lparr>ImageLineSize := 1, ImageLines := 1\<rparr>, [7],
    [Attempt [] idle_status idle_status (Accepted [([], 0)])])"

lemma one_byte_job_ok: "job_ok one_byte_job"
proof -
  have "reads_header (header_bytes [] [] [56] [] [49] []) (dummyParams\<lparr>ImageLineSize := 1, ImageLines := 1\<rparr>)"
    using reads_header_bytes [of "[]" "[]" "[]" "[56]" "[49]" "[]"]
    by (simp add: digits_value_def isdigit_unat)
  then show ?thesis by (simp add: one_byte_job_def)
qed

lemma one_byte_plan:
  "pages_plan 100 0 None [one_byte_job] = Some True"
  "final_plan 100 (last_sheet 0 None [one_byte_job]) [([], idle_status, [])] = Some True"
  "start_ok idle_status idle_status"
  "end_ok (idle_status\<lparr>Basic := 0x50\<rparr>) (idle_status\<lparr>Basic := 0x50\<rparr>) (idle_status\<lparr>Basic := 0x50\<rparr>)"
proof -
  let ?bytes = "encode_lines 1 1 0 [] [7]"
  have "?bytes \<noteq> []" using encode_lines_Nil [of 1 1 "[7]" 0 "[]"] by auto
  moreover have "length ?bytes \<le> 4" using encode_lines_length [of 1 0 "[]" 1 "[7]"] by simp
  ultimately have "(length ?bytes + 99) div 100 = 1" by (cases ?bytes) (auto simp del: encode_lines.simps)
  then have blocks: "length (blocks_of 100 ?bytes) = 1" by (simp add: blocks_of_def del: encode_lines.simps)
  note bits = valid_def Ready_def Online_def UnitReserved_def IsPrinting_def VideoDataError_def Rejected_def
    idle_status_def status_flags
  show "pages_plan 100 0 None [one_byte_job] = Some True"
    using blocks by (simp add: one_byte_job_def sheet_of_def aim_def old_page_def prints_def polls_ok_def accepts_def bits
        del: encode_lines.simps)
  show "final_plan 100 (last_sheet 0 None [one_byte_job]) [([], idle_status, [])] = Some True"
    by (simp add: one_byte_job_def final_plan_def GetReprintStatus_def bits del: encode_lines.simps)
  show "start_ok idle_status idle_status"
    "end_ok (idle_status\<lparr>Basic := 0x50\<rparr>) (idle_status\<lparr>Basic := 0x50\<rparr>) (idle_status\<lparr>Basic := 0x50\<rparr>)"
    by (simp_all add: start_ok_def end_ok_def bits)
qed




end
