(* ===== verification/Get_Status.thy ===== *)
theory Get_Status
  imports Printer
begin

text \<open>
  \<^verbatim>\<open>examples/getstatus.cpp\<close>: the text of a status, flag by flag.

  Each of the functions for a field writes a line for every flag of the field that is set and
  collects the flags it knows in \<^verbatim>\<open>check\<close>, to report a status with a flag it does
  not know. The repeated \<^verbatim>\<open>if\<close> statements are the rows of a table: the mask that is tested,
  the text, and the number that is added to \<^verbatim>\<open>check\<close>. \<^verbatim>\<open>status\<close> and the mask
  are promoted to \<^verbatim>\<open>int\<close>; \<^verbatim>\<open>check\<close> is one. The state of the program is the
  standard output and the stream of the printer.
\<close>

subsection \<open>The flags of a field\<close>

definition newline :: string where
  "newline = [CHR 0x0A]"

text \<open>The conversion \<^verbatim>\<open>%02X\<close>.\<close>

definition upper_digit :: "char \<Rightarrow> char" where
  "upper_digit c = (if of_char c < (97 :: nat) then c else char_of (of_char c - 32 :: nat))"

definition show_02X :: "int \<Rightarrow> string" where
  "show_02X n = padded 2 (map upper_digit (show_base 16 (nat n)))"

fun print_flags ::
  "'a :: len word \<Rightarrow> ('a word \<times> string \<times> int) list \<Rightarrow> string \<times> int \<Rightarrow> string \<times> int" where
  "print_flags status [] out = out"
| "print_flags status ((flag, name, val) # rows) (out, check) =
    print_flags status rows
      (if status AND flag \<noteq> 0 then (out @ ''  '' @ name @ newline, check OR val) else (out, check))"

definition print_field :: "string \<Rightarrow> string \<Rightarrow> ('a :: len word \<times> string \<times> int) list \<Rightarrow> 'a word \<Rightarrow> string" where
  "print_field title sep rows status =
    (case print_flags status rows (title @ '' = 0x'' @ show_02X (uint status) @ newline, 0) of
       (out, check) \<Rightarrow>
         if uint status \<noteq> check
         then out @ ''Check mismatch: 0x'' @ show_02X (uint status) @ '' != '' @ sep @ show_02X check @ newline
         else out)"

definition basic_rows :: "(byte \<times> string \<times> int) list" where
  "basic_rows =
    [(1, ''UNKNOWN 1'', 1), (NOT_READY, ''NOT_READY'', 2), (4, ''*RCF_CMD_BUSY'', 4), (8, ''*RCF_IM_DATA_BUSY'', 8),
     (OFFLINE, ''OFFLINE'', 16), (32, ''UNKNOWN 32'', 32), (UNIT_FREE, ''UNIT_FREE'', 64), (ERROR_BIT, ''ERROR_BIT'', 128)]"

definition aux_rows :: "(byte \<times> string \<times> int) list" where
  "aux_rows =
    [(1, ''UNKNOWN 1'', 1), (PRINTER_BUSY, ''PRINTER_BUSY'', 2), (PAPER_DELIVERY, ''PAPER_DELIVERY'', 4),
     (8, ''UNKNOWN 8'', 8), (16, ''UNKNOWN 16'', 16), (32, ''UNKNOWN 32'', 32), (64, ''UNKNOWN 64'', 64),
     (SAFE_TIMER, ''SAFE_TIMER'', 128)]"

definition controller_rows :: "(byte \<times> string \<times> int) list" where
  "controller_rows =
    [(OVERRUN, ''OVERRUN'', 1), (UNDERRUN, ''UNDERRUN'', 2), (MISSING_EOP, ''MISSING_EOP'', 4),
     (INVALID_DATA, ''INVALID_DATA'', 8), (ENGINE_COMM_ERROR, ''ENGINE_COMM_ERROR'', 16),
     (ENGINE_RESET_IN_PROGRESS, ''ENGINE_RESET_IN_PROGRESS'', 32), (PRINT_REJECTED, ''PRINT_REJECTED'', 64)]"

definition engine_rows :: "(u16 \<times> string \<times> int) list" where
  "engine_rows =
    [(DOOR_OPEN, ''DOOR_OPEN'', 0x4000), (NO_CARTRIDGE, ''NO_CARTRIDGE'', 0x2000), (WAITING, ''WAITING'', 0x1000),
     (TEST_PRINTING, ''TEST_PRINTING'', 0x400), (NO_PRINT_PAPER, ''NO_PRINT_PAPER'', 0x200), (JAM, ''JAM'', 0x100),
     (CLEANING, ''CLEANING'', 4), (SERVICE_CALL, ''SERVICE_CALL'', 2), (MIS_PRINT, ''MIS_PRINT'', 0x80),
     (MIS_PRINT_2, ''MIS_PRINT_2'', 0x40)]"

definition printBasicStatus :: "byte \<Rightarrow> string" where
  "printBasicStatus = print_field ''BasicStatus'' ''0x'' basic_rows"

definition printAuxStatus :: "byte \<Rightarrow> string" where
  "printAuxStatus = print_field ''AuxStatus'' ''0x'' aux_rows"

definition printControllerStatus :: "byte \<Rightarrow> string" where
  "printControllerStatus = print_field ''ControllerStatus'' ''0x'' controller_rows"

definition printEngineStatus :: "u16 \<Rightarrow> string" where
  "printEngineStatus = print_field ''EngineReadyStatus'' ''0x:'' engine_rows"

definition printStatus :: "ExtendedStatus \<Rightarrow> string" where
  "printStatus ex =
    printBasicStatus (Basic ex) @ printAuxStatus (Aux ex) @ printControllerStatus (Controller ex) @
    printEngineStatus (Engine ex) @
    ''Start = '' @ show_base 10 (unat (Start ex)) @ newline @
    ''Printing = '' @ show_base 10 (unat (Printing ex)) @ newline @
    ''Shipped = '' @ show_base 10 (unat (Shipped ex)) @ newline @
    ''Printed = '' @ show_base 10 (unat (Printed ex)) @ newline @
    ''Paper = 0x'' @ show_base 16 (unat (PaperAvailableBits ex)) @ newline"

text \<open>The program after the stream has been opened.\<close>

definition say :: "string \<Rightarrow> (string \<times> 'w, unit) act" where
  "say s w = (Inr (), (fst w @ s, snd w))"

definition getstatus_main :: "'d device_ops \<Rightarrow> (string \<times> 'd iostream, nat) act" where
  "getstatus_main dops =
    bnd (lift (PC_GET_EXTENDED_STATUS dops)) (\<lambda>ex. andthen (say (printStatus ex)) (ret 0))"

subsection \<open>What the check finds\<close>

text \<open>The lines of the flags that are set.\<close>

definition flag_lines :: "('a :: len word \<times> string \<times> int) list \<Rightarrow> 'a word \<Rightarrow> string" where
  "flag_lines rows status =
    concat (map (\<lambda>(flag, name, val). ''  '' @ name @ newline) (filter (\<lambda>(flag, name, val). status AND flag \<noteq> 0) rows))"

definition known_flags :: "('a :: len word \<times> string \<times> int) list \<Rightarrow> 'a word" where
  "known_flags rows = foldr (\<lambda>(flag, name, val) known. flag OR known) rows 0"

text \<open>A row tests one bit and adds this bit.\<close>

definition single_flag :: "'a :: len word \<times> string \<times> int \<Rightarrow> bool" where
  "single_flag r \<longleftrightarrow> (case r of (flag, name, val) \<Rightarrow> flag \<in> set (map (\<lambda>k. push_bit k 1) [0..<LENGTH('a)]) \<and> val = uint flag)"

lemma and_single: "single_flag (flag, name, val) \<Longrightarrow> (if status AND flag \<noteq> 0 then val else 0) = uint (status AND flag)"
proof -
  assume "single_flag (flag, name, val)"
  then obtain k where k: "flag = push_bit k 1" "val = uint flag" by (auto simp: single_flag_def)
  have "status AND flag = (if status AND flag \<noteq> 0 then flag else 0)"
    unfolding k(1) and_flag by (intro bit_word_eqI) (auto simp: bit_simps)
  then have "uint (status AND flag) = uint (if status AND flag \<noteq> 0 then flag else 0)" by (rule arg_cong)
  then show ?thesis using k(2) by (cases "status AND flag = 0") simp_all
qed

lemma print_flags_eq:
  "list_all single_flag rows \<Longrightarrow>
    print_flags status rows (out, check) = (out @ flag_lines rows status, check OR uint (status AND known_flags rows))"
proof (induction rows arbitrary: out check)
  case Nil
  then show ?case by (simp add: flag_lines_def known_flags_def)
next
  case (Cons r rows)
  obtain flag name val where r: "r = (flag, name, val)" by (cases r)
  then have "(if status AND flag \<noteq> 0 then val else 0) = uint (status AND flag)" using Cons.prems and_single [of flag name val status] by simp
  moreover have "uint (status AND known_flags (r # rows)) =
      uint (status AND flag) OR uint (status AND known_flags rows)"
    by (simp add: known_flags_def r bit.conj_disj_distrib uint_or)
  moreover have "flag_lines (r # rows) status =
      (if status AND flag \<noteq> 0 then ''  '' @ name @ newline else []) @ flag_lines rows status"
    by (simp add: flag_lines_def r)
  ultimately show ?case
    using Cons by (cases "status AND flag = 0") (simp_all add: r or.assoc)
qed

lemma print_field_eq:
  assumes "list_all single_flag rows"
  shows "print_field title sep rows status =
    title @ '' = 0x'' @ show_02X (uint status) @ newline @ flag_lines rows status @
    (if status AND NOT (known_flags rows) = 0 then []
     else ''Check mismatch: 0x'' @ show_02X (uint status) @ '' != '' @ sep @
       show_02X (uint (status AND known_flags rows)) @ newline)"
proof -
  have "uint status = uint (status AND known_flags rows) \<longleftrightarrow> status AND NOT (known_flags rows) = 0"
    by (metis (no_types, lifting) and.assoc and.commute bit.conj_cancel_right bit.conj_disj_distrib bit.disj_cancel_right
        and.right_neutral or.right_neutral word_uint_eq_iff and_zero_eq)
  then show ?thesis by (simp add: print_field_def print_flags_eq [OF assms])
qed

lemma single_rows:
  "list_all single_flag basic_rows" "list_all single_flag aux_rows" "list_all single_flag controller_rows"
  "list_all single_flag engine_rows"
  by (simp_all add: basic_rows_def aux_rows_def controller_rows_def engine_rows_def single_flag_def status_flags
      upt_rec [of _ "numeral n" for n])

lemma known_rows: "known_flags basic_rows = 0xff" "known_flags aux_rows = 0xff"
  "known_flags controller_rows = 0x7f" "known_flags engine_rows = 0x77c6"
  by (simp_all add: known_flags_def basic_rows_def aux_rows_def controller_rows_def engine_rows_def status_flags)

context responder
begin

lemma runs_say: "runs (say s) (\<lambda>io. (out, a io)) [] (Inr ()) (\<lambda>io. (out @ s, a io))"
  by (rule runs_pure) (simp add: say_def)

lemma runs_getstatus:
  "Basic ex AND ERROR_BIT = 0 \<Longrightarrow>
    runs (getstatus_main dops) (\<lambda>io. (out, io)) [x_status ex] (Inr 0) (\<lambda>io. (out @ printStatus ex, io))"
  unfolding getstatus_main_def
  by (rule runs_bnd [OF runs_lift [OF runs_status] runs_andthen [OF runs_say runs_ret append_Nil [symmetric]]]) simp_all

end

subsection \<open>Properties\<close>

text \<open>
C15. The report of a status. It lists, field by field, exactly the names of the flags that are set, in the
order of the tables. No flag of the basic and the auxiliary status is unknown; a mismatch is
reported for the controller status exactly when bit 7 is set and for the engine status exactly
when one of the bits 0, 3, 4, 5, 11 or 15 is set, with the known flags as the second number. The program prints
this report of the status it gets, and returns 0.
\<close>

theorem status_report:
  assumes "responder dops dok pending sent consumed respond" and "Basic ex AND ERROR_BIT = 0"
  shows
  "converses dok sent consumed respond (getstatus_main dops) (\<lambda>io. (out, io)) [x_status ex] (Inr 0)
     (\<lambda>io. (out @ printStatus ex, io)) \<and>
   printBasicStatus b = ''BasicStatus = 0x'' @ show_02X (uint b) @ newline @ flag_lines basic_rows b \<and>
   printAuxStatus b = ''AuxStatus = 0x'' @ show_02X (uint b) @ newline @ flag_lines aux_rows b \<and>
   printControllerStatus b = ''ControllerStatus = 0x'' @ show_02X (uint b) @ newline @ flag_lines controller_rows b @
     (if \<not> bit b 7 then []
      else ''Check mismatch: 0x'' @ show_02X (uint b) @ '' != 0x'' @ show_02X (uint (b AND 0x7f)) @ newline) \<and>
   printEngineStatus e = ''EngineReadyStatus = 0x'' @ show_02X (uint e) @ newline @ flag_lines engine_rows e @
     (if \<not> (\<exists>k \<in> {0, 3, 4, 5, 11, 15}. bit e k) then []
      else ''Check mismatch: 0x'' @ show_02X (uint e) @ '' != 0x:'' @ show_02X (uint (e AND 0x77c6)) @ newline)"
proof -
  have none: "NOT (0xff :: byte) = 0" by simp
  have "NOT (0x7f :: byte) = push_bit 7 1" by (simp add: word_uint_eq_iff)
  then have c: "b AND NOT 0x7f = 0 \<longleftrightarrow> \<not> bit b 7" by (simp only: and_flag_zero)
  have e: "e AND NOT 0x77c6 = 0 \<longleftrightarrow> \<not> (\<exists>k \<in> {0, 3, 4, 5, 11, 15}. bit e k)"
  proof -
    have "NOT (0x77c6 :: u16) = push_bit 0 1 OR push_bit 3 1 OR push_bit 4 1 OR push_bit 5 1 OR push_bit 11 1 OR push_bit 15 1"
      by (simp add: word_uint_eq_iff)
    moreover have "e AND (x OR y) = 0 \<longleftrightarrow> e AND x = 0 \<and> e AND y = 0" for x y
      by (simp add: bit.conj_disj_distrib or_eq_0_iff)
    ultimately show ?thesis by (simp only: and_flag_zero) auto
  qed
  show ?thesis
    unfolding printBasicStatus_def printAuxStatus_def printControllerStatus_def printEngineStatus_def
      print_field_eq [OF single_rows(1)] print_field_eq [OF single_rows(2)] print_field_eq [OF single_rows(3)]
      print_field_eq [OF single_rows(4)] known_rows none c e
    using responder.runs_getstatus [OF assms] by simp
qed

theorem status_report_witness:
  "\<exists>io'. getstatus_main (sim_ops (respond_of [x_status idle_status])) ([], new_sim) = (Inr 0, (printStatus idle_status, io')) \<and>
    simSent (isDev io') = said [x_status idle_status] \<and>
    printControllerStatus 0x81 = ''ControllerStatus = 0x'' @ show_02X 0x81 @ newline @ flag_lines controller_rows 0x81 @
      ''Check mismatch: 0x'' @ show_02X 0x81 @ '' != 0x'' @ show_02X 1 @ newline"
proof -
  have "Basic idle_status AND ERROR_BIT = 0" by (simp add: idle_status_def)
  from status_report [OF sim.responder_axioms [of "respond_of [x_status idle_status]"] this, where out = "[]" and b = "0x81"]
  have "converses (\<lambda>_. True) simSent simRead (respond_of [x_status idle_status])
      (getstatus_main (sim_ops (respond_of [x_status idle_status]))) (\<lambda>io. ([], io)) [x_status idle_status] (Inr 0)
      (\<lambda>io. ([] @ printStatus idle_status, io))"
    and "printControllerStatus 0x81 = ''ControllerStatus = 0x'' @ show_02X 0x81 @ newline @ flag_lines controller_rows 0x81 @
      ''Check mismatch: 0x'' @ show_02X 0x81 @ '' != 0x'' @ show_02X 1 @ newline"
    by simp_all
  with sim_run [OF this(1)] show ?thesis by simp
qed

end
