(* ===== verification/Printer_Info.thy ===== *)
theory Printer_Info
  imports Get_Status Print_Pbm
begin

text \<open>
  \<^verbatim>\<open>examples/printerinfo.cpp\<close>: the information of a printer, and the size of its video buffer.

  The program fills the buffer of a printer that has no paper until it reports that it is
  busy, in large blocks, discards the data and fills it again, with single bytes near the end.
  The state is the standard output and the stream of the printer.
\<close>

subsection \<open>The information\<close>

text \<open>
  \<^verbatim>\<open>%.02f\<close> of a number of bytes divided by 1024 twice. The quotient is exact in
  \<^verbatim>\<open>double\<close>; it is rounded to hundredths, a tie to the even one, as IEEE 754 has it.
\<close>

definition round_half_even :: "nat \<Rightarrow> nat \<Rightarrow> nat" where
  "round_half_even n d =
    (if 2 * (n mod d) < d \<or> 2 * (n mod d) = d \<and> even (n div d) then n div d else n div d + 1)"

definition show_megabytes :: "nat \<Rightarrow> string" where
  "show_megabytes n =
    (let hundredths = round_half_even (100 * n) (1024 * 1024)
     in show_base 10 (hundredths div 100) @ ''.'' @ padded 2 (show_base 10 (hundredths mod 100)))"

text \<open>The product of two numbers of 16 bits is computed as \<^verbatim>\<open>int\<close>.\<close>

definition printPrinterInfo :: "PrinterInfo \<Rightarrow> (string \<times> 'w, unit) act" where
  "printPrinterInfo info =
    andthen (say (''Printer Info:'' @ newline @
      ''    Type = '' @ show_base 10 (unat (infoType info)) @ newline @
      ''    Version = '' @ show_base 10 (unat (VersionMajor info)) @ ''.'' @
        padded 2 (show_base 10 (unat (VersionMinor info))) @ newline @
      ''    BlockSize = '' @ show_base 10 (unat (BlockSize info)) @ newline @
      ''    Buffers = '' @ show_base 10 (unat (Buffers info)) @ newline))
   (let total = unat (BlockSize info) * unat (Buffers info)
    in if 2 ^ 31 \<le> total then raise UndefinedBehaviour
       else say (''    RAM Total = '' @ show_megabytes total @ '' MB'' @ newline))"

subsection \<open>Filling the buffer\<close>

definition fill_body ::
  "'d device_ops \<Rightarrow> nat \<Rightarrow> nat \<times> byte list \<times> nat \<Rightarrow> (string \<times> 'd iostream, (nat \<times> byte list \<times> nat, nat) ctrl) act" where
  "fill_body dops thresh local =
    (case local of (batchSize, buffer, count) \<Rightarrow>
     case (if thresh \<noteq> 0 \<and> thresh \<le> count \<and> batchSize \<noteq> 1 then (1, resize 1 buffer) else (batchSize, buffer)) of
       (batchSize, buffer) \<Rightarrow>
        bnd (lift (PCR_GET_BASIC_STATUS dops False)) (\<lambda>bs.
          if fst bs AND IM_DATA_BUSY \<noteq> 0 then ret (Leave count)
          else if fst bs AND CMD_BUSY \<noteq> 0 then
            andthen (say (newline @ ''fillBuffer error: CMD_BUSY'' @ newline)) (ret (Leave count))
          else if fst bs AND ERROR_BIT \<noteq> 0 then
            andthen (say (newline @ ''fillBuffer error: ERROR_BIT'' @ newline)) (ret (Leave count))
          else
            andthen (lift (IC_VIDEO_DATA dops buffer))
           (andthen (say (clear_line @ ''Filling: '' @ show_base 10 (count + length buffer)))
              (ret (Continue (batchSize, buffer, count + length buffer))))))"

definition fillBuffer :: "'d device_ops \<Rightarrow> nat \<Rightarrow> nat \<Rightarrow> (string \<times> 'd iostream, nat) act" where
  "fillBuffer dops batchSize thresh =
    bnd (forever (fill_body dops thresh) (batchSize, replicate batchSize 0xff, 0)) (\<lambda>count.
      andthen (say newline) (ret count))"

subsection \<open>The program\<close>

text \<open>After the stream has been opened; the result is the exit code.\<close>

definition measure_buffer :: "'d device_ops \<Rightarrow> (string \<times> 'd iostream, nat) act" where
  "measure_buffer dops =
    andthen (lift (IC_BEGIN_PAGE dops dummyParams))
   (andthen (say (''Filling video buffer: pass 1...'' @ newline))
   (bnd (fillBuffer dops 6144 0) (\<lambda>buffSize.
    andthen (assertM (16 * 1024 < buffSize))
   (andthen (say (''Filling video buffer: pass 2...'' @ newline))
   (andthen (lift (PCR_DISCARD_DATA dops))
   (bnd (fillBuffer dops 6144 (buffSize - 16 * 1024)) (\<lambda>buffSize.
    andthen (say (''Video buffer size: '' @ show_base 10 buffSize @ newline)) (ret 0))))))))"

definition printerinfo_main :: "'d device_ops \<Rightarrow> (string \<times> 'd iostream, nat) act" where
  "printerinfo_main dops =
    bnd (lift (PC_GET_PRINTER_INFO dops)) (\<lambda>info.
    andthen (printPrinterInfo info)
   (bnd (lift (PC_RESERVE_UNIT dops)) (\<lambda>code.
      if code \<noteq> 0 then andthen (say (''Failed to reserve unit'' @ newline)) (ret 1)
      else
        andthen (say (''Unit reserved'' @ newline))
       (andthen (lift (PCR_CLEAR_ERROR dops))
       (andthen (lift (PCR_DISCARD_DATA dops))
       (andthen (lift (PCR_GO_ONLINE dops 0))
       (bnd (lift (PC_GET_EXTENDED_STATUS dops)) (\<lambda>status.
          if PaperAvailableBits status \<noteq> 0 then
            andthen (say (''Video buffer size detection is not available: remove paper first'' @ newline)) (ret 0)
          else
            andthen (lift (IC_BEGIN_DATA dops))
              (if Basic status AND IM_DATA_BUSY \<noteq> 0 then
                 andthen (say (''Video buffer size detection error: IM_DATA_BUSY'' @ newline)) (ret 1)
               else measure_buffer dops)))))))))"

subsection \<open>A printer that fills up\<close>

definition free :: "byte \<Rightarrow> bool" where
  "free bs \<longleftrightarrow> bs AND IM_DATA_BUSY = 0 \<and> bs AND CMD_BUSY = 0 \<and> bs AND ERROR_BIT = 0"

text \<open>The size of the next block.\<close>

definition batch_at :: "nat \<Rightarrow> nat \<Rightarrow> nat \<Rightarrow> nat" where
  "batch_at thresh batch count = (if thresh \<noteq> 0 \<and> thresh \<le> count then 1 else batch)"

fun fill_talk :: "nat \<Rightarrow> nat \<Rightarrow> nat \<Rightarrow> byte list \<Rightarrow> exchange list" where
  "fill_talk thresh batch count [] = []"
| "fill_talk thresh batch count (bs # polls) =
    [x_basic bs, tells 0xC0A0 (replicate (batch_at thresh batch count) 0xff)] @
    fill_talk thresh (batch_at thresh batch count) (count + batch_at thresh batch count) polls"

fun fill_count :: "nat \<Rightarrow> nat \<Rightarrow> nat \<Rightarrow> byte list \<Rightarrow> nat" where
  "fill_count thresh batch count [] = count"
| "fill_count thresh batch count (bs # polls) =
    fill_count thresh (batch_at thresh batch count) (count + batch_at thresh batch count) polls"

text \<open>A printer that is free as long as it has received less than \<open>cap\<close> bytes.\<close>

fun fills :: "nat \<Rightarrow> nat \<Rightarrow> nat \<Rightarrow> nat \<Rightarrow> byte list \<Rightarrow> bool" where
  "fills cap thresh batch count [] \<longleftrightarrow> cap \<le> count"
| "fills cap thresh batch count (bs # polls) \<longleftrightarrow> free bs \<and> count < cap \<and>
    fills cap thresh (batch_at thresh batch count) (count + batch_at thresh batch count) polls"

lemma fills_free: "fills cap thresh batch count polls \<Longrightarrow> list_all free polls"
  by (induction cap thresh batch count polls rule: fills.induct) simp_all

lemma fills_up: "fills cap thresh batch count polls \<Longrightarrow> cap \<le> fill_count thresh batch count polls"
  by (induction cap thresh batch count polls rule: fills.induct) simp_all

lemma fills_coarse:
  "fills cap 0 batch count polls \<Longrightarrow> count < cap + batch \<Longrightarrow> fill_count 0 batch count polls < cap + batch"
  by (induction cap "0 :: nat" batch count polls rule: fills.induct) (simp_all add: batch_at_def)

text \<open>When the single bytes start at least a block before the end, the count is exact.\<close>

lemma fills_exact:
  "fills cap thresh batch count polls \<Longrightarrow> thresh \<noteq> 0 \<Longrightarrow> thresh + batch \<le> cap \<Longrightarrow> 0 < batch \<Longrightarrow> count \<le> cap \<Longrightarrow>
    fill_count thresh batch count polls = cap"
  by (induction cap thresh batch count polls rule: fills.induct) (auto simp: batch_at_def split: if_splits)

context responder
begin

lemma runs_fill_step:
  assumes "free bs" and "0 < batch" and "batch + 4 \<le> 65535"
  shows "\<exists>s. runs (fill_body dops thresh (batch, replicate batch 0xff, count)) (\<lambda>io. (out, io))
    [x_basic bs, tells 0xC0A0 (replicate (batch_at thresh batch count) 0xff)]
    (Inr (Continue (batch_at thresh batch count, replicate (batch_at thresh batch count) 0xff,
      count + batch_at thresh batch count))) (\<lambda>io. (out @ s, io))"
proof -
  let ?b = "batch_at thresh batch count"
  have pair: "(if thresh \<noteq> 0 \<and> thresh \<le> count \<and> batch \<noteq> 1 then (1, resize 1 (replicate batch 0xff))
      else (batch, replicate batch 0xff)) = (?b, replicate ?b 0xff)"
    using assms(2) by (cases batch) (auto simp: batch_at_def resize_def)
  have len: "length (replicate ?b (0xff :: byte)) + 4 \<le> 65535" using assms(3) by (simp add: batch_at_def)
  have bits: "(bs AND IM_DATA_BUSY \<noteq> 0) = False" "(bs AND CMD_BUSY \<noteq> 0) = False" "(bs AND ERROR_BIT \<noteq> 0) = False"
    using assms(1) by (simp_all add: free_def)
  let ?s = "clear_line @ ''Filling: '' @ show_base 10 (count + ?b)"
  have tail: "runs (andthen (say ?s) (ret (Continue (?b, replicate ?b 0xff, count + ?b)))) (\<lambda>io. (out, io)) []
      (Inr (Continue (?b, replicate ?b 0xff, count + ?b))) (\<lambda>io. (out @ ?s, io))"
    by (rule runs_andthen [OF runs_say runs_ret append_Nil [symmetric]])
  have send: "runs (andthen (lift (request dops 0xC0A0 (replicate ?b 0xff)))
        (andthen (say ?s) (ret (Continue (?b, replicate ?b 0xff, count + ?b))))) (\<lambda>io. (out, io))
      [tells 0xC0A0 (replicate ?b 0xff)] (Inr (Continue (?b, replicate ?b 0xff, count + ?b))) (\<lambda>io. (out @ ?s, io))"
    by (rule runs_andthen [OF runs_lift [OF runs_tells [OF len]] tail]) simp
  have "runs (fill_body dops thresh (batch, replicate batch 0xff, count)) (\<lambda>io. (out, io))
      [x_basic bs, tells 0xC0A0 (replicate ?b 0xff)] (Inr (Continue (?b, replicate ?b 0xff, count + ?b)))
      (\<lambda>io. (out @ ?s, io))"
    unfolding fill_body_def prod.case pair IC_VIDEO_DATA_def length_replicate
    by (rule runs_bnd [OF runs_lift [OF runs_basic [of bs]], where u = "[tells 0xC0A0 (replicate ?b 0xff)]"],
        simp only: fst_conv bits if_False) (rule send, simp)
  then show ?thesis by blast
qed

lemma runs_fill:
  assumes "fin AND IM_DATA_BUSY \<noteq> 0"
  shows "list_all free polls \<Longrightarrow> 0 < batch \<Longrightarrow> batch + 4 \<le> 65535 \<Longrightarrow>
    \<exists>s. runs (forever (fill_body dops thresh) (batch, replicate batch 0xff, count)) (\<lambda>io. (out, io))
      (fill_talk thresh batch count polls @ [x_basic fin]) (Inr (fill_count thresh batch count polls))
      (\<lambda>io. (out @ s, io))"
proof (induction thresh batch count polls arbitrary: out rule: fill_count.induct)
  case (1 thresh batch count)
  have "runs (fill_body dops thresh (batch, replicate batch 0xff, count)) (\<lambda>io. (out, io)) [x_basic fin]
      (Inr (Leave count)) (\<lambda>io. (out, io))"
    unfolding fill_body_def prod.case
    by (split prod.split, intro allI impI, rule runs_bnd [OF runs_lift [OF runs_basic], where u = "[]"])
      (use assms in \<open>simp_all add: runs_ret\<close>)
  then have "runs (forever (fill_body dops thresh) (batch, replicate batch 0xff, count)) (\<lambda>io. (out, io))
      [x_basic fin] (Inr count) (\<lambda>io. (out, io))"
    by (rule runs_leave)
  then show ?case by (intro exI [of _ "[]"]) simp
next
  case (2 thresh batch count bs polls)
  let ?b = "batch_at thresh batch count"
  have now: "free bs" using "2.prems"(1) by simp
  obtain s where step: "runs (fill_body dops thresh (batch, replicate batch 0xff, count)) (\<lambda>io. (out, io))
      [x_basic bs, tells 0xC0A0 (replicate ?b 0xff)] (Inr (Continue (?b, replicate ?b 0xff, count + ?b)))
      (\<lambda>io. (out @ s, io))"
    using runs_fill_step [OF now "2.prems"(2,3)] by blast
  have "0 < ?b" "?b + 4 \<le> 65535" using "2.prems" by (simp_all add: batch_at_def)
  with "2.IH" [of "out @ s"] "2.prems"(1) obtain s' where
    "runs (forever (fill_body dops thresh) (?b, replicate ?b 0xff, count + ?b)) (\<lambda>io. (out @ s, io))
      (fill_talk thresh ?b (count + ?b) polls @ [x_basic fin]) (Inr (fill_count thresh ?b (count + ?b) polls))
      (\<lambda>io. ((out @ s) @ s', io))"
    by auto
  from runs_step [OF step this _ refl] show ?case by (intro exI [of _ "s @ s'"]) simp
qed

lemma runs_fillBuffer:
  assumes "fin AND IM_DATA_BUSY \<noteq> 0" and "list_all free polls" and "0 < batch" and "batch + 4 \<le> 65535"
  shows "\<exists>s. runs (fillBuffer dops batch thresh) (\<lambda>io. (out, io)) (fill_talk thresh batch 0 polls @ [x_basic fin])
    (Inr (fill_count thresh batch 0 polls)) (\<lambda>io. (out @ s, io))"
proof -
  obtain s where "runs (forever (fill_body dops thresh) (batch, replicate batch 0xff, 0)) (\<lambda>io. (out, io))
      (fill_talk thresh batch 0 polls @ [x_basic fin]) (Inr (fill_count thresh batch 0 polls)) (\<lambda>io. (out @ s, io))"
    using runs_fill [OF assms] by blast
  moreover have "runs (andthen (say newline) (ret (fill_count thresh batch 0 polls))) (\<lambda>io. (out @ s, io)) []
      (Inr (fill_count thresh batch 0 polls)) (\<lambda>io. ((out @ s) @ newline, io))"
    by (rule runs_andthen [OF runs_say runs_ret append_Nil [symmetric]])
  ultimately have "runs (fillBuffer dops batch thresh) (\<lambda>io. (out, io)) (fill_talk thresh batch 0 polls @ [x_basic fin])
      (Inr (fill_count thresh batch 0 polls)) (\<lambda>io. ((out @ s) @ newline, io))"
    unfolding fillBuffer_def by (rule runs_bnd) simp
  then show ?thesis unfolding append_assoc by blast
qed

end

subsection \<open>The conversation of the program\<close>

definition measure_talk :: "nat \<Rightarrow> byte list \<Rightarrow> byte \<Rightarrow> byte \<Rightarrow> byte list \<Rightarrow> byte \<Rightarrow> exchange list" where
  "measure_talk count polls fin code polls' fin' =
    tells 0xD0A0 (begin_page_payload dummyParams) # fill_talk 0 6144 0 polls @ [x_basic fin, x_code 0xE0A4 code] @
    fill_talk (count - 16 * 1024) 6144 0 polls' @ [x_basic fin']"

definition size_line :: "nat \<Rightarrow> string" where
  "size_line n = ''Video buffer size: '' @ show_base 10 n @ newline"

definition info_talk :: "PrinterInfo \<Rightarrow> byte \<Rightarrow> byte \<Rightarrow> byte \<Rightarrow> ExtendedStatus \<Rightarrow> exchange list" where
  "info_talk i c1 c2 c3 ex = [x_info i, x_code 0xA2A0 0, x_code 0xE0A2 c1, x_code 0xE0A4 c2, x_online 0 c3, x_status ex]"

context responder
begin

lemma runs_info_text:
  "unat (BlockSize i) * unat (Buffers i) < 2 ^ 31 \<Longrightarrow>
    \<exists>s. runs (printPrinterInfo i) (\<lambda>io. (out, io)) [] (Inr ()) (\<lambda>io. (out @ s, io))"
  "2 ^ 31 \<le> unat (BlockSize i) * unat (Buffers i) \<Longrightarrow>
    \<exists>s. runs (printPrinterInfo i) (\<lambda>io. (out, io)) [] (Inl UndefinedBehaviour) (\<lambda>io. (out @ s, io))"
proof -
  have "runs (andthen (say s) (say u)) (\<lambda>io. (out, io)) [] (Inr ()) (\<lambda>io. (out @ (s @ u), io))" for s u
    by (rule runs_pure) (simp add: andthen_def bnd_def say_def)
  then show "\<exists>s. runs (printPrinterInfo i) (\<lambda>io. (out, io)) [] (Inr ()) (\<lambda>io. (out @ s, io))"
    if "unat (BlockSize i) * unat (Buffers i) < 2 ^ 31"
    unfolding printPrinterInfo_def Let_def if_not_P [OF that [unfolded not_le [symmetric]]] by blast
  have "runs (andthen (say s) (raise e)) (\<lambda>io. (out, io)) [] (Inl e) (\<lambda>io. (out @ s, io))" for s e
    by (rule runs_pure) (simp add: andthen_def bnd_def say_def raise_def)
  then show "\<exists>s. runs (printPrinterInfo i) (\<lambda>io. (out, io)) [] (Inl UndefinedBehaviour) (\<lambda>io. (out @ s, io))"
    if "2 ^ 31 \<le> unat (BlockSize i) * unat (Buffers i)"
    unfolding printPrinterInfo_def Let_def if_P [OF that] by blast
qed

lemma runs_measure:
  assumes "fin AND IM_DATA_BUSY \<noteq> 0" and "fin' AND IM_DATA_BUSY \<noteq> 0"
    and "list_all free polls" and "list_all free polls'" and "count = fill_count 0 6144 0 polls" and "16 * 1024 < count"
  shows "\<exists>s. runs (measure_buffer dops) (\<lambda>io. (out, io)) (measure_talk count polls fin code polls' fin') (Inr 0)
    (\<lambda>io. (out @ s @ size_line (fill_count (count - 16 * 1024) 6144 0 polls'), io))"
proof -
  let ?m1 = "''Filling video buffer: pass 1...'' @ newline" and ?m2 = "''Filling video buffer: pass 2...'' @ newline"
  have small6: "0 < (6144 :: nat)" "(6144 :: nat) + 4 \<le> 65535" by simp_all
  obtain s1 where s1: "runs (fillBuffer dops 6144 0) (\<lambda>io. (out @ ?m1, io)) (fill_talk 0 6144 0 polls @ [x_basic fin])
      (Inr count) (\<lambda>io. ((out @ ?m1) @ s1, io))"
    using runs_fillBuffer [OF assms(1,3) small6, where thresh = 0] unfolding assms(5) by blast
  let ?out = "(out @ ?m1) @ s1" and ?n = "fill_count (count - 16 * 1024) 6144 0 polls'"
  obtain s2 where s2: "runs (fillBuffer dops 6144 (count - 16 * 1024)) (\<lambda>io. (?out @ ?m2, io))
      (fill_talk (count - 16 * 1024) 6144 0 polls' @ [x_basic fin']) (Inr ?n) (\<lambda>io. ((?out @ ?m2) @ s2, io))"
    using runs_fillBuffer [OF assms(2,4) small6] by blast
  have small: "length (begin_page_payload dummyParams) + 4 \<le> 65535" by (simp add: length_begin_page_payload)
  have "runs (measure_buffer dops) (\<lambda>io. (out, io))
      ([tells 0xD0A0 (begin_page_payload dummyParams)] @ (fill_talk 0 6144 0 polls @ [x_basic fin]) @
       [x_code 0xE0A4 code] @ (fill_talk (count - 16 * 1024) 6144 0 polls' @ [x_basic fin']))
      (Inr 0) (\<lambda>io. (((?out @ ?m2) @ s2) @ ''Video buffer size: '' @ show_base 10 ?n @ newline, io))"
    unfolding measure_buffer_def IC_BEGIN_PAGE_def PCR_DISCARD_DATA_def
    apply (rule runs_andthen [OF runs_lift [OF runs_tells [OF small]] _ refl])
    apply (rule runs_andthen [OF runs_say _ append_Nil [symmetric]])
    apply (rule runs_bnd [OF s1 _ refl])
    apply (rule runs_andthen [OF runs_assert [OF assms(6)] _ append_Nil [symmetric]])
    apply (rule runs_andthen [OF runs_say _ append_Nil [symmetric]])
    apply (rule runs_andthen [OF runs_lift [OF runs_code] _ refl])
    apply (rule runs_bnd [OF s2 _ append_Nil2 [symmetric]])
    by (rule runs_andthen [OF runs_say runs_ret append_Nil [symmetric]])
  then show ?thesis
    by (intro exI [of _ "?m1 @ s1 @ ?m2 @ s2"]) (simp add: measure_talk_def size_line_def)
qed

lemma runs_printerinfo:
  assumes "unat (BlockSize i) * unat (Buffers i) < 2 ^ 31"
    and "Basic ex AND ERROR_BIT = 0" and "PaperAvailableBits ex = 0" and "Basic ex AND IM_DATA_BUSY = 0"
    and "\<And>out. \<exists>s. runs (measure_buffer dops) (\<lambda>io. (out, io)) t (Inr 0) (\<lambda>io. (out @ s @ text, io))"
  shows "\<exists>s. runs (printerinfo_main dops) (\<lambda>io. ([], io)) (info_talk i c1 c2 c3 ex @ [tells 0xD0A1 []] @ t) (Inr 0)
    (\<lambda>io. (s @ text, io))"
proof -
  obtain s1 where s1: "runs (printPrinterInfo i) (\<lambda>io. ([], io)) [] (Inr ()) (\<lambda>io. (s1, io))"
    using runs_info_text(1) [OF assms(1), of "[]"] by auto
  obtain s2 where s2: "runs (measure_buffer dops) (\<lambda>io. (s1 @ ''Unit reserved'' @ newline, io)) t (Inr 0)
      (\<lambda>io. ((s1 @ ''Unit reserved'' @ newline) @ s2 @ text, io))"
    using assms(5) by blast
  have bits: "((0 :: byte) \<noteq> 0) = False" "(PaperAvailableBits ex \<noteq> 0) = False" "(Basic ex AND IM_DATA_BUSY \<noteq> 0) = False"
    using assms(3,4) by simp_all
  have "runs (printerinfo_main dops) (\<lambda>io. ([], io))
      ([x_info i] @ [x_code 0xA2A0 0] @ [x_code 0xE0A2 c1] @ [x_code 0xE0A4 c2] @ [x_online 0 c3] @ [x_status ex] @
        [tells 0xD0A1 []] @ t) (Inr 0) (\<lambda>io. ((s1 @ ''Unit reserved'' @ newline) @ s2 @ text, io))"
    unfolding printerinfo_main_def PC_RESERVE_UNIT_def PCR_CLEAR_ERROR_def PCR_DISCARD_DATA_def IC_BEGIN_DATA_def
    apply (rule runs_bnd [OF runs_lift [OF runs_info] _ refl])
    apply (rule runs_andthen [OF s1 _ append_Nil [symmetric]])
    apply (rule runs_bnd [OF runs_lift [OF runs_code [where code = 0]] _ refl])
    apply (simp only: bits if_False)
    apply (rule runs_andthen [OF runs_say _ append_Nil [symmetric]])
    apply (rule runs_andthen [OF runs_lift [OF runs_code] _ refl])
    apply (rule runs_andthen [OF runs_lift [OF runs_code] _ refl])
    apply (rule runs_andthen [OF runs_lift [OF runs_online] _ refl])
    apply (rule runs_bnd [OF runs_lift [OF runs_status [OF assms(2)]] _ refl])
    apply (simp only: bits if_False)
    apply (rule runs_andthen [OF runs_lift [OF runs_tells] s2 refl])
    by simp
  then show ?thesis by (intro exI [of _ "s1 @ ''Unit reserved'' @ newline @ s2"]) (simp add: info_talk_def)
qed

end

lemma speaks_fill [simp]: "speaks (fill_talk thresh batch count polls)"
  by (induction thresh batch count polls rule: fill_talk.induct) simp_all

lemma speaks_measure [simp]: "speaks (measure_talk count polls fin code polls' fin')"
  "speaks (info_talk i c1 c2 c3 ex)"
  by (simp_all add: measure_talk_def info_talk_def)

subsection \<open>Properties\<close>

text \<open>
C16. The size of the video buffer. For a printer that takes video data until it has received \<open>cap\<close>
bytes, more than 16384, and then reports that it is busy, in both passes, the program prints exactly \<open>cap\<close>
and returns 0: the first pass, in blocks of 6144 bytes, finds the size up to a block, and the second
changes to single bytes early enough. The information printed before has a product of two
numbers of 16 bits; when it does not fit into \<^verbatim>\<open>int\<close> the behaviour is undefined.
\<close>

theorem buffer_measured:
  assumes "responder dops dok pending sent consumed respond"
    and "Basic ex AND ERROR_BIT = 0" and "PaperAvailableBits ex = 0" and "Basic ex AND IM_DATA_BUSY = 0"
    and "16 * 1024 < cap" and "fills cap 0 6144 0 polls" and "fin AND IM_DATA_BUSY \<noteq> 0"
    and "fills cap (fill_count 0 6144 0 polls - 16 * 1024) 6144 0 polls'" and "fin' AND IM_DATA_BUSY \<noteq> 0"
  shows
    "(unat (BlockSize i) * unat (Buffers i) < 2 ^ 31 \<longrightarrow>
      (\<exists>s. converses dok sent consumed respond (printerinfo_main dops) (\<lambda>io. ([], io))
        (info_talk i c1 c2 c3 ex @ [tells 0xD0A1 []] @ measure_talk (fill_count 0 6144 0 polls) polls fin c4 polls' fin')
        (Inr 0) (\<lambda>io. (s @ size_line cap, io)))) \<and>
     (2 ^ 31 \<le> unat (BlockSize i) * unat (Buffers i) \<longrightarrow>
      (\<exists>s. converses dok sent consumed respond (printerinfo_main dops) (\<lambda>io. ([], io)) [x_info i]
        (Inl UndefinedBehaviour) (\<lambda>io. (s, io))))"
proof (intro conjI impI)
  let ?count = "fill_count 0 6144 0 polls"
  have count: "cap \<le> ?count" "?count < cap + 6144"
    using fills_up [OF assms(6)] fills_coarse [OF assms(6)] assms(5) by simp_all
  have exact: "fill_count (?count - 16 * 1024) 6144 0 polls' = cap"
    using count assms(5) by (intro fills_exact [OF assms(8)]) simp_all
  have "16 * 1024 < ?count" using count(1) assms(5) by simp
  note measure = responder.runs_measure [OF assms(1,7,9) fills_free [OF assms(6)] fills_free [OF assms(8)] refl this,
    unfolded exact]
  show "\<exists>s. converses dok sent consumed respond (printerinfo_main dops) (\<lambda>io. ([], io))
      (info_talk i c1 c2 c3 ex @ [tells 0xD0A1 []] @ measure_talk ?count polls fin c4 polls' fin')
      (Inr 0) (\<lambda>io. (s @ size_line cap, io))" if "unat (BlockSize i) * unat (Buffers i) < 2 ^ 31"
    by (rule responder.runs_printerinfo [OF assms(1) that assms(2-4) measure])
  assume big: "2 ^ 31 \<le> unat (BlockSize i) * unat (Buffers i)"
  obtain s where "converses dok sent consumed respond (printPrinterInfo i) (\<lambda>io. ([], io)) []
      (Inl UndefinedBehaviour) (\<lambda>io. ([] @ s, io))"
    using responder.runs_info_text(2) [OF assms(1) big] by blast
  note ub = responder.runs_andthen_throw [OF assms(1) this]
  have "converses dok sent consumed respond (printerinfo_main dops) (\<lambda>io. ([], io)) [x_info i]
      (Inl UndefinedBehaviour) (\<lambda>io. ([] @ s, io))"
    unfolding printerinfo_main_def
    by (rule responder.runs_bnd [OF assms(1) responder.runs_lift [OF assms(1) responder.runs_info [OF assms(1)]] _
        append_Nil2 [symmetric]]) (rule ub)
  then show "\<exists>s. converses dok sent consumed respond (printerinfo_main dops) (\<lambda>io. ([], io)) [x_info i]
      (Inl UndefinedBehaviour) (\<lambda>io. (s, io))" by blast
qed

text \<open>A printer whose buffer takes 18432 bytes.\<close>

theorem buffer_measured_witness:
  "let i = \<lparr>DeviceId = 0, infoType = 0, VersionMajor = 1, VersionMinor = 0, BlockSize = 9, Buffers = 2048\<rparr>;
       ex = idle_status\<lparr>PaperAvailableBits := 0\<rparr>;
       t = info_talk i 0 0 0 ex @ [tells 0xD0A1 []] @ measure_talk 18432 [0, 0, 0] 8 0 (replicate 12289 0) 8
   in \<exists>s io'. printerinfo_main (sim_ops (respond_of t)) ([], new_sim) = (Inr 0, (s @ size_line 18432, io')) \<and>
     simSent (isDev io') = said t"
proof -
  let ?i = "\<lparr>DeviceId = 0, infoType = 0, VersionMajor = 1, VersionMinor = 0, BlockSize = 9, Buffers = 2048\<rparr>"
  let ?ex = "idle_status\<lparr>PaperAvailableBits := 0\<rparr>"
  let ?t = "info_talk ?i 0 0 0 ?ex @ [tells 0xD0A1 []] @ measure_talk 18432 [0, 0, 0] 8 0 (replicate 12289 0) 8"
  have free: "free 0" and full: "(8 :: byte) AND IM_DATA_BUSY \<noteq> 0" by (simp_all add: free_def status_flags)
  have bits: "Basic ?ex AND ERROR_BIT = 0" "PaperAvailableBits ?ex = 0" "Basic ?ex AND IM_DATA_BUSY = 0"
    by (simp_all add: idle_status_def)
  have one: "fills 18432 2048 b count (replicate k 0)" if "count + k = 18432" "2048 \<le> count" for b count k
    using that by (induction k arbitrary: b count) (simp_all add: batch_at_def free)
  have polls: "fills 18432 0 6144 0 [0, 0, 0]" "fill_count 0 6144 0 [0, 0, 0] = 18432"
    by (simp_all add: batch_at_def free)
  have "fills 18432 2048 6144 0 (0 # replicate 12288 0)"
    using one [of 6144 12288] by (simp add: batch_at_def free)
  moreover have "replicate 12289 (0 :: byte) = 0 # replicate 12288 0" by (simp flip: replicate_Suc)
  ultimately have polls': "fills 18432 2048 6144 0 (replicate 12289 0)" by (simp only:)
  have measure: "16 * 1024 < (18432 :: nat)" "18432 - 16 * 1024 = (2048 :: nat)" "unat (9 :: u16) * unat (2048 :: u16) < 2 ^ 31"
    by simp_all
  have polls'': "fills 18432 (fill_count 0 6144 0 [0, 0, 0] - 16 * 1024) 6144 0 (replicate 12289 0)"
    unfolding polls(2) measure(2) by (rule polls')
  obtain s where "converses (\<lambda>_. True) simSent simRead (respond_of ?t) (printerinfo_main (sim_ops (respond_of ?t)))
      (\<lambda>io. ([], io)) ?t (Inr 0) (\<lambda>io. (s @ size_line 18432, io))"
    using buffer_measured [OF sim.responder_axioms [of "respond_of ?t"] bits measure(1) polls(1) full
        polls'' full, where i = ?i and ?c1.0 = 0 and ?c2.0 = 0 and ?c3.0 = 0 and ?c4.0 = 0]
      measure(3) unfolding polls(2) PrinterInfo.simps by blast
  from sim_run [OF this] show ?thesis by (auto simp: Let_def)
qed

end
