(* ===== verification/File_Stream.thy ===== *)
theory File_Stream
  imports Device Stream_Buffer
begin

text \<open>
  \<^verbatim>\<open>examples/FileStreambuf.hpp\<close>: the stream buffer through which the example
  programs talk to the printer device.

  \<^verbatim>\<open>std::FILE\<close> and its functions are a parameter, \<open>stdio_ops\<close>. The class keeps the
  put area itself: \<open>fsPut\<close> are the bytes from \<^verbatim>\<open>pbase\<close> to
  \<^verbatim>\<open>pptr\<close>, and \<^verbatim>\<open>epptr\<close> is one byte before the end of the
  \<open>fsWbuff\<close> bytes of the vector, so that \<^verbatim>\<open>overflow\<close> has room for its
  character. The get area is the one byte \<^verbatim>\<open>curr\<close>.

  The locale \<open>stdio_printer\<close> is the documented behaviour of the file functions on a file behind
  which a printer answers; under it the class is a device as the protocol layer expects it.
\<close>

subsection \<open>The class\<close>

record 'f stdio_ops =
  sFread :: "nat \<Rightarrow> 'f \<Rightarrow> byte list \<times> 'f"
  sFwrite :: "byte list \<Rightarrow> 'f \<Rightarrow> nat \<times> 'f"
  sFflush :: "'f \<Rightarrow> bool \<times> 'f"
  sFclose :: "'f \<Rightarrow> 'f"

record 'f file_streambuf = getarea +
  fsFile :: "'f option"
  fsWbuff :: nat
  fsPut :: "byte list"

definition newFileStreambuf :: "nat \<Rightarrow> 'f file_streambuf" where
  "newFileStreambuf wbuffsize =
    \<lparr>gdata = [], gpos = 0, fsFile = None, fsWbuff = wbuffsize, fsPut = []\<rparr>"

text \<open>\<^verbatim>\<open>sync() == 0\<close> is the result of \<open>fs_sync\<close>.\<close>

definition fs_sync :: "'f stdio_ops \<Rightarrow> 'f file_streambuf \<Rightarrow> fault + (bool \<times> 'f file_streambuf)" where
  "fs_sync sio b =
    (case fsFile b of
       None \<Rightarrow> Inl AssertionFailed
     | Some f \<Rightarrow>
         if fsPut b \<noteq> [] then
           case sFwrite sio (fsPut b) f of (w, f') \<Rightarrow>
             if w \<noteq> length (fsPut b) then Inr (False, b\<lparr>fsFile := Some f'\<rparr>)
             else case sFflush sio f' of (ok, f'') \<Rightarrow> Inr (ok, b\<lparr>fsFile := Some f'', fsPut := []\<rparr>)
         else case sFflush sio f of (ok, f') \<Rightarrow> Inr (ok, b\<lparr>fsFile := Some f'\<rparr>))"

text \<open>The character is stored behind the put area; past the end of the vector this is undefined.\<close>

definition fs_overflow ::
  "'f stdio_ops \<Rightarrow> byte option \<Rightarrow> 'f file_streambuf \<Rightarrow> fault + (bool \<times> 'f file_streambuf)" where
  "fs_overflow sio c b =
    (case c of
       None \<Rightarrow> fs_sync sio b
     | Some x \<Rightarrow>
         if length (fsPut b) < fsWbuff b then fs_sync sio (b\<lparr>fsPut := fsPut b @ [x]\<rparr>)
         else Inl UndefinedBehaviour)"

definition fs_underflow ::
  "'f stdio_ops \<Rightarrow> 'f file_streambuf \<Rightarrow> fault + (byte option \<times> 'f file_streambuf)" where
  "fs_underflow sio b =
    (case fsFile b of
       None \<Rightarrow> Inl AssertionFailed
     | Some f \<Rightarrow>
         if gpos b < length (gdata b) then Inr (Some (gdata b ! gpos b), b)
         else
           case sFread sio 1 f of (bs, f') \<Rightarrow>
             if length bs \<noteq> 1 then Inr (None, b\<lparr>fsFile := Some f'\<rparr>)
             else Inr (Some (bs ! 0), b\<lparr>fsFile := Some f', gdata := bs, gpos := 0\<rparr>))"

definition fs_xsgetn ::
  "'f stdio_ops \<Rightarrow> nat \<Rightarrow> 'f file_streambuf \<Rightarrow> fault + (byte list \<times> 'f file_streambuf)" where
  "fs_xsgetn sio n b =
    (case fsFile b of
       None \<Rightarrow> Inl AssertionFailed
     | Some f \<Rightarrow>
         if n = 0 then Inr ([], b)
         else case sFread sio n f of (bs, f') \<Rightarrow> Inr (bs, b\<lparr>fsFile := Some f'\<rparr>))"

definition fs_Open :: "'f option \<Rightarrow> 'f file_streambuf \<Rightarrow> bool \<times> 'f file_streambuf" where
  "fs_Open opened b = (opened \<noteq> None, b\<lparr>fsFile := opened\<rparr>)"

text \<open>The closed file and the buffer; what is still in the put area is not written.\<close>

definition fs_Close :: "'f stdio_ops \<Rightarrow> 'f file_streambuf \<Rightarrow> 'f option \<times> 'f file_streambuf" where
  "fs_Close sio b = (map_option (sFclose sio) (fsFile b), b\<lparr>fsFile := None\<rparr>)"

text \<open>
  The members of the base class: \<^verbatim>\<open>sputc\<close> stores into the put area while
  there is room, \<^verbatim>\<open>sputn\<close> puts characters until one fails.
\<close>

definition fs_sputc ::
  "'f stdio_ops \<Rightarrow> byte \<Rightarrow> 'f file_streambuf \<Rightarrow> fault + (bool \<times> 'f file_streambuf)" where
  "fs_sputc sio c b =
    (if length (fsPut b) < fsWbuff b - 1 then Inr (True, b\<lparr>fsPut := fsPut b @ [c]\<rparr>)
     else fs_overflow sio (Some c) b)"

fun fs_xsputn ::
  "'f stdio_ops \<Rightarrow> byte list \<Rightarrow> 'f file_streambuf \<Rightarrow> fault + (nat \<times> 'f file_streambuf)" where
  "fs_xsputn sio [] b = Inr (0, b)"
| "fs_xsputn sio (c # cs) b =
    bindR (fs_sputc sio c b) (\<lambda>(ok, b').
      if ok then bindR (fs_xsputn sio cs b') (\<lambda>(n, b''). Inr (Suc n, b'')) else Inr (0, b'))"

text \<open>
  The class as a device. A fault has no place there; on an open file that behaves there is none
  (\<open>no_faults\<close>).
\<close>

definition or_else :: "'a \<times> 'b \<Rightarrow> fault + ('a \<times> 'b) \<Rightarrow> 'a \<times> 'b" where
  "or_else d r = (case r of Inl _ \<Rightarrow> d | Inr x \<Rightarrow> x)"

lemma or_else_Inr [simp]: "or_else d (Inr x) = x"
  by (simp add: or_else_def)

definition file_ops :: "'f stdio_ops \<Rightarrow> 'f file_streambuf device_ops" where
  "file_ops sio =
    \<lparr>dRead = (\<lambda>n b. or_else ([], b) (fs_xsgetn sio n b)),
     dBump = (\<lambda>b. or_else (None, b) (area_sbumpc (fs_underflow sio) b)),
     dWrite = (\<lambda>bs b. or_else (0, b) (fs_xsputn sio bs b)),
     dSync = (\<lambda>b. or_else (False, b) (fs_sync sio b))\<rparr>"

subsection \<open>On a file that behaves\<close>

definition fs_ok :: "('f \<Rightarrow> bool) \<Rightarrow> 'f file_streambuf \<Rightarrow> bool" where
  "fs_ok fok b \<longleftrightarrow>
    (case fsFile b of None \<Rightarrow> False | Some f \<Rightarrow> fok f) \<and> gpos b = length (gdata b) \<and>
    length (fsPut b) < fsWbuff b"

definition fs_file :: "('f \<Rightarrow> 'a) \<Rightarrow> 'f file_streambuf \<Rightarrow> 'a" where
  "fs_file g b = g (the (fsFile b))"

definition fs_sent :: "('f \<Rightarrow> byte list) \<Rightarrow> 'f file_streambuf \<Rightarrow> byte list" where
  "fs_sent fsent b = fs_file fsent b @ fsPut b"

locale stdio_printer =
  fixes sio :: "'f stdio_ops"
    and fok :: "'f \<Rightarrow> bool"
    and fpending :: "'f \<Rightarrow> byte list"
    and fsent :: "'f \<Rightarrow> byte list"
    and fconsumed :: "'f \<Rightarrow> nat"
    and respond :: "byte list \<Rightarrow> byte list"
  assumes file_read: "fok f \<Longrightarrow> \<exists>f'. sFread sio n f = (take n (fpending f), f') \<and> fok f' \<and>
      fpending f' = drop n (fpending f) \<and> fsent f' = fsent f \<and>
      fconsumed f' = fconsumed f + length (take n (fpending f))"
    and file_write: "fok f \<Longrightarrow> \<exists>f'. sFwrite sio bs f = (length bs, f') \<and> fok f' \<and>
      fsent f' = fsent f @ bs \<and> fconsumed f' = fconsumed f"
    and file_flush: "fok f \<Longrightarrow> \<exists>f'. sFflush sio f = (True, f') \<and> fok f' \<and> fsent f' = fsent f \<and>
      fconsumed f' = fconsumed f \<and> fpending f' = drop (fconsumed f) (respond (fsent f))"
begin

lemma sync_ok:
  assumes "fs_ok fok b \<or> (\<exists>c x. b = c\<lparr>fsPut := fsPut c @ [x]\<rparr> \<and> fs_ok fok c)"
  obtains b' where "fs_sync sio b = Inr (True, b')" "fs_ok fok b'" "fs_sent fsent b' = fs_sent fsent b"
    "fs_file fconsumed b' = fs_file fconsumed b"
    "fs_file fpending b' = drop (fs_file fconsumed b) (respond (fs_sent fsent b))"
proof -
  obtain f where f: "fsFile b = Some f" "fok f" "gpos b = length (gdata b)" "0 < fsWbuff b"
    using assms by (auto simp: fs_ok_def split: option.splits)
  obtain f1 where f1: "sFwrite sio (fsPut b) f = (length (fsPut b), f1)" "fok f1"
    "fsent f1 = fsent f @ fsPut b" "fconsumed f1 = fconsumed f"
    using file_write [OF f(2)] by blast
  obtain g where g: "sFflush sio f = (True, g)" "fok g" "fsent g = fsent f" "fconsumed g = fconsumed f"
    "fpending g = drop (fconsumed f) (respond (fsent f))"
    using file_flush [OF f(2)] by blast
  obtain g1 where g1: "sFflush sio f1 = (True, g1)" "fok g1" "fsent g1 = fsent f1" "fconsumed g1 = fconsumed f1"
    "fpending g1 = drop (fconsumed f1) (respond (fsent f1))"
    using file_flush [OF f1(2)] by blast
  show thesis
  proof (cases "fsPut b = []")
    case True
    with f g show thesis
      by (intro that [of "b\<lparr>fsFile := Some g\<rparr>"]) (simp_all add: fs_sync_def fs_ok_def fs_sent_def fs_file_def)
  next
    case False
    with f f1 g1 show thesis
      by (intro that [of "b\<lparr>fsFile := Some g1, fsPut := []\<rparr>"])
        (simp_all add: fs_sync_def fs_ok_def fs_sent_def fs_file_def)
  qed
qed

lemma sputc_ok:
  assumes "fs_ok fok b"
  obtains b' where "fs_sputc sio c b = Inr (True, b')" "fs_ok fok b'"
    "fs_sent fsent b' = fs_sent fsent b @ [c]" "fs_file fconsumed b' = fs_file fconsumed b"
proof (cases "length (fsPut b) < fsWbuff b - 1")
  case True
  with assms show thesis
    by (intro that [of "b\<lparr>fsPut := fsPut b @ [c]\<rparr>"])
      (auto simp: fs_sputc_def fs_ok_def fs_sent_def fs_file_def)
next
  case False
  let ?b = "b\<lparr>fsPut := fsPut b @ [c]\<rparr>"
  obtain b' where b': "fs_sync sio ?b = Inr (True, b')" "fs_ok fok b'" "fs_sent fsent b' = fs_sent fsent ?b"
    "fs_file fconsumed b' = fs_file fconsumed ?b"
    using sync_ok [of ?b] assms by blast
  show thesis
    by (rule that [of b'])
      (use False assms b' in \<open>simp_all add: fs_sputc_def fs_overflow_def fs_ok_def fs_sent_def fs_file_def\<close>)
qed

lemma xsputn_ok:
  "fs_ok fok b \<Longrightarrow> \<exists>b'. fs_xsputn sio cs b = Inr (length cs, b') \<and> fs_ok fok b' \<and>
    fs_sent fsent b' = fs_sent fsent b @ cs \<and> fs_file fconsumed b' = fs_file fconsumed b"
proof (induction cs arbitrary: b)
  case (Cons c cs)
  obtain b1 where b1: "fs_sputc sio c b = Inr (True, b1)" "fs_ok fok b1"
    "fs_sent fsent b1 = fs_sent fsent b @ [c]" "fs_file fconsumed b1 = fs_file fconsumed b"
    using Cons.prems by (rule sputc_ok)
  with Cons.IH [OF b1(2)] show ?case by auto
qed auto

lemma xsgetn_ok:
  assumes "fs_ok fok b"
  shows "\<exists>b'. fs_xsgetn sio n b = Inr (take n (fs_file fpending b), b') \<and> fs_ok fok b' \<and>
    fs_file fpending b' = drop n (fs_file fpending b) \<and> fs_sent fsent b' = fs_sent fsent b \<and>
    fs_file fconsumed b' = fs_file fconsumed b + length (take n (fs_file fpending b))"
proof -
  obtain f where f: "fsFile b = Some f" "fok f" using assms by (auto simp: fs_ok_def split: option.splits)
  obtain f' where "sFread sio n f = (take n (fpending f), f')" "fok f'" "fpending f' = drop n (fpending f)"
    "fsent f' = fsent f" "fconsumed f' = fconsumed f + length (take n (fpending f))"
    using file_read [OF f(2)] by blast
  with f assms show ?thesis
    by (cases "n = 0") (auto simp: fs_xsgetn_def fs_ok_def fs_sent_def fs_file_def)
qed

lemma sbumpc_ok:
  assumes "fs_ok fok b"
  shows "\<exists>b'. area_sbumpc (fs_underflow sio) b = Inr (hd_opt (fs_file fpending b), b') \<and> fs_ok fok b' \<and>
    fs_file fpending b' = tl (fs_file fpending b) \<and> fs_sent fsent b' = fs_sent fsent b \<and>
    fs_file fconsumed b' = fs_file fconsumed b + (if fs_file fpending b = [] then 0 else 1)"
proof -
  obtain f where f: "fsFile b = Some f" "fok f" using assms by (auto simp: fs_ok_def split: option.splits)
  obtain f' where f': "sFread sio 1 f = (take 1 (fpending f), f')" "fok f'" "fpending f' = drop 1 (fpending f)"
    "fsent f' = fsent f" "fconsumed f' = fconsumed f + length (take 1 (fpending f))"
    using file_read [OF f(2), of 1] by blast
  with f assms show ?thesis
    by (cases "fpending f")
      (auto simp: area_sbumpc_def area_uflow_def fs_underflow_def fs_ok_def fs_sent_def fs_file_def)
qed

end

sublocale stdio_printer \<subseteq> device: responder "file_ops sio" "fs_ok fok" "fs_file fpending" "fs_sent fsent"
  "fs_file fconsumed" respond
proof unfold_locales
  fix b assume b: "fs_ok fok b"
  show "\<exists>b'. dRead (file_ops sio) n b = (take n (fs_file fpending b), b') \<and> fs_ok fok b' \<and>
      fs_file fpending b' = drop n (fs_file fpending b) \<and> fs_sent fsent b' = fs_sent fsent b" for n
    using xsgetn_ok [OF b, of n] by (auto simp: file_ops_def)
  show "\<exists>b'. dBump (file_ops sio) b = (hd_opt (fs_file fpending b), b') \<and> fs_ok fok b' \<and>
      fs_file fpending b' = tl (fs_file fpending b) \<and> fs_sent fsent b' = fs_sent fsent b"
    using sbumpc_ok [OF b] by (auto simp: file_ops_def)
  show "\<exists>b'. dWrite (file_ops sio) bs b = (length bs, b') \<and> fs_ok fok b' \<and>
      fs_sent fsent b' = fs_sent fsent b @ bs" for bs
    using xsputn_ok [OF b, of bs] by (auto simp: file_ops_def)
  show "\<exists>b'. dSync (file_ops sio) b = (True, b') \<and> fs_ok fok b' \<and> fs_sent fsent b' = fs_sent fsent b"
  proof -
    obtain b' where "fs_sync sio b = Inr (True, b')" "fs_ok fok b'" "fs_sent fsent b' = fs_sent fsent b"
      using sync_ok [OF disjI1 [OF b]] by blast
    then show ?thesis by (simp add: file_ops_def)
  qed
  show "fs_file fconsumed b' = fs_file fconsumed b + length bs" if "dRead (file_ops sio) n b = (bs, b')" for n bs b'
    using that xsgetn_ok [OF b, of n] by (auto simp: file_ops_def)
  show "fs_file fconsumed b' = (case c of None \<Rightarrow> fs_file fconsumed b | Some _ \<Rightarrow> Suc (fs_file fconsumed b))"
    if "dBump (file_ops sio) b = (c, b')" for c b'
    using that sbumpc_ok [OF b] by (cases "fs_file fpending b") (auto simp: file_ops_def)
  show "fs_file fconsumed b' = fs_file fconsumed b" if "dWrite (file_ops sio) bs b = (n, b')" for bs n b'
    using that xsputn_ok [OF b, of bs] by (auto simp: file_ops_def)
  show "fs_file fconsumed b' = fs_file fconsumed b \<and>
      fs_file fpending b' = drop (fs_file fconsumed b) (respond (fs_sent fsent b))"
    if "dSync (file_ops sio) b = (r, b')" for r b'
  proof -
    obtain b2 where "fs_sync sio b = Inr (True, b2)" "fs_file fconsumed b2 = fs_file fconsumed b"
      "fs_file fpending b2 = drop (fs_file fconsumed b) (respond (fs_sent fsent b))"
      using sync_ok [OF disjI1 [OF b]] by blast
    with that show ?thesis by (simp add: file_ops_def)
  qed
qed

context stdio_printer
begin

lemma device_of: "responder (file_ops sio) (fs_ok fok) (fs_file fpending) (fs_sent fsent) (fs_file fconsumed) respond"
  by (rule device.responder_axioms)

end

subsection \<open>A file in front of a simulated printer\<close>

definition sim_stdio :: "(byte list \<Rightarrow> byte list) \<Rightarrow> sim stdio_ops" where
  "sim_stdio respond =
    \<lparr>sFread = dRead (sim_ops respond), sFwrite = dWrite (sim_ops respond),
     sFflush = dSync (sim_ops respond), sFclose = (\<lambda>f. f)\<rparr>"

interpretation sim_file: stdio_printer "sim_stdio respond" "\<lambda>_. True" simIn simSent simRead respond for respond
  by unfold_locales (auto simp: sim_stdio_def sim_ops_def)

definition new_sim_file :: "nat \<Rightarrow> sim file_streambuf iostream" where
  "new_sim_file n = \<lparr>isGood = True, isDev = snd (fs_Open (Some (isDev new_sim)) (newFileStreambuf n))\<rparr>"

subsection \<open>Properties\<close>



text \<open>
C31. Where the class goes wrong. Without an open file every operation that needs it fails its
assertion. When the file accepts nothing, the write that fills the vector fails and leaves
the put area one past its end, and the next character is stored outside the vector. A block
read goes past a byte that was only looked at, so that byte comes after the ones behind it.
Closing forgets what was not flushed: it goes to the file that is opened next.
\<close>

theorem file_stream_hazards:
  assumes "\<And>bs f. sFwrite deaf bs f = (0, f)" and "0 < n" and "length bs = n - 1"
    and "\<And>k f. sFread talking k f = (take k f, drop k f)"
  shows
    "fs_sync sio (newFileStreambuf n) = Inl AssertionFailed \<and>
     fs_underflow sio (newFileStreambuf n) = Inl AssertionFailed \<and>
     fs_xsgetn sio k (newFileStreambuf n) = Inl AssertionFailed \<and>
     (let full = snd (fs_Open (Some f) (newFileStreambuf n))\<lparr>fsPut := bs @ [x]\<rparr>
      in fs_sputc deaf x (full\<lparr>fsPut := bs\<rparr>) = Inr (False, full) \<and>
         fs_sputc deaf y full = Inl UndefinedBehaviour) \<and>
     (\<exists>b. area_sgetc (fs_underflow talking) (snd (fs_Open (Some (x # y # rest)) (newFileStreambuf n))) = Inr (Some x, b) \<and>
       (\<exists>b'. fs_xsgetn talking 1 b = Inr ([y], b') \<and>
         (\<exists>b''. area_sbumpc (fs_underflow talking) b' = Inr (Some x, b'')))) \<and>
     fsPut (snd (fs_Open (Some g) (snd (fs_Close sio b)))) = fsPut b"
  using assms(2,3)
  by (auto simp: fs_sync_def fs_underflow_def fs_xsgetn_def fs_Open_def newFileStreambuf_def fs_sputc_def
      fs_overflow_def area_sgetc_def area_sbumpc_def fs_Close_def Let_def assms(1,4))

definition deaf_file :: "byte list stdio_ops" where
  "deaf_file = \<lparr>sFread = \<lambda>k f. (take k f, drop k f), sFwrite = \<lambda>bs f. (0, f),
    sFflush = \<lambda>f. (True, f), sFclose = \<lambda>f. f\<rparr>"

theorem file_stream_hazards_witness:
  "fs_sputc deaf_file 9 ((snd (fs_Open (Some []) (newFileStreambuf 2)))\<lparr>fsPut := [7, 8]\<rparr>) = Inl UndefinedBehaviour"
proof -
  have "sFwrite deaf_file bs f = (0, f)" "sFread deaf_file k f = (take k f, drop k f)" for bs f k
    by (simp_all add: deaf_file_def)
  from file_stream_hazards [OF this(1) _ _ this(2), where n = 2 and bs = "[7]" and x = 8 and y = 9 and f = "[]"
      and sio = deaf_file and k = 0 and rest = "[]" and g = "[]" and b = "newFileStreambuf 1"]
  show ?thesis by (simp add: Let_def)
qed

end
