(* ===== verification/Programs.thy ===== *)
theory Programs
  imports Well_Sent Print_File Get_Status Printer_Info File_Stream
begin

text \<open>
  The example programs as a whole: \<^verbatim>\<open>main\<close> of \<^verbatim>\<open>examples/getstatus.cpp\<close>,
  \<^verbatim>\<open>printerinfo.cpp\<close> and \<^verbatim>\<open>printpbm.cpp\<close>, with the arguments, the
  files they open and the destructor that closes the printer device.

  \<^verbatim>\<open>fopen\<close> and the opening of the PBM file are parameters: what each gives for a name
  (and a mode). A program has an exit code or a fault, its standard output and the
  printer device as it is after closing, if it was opened. The signal handler is the
  number of checks after which it comes; what it prints is left out.

  The first part continues \<open>Well_Sent\<close>: every operation of the programs keeps what is sent well
  typed.
\<close>

subsection \<open>The programs\<close>

type_synonym 'f run = "(fault + nat) \<times> string \<times> 'f option"

definition usage :: "string list \<Rightarrow> string \<Rightarrow> 'f run" where
  "usage argv args =
    (case argv of
       [] \<Rightarrow> (Inl UndefinedBehaviour, [], None)
     | prog # _ \<Rightarrow> (Inr 1, ''Usage: '' @ prog @ args @ newline, None))"

definition printer_program ::
  "'f stdio_ops \<Rightarrow> (string \<Rightarrow> string \<Rightarrow> 'f option) \<Rightarrow> string \<Rightarrow>
    ('f file_streambuf iostream \<Rightarrow> (fault + nat) \<times> string \<times> 'f file_streambuf iostream) \<Rightarrow> 'f run" where
  "printer_program sio fopen path body =
    (case fs_Open (fopen path ''r+'') (newFileStreambuf 4096) of (ok, fs) \<Rightarrow>
       if \<not> ok then (Inr 1, ''Failed to open printer stream'' @ newline, fst (fs_Close sio fs))
       else case body \<lparr>isGood = True, isDev = fs\<rparr> of (r, text, io) \<Rightarrow>
         (r, text, fst (fs_Close sio (isDev io))))"

definition getstatus_program ::
  "'f stdio_ops \<Rightarrow> (string \<Rightarrow> string \<Rightarrow> 'f option) \<Rightarrow> string list \<Rightarrow> 'f run" where
  "getstatus_program sio fopen argv =
    (if length argv \<noteq> 2 then usage argv '' printerdev''
     else printer_program sio fopen (argv ! 1) (\<lambda>io. getstatus_main (file_ops sio) ([], io)))"

definition printerinfo_program ::
  "'f stdio_ops \<Rightarrow> (string \<Rightarrow> string \<Rightarrow> 'f option) \<Rightarrow> string list \<Rightarrow> 'f run" where
  "printerinfo_program sio fopen argv =
    (if length argv \<noteq> 2 then usage argv '' printerdev''
     else printer_program sio fopen (argv ! 1) (\<lambda>io. printerinfo_main (file_ops sio) ([], io)))"

definition printpbm_program ::
  "'f stdio_ops \<Rightarrow> (string \<Rightarrow> string \<Rightarrow> 'f option) \<Rightarrow> (string \<Rightarrow> byte list option) \<Rightarrow> nat option \<Rightarrow> PageParams \<Rightarrow>
    string list \<Rightarrow> 'f run" where
  "printpbm_program sio fopen pbmOpen stops uninit argv =
    (if length argv \<noteq> 3 then usage argv '' printerdev pbmfile''
     else printer_program sio fopen (argv ! 1) (\<lambda>io.
       case pbmOpen (argv ! 2) of
         None \<Rightarrow> (Inr 1, ''Failed to open PBM stream'' @ newline, io)
       | Some bytes \<Rightarrow>
           (case print_file (file_ops sio) StopSource uninit
               (\<lparr>inBytes = bytes, inEof = False, inFail = False\<rparr>,
                \<lparr>prStream = io, cachedInfo = None, stopAfter = stops, console = []\<rparr>) of
              (r, (_, w)) \<Rightarrow> (r, console w, prStream w))))"

subsection \<open>The operations of the programs keep what is sent well typed\<close>

text \<open>The invariant of a printer object.\<close>

definition through :: "('d iostream \<Rightarrow> bool) \<Rightarrow> ('d, 'z) printer_scheme \<Rightarrow> bool" where
  "through I p \<longleftrightarrow> I (prStream p)"

lemma keeps_on_stream [keep_rules]: "keeps I m \<Longrightarrow> keeps (through I) (on_stream m)"
  by (fastforce simp: keeps_def through_def on_stream_def split: prod.splits)

lemma keeps_token [keep_rules]:
  "keeps (through I) (stop_requested tok :: (('d, 'z) session_scheme, bool) act)"
  by (auto simp: keeps_def stop_requested_def source_stop_requested_def through_def ret_def
      split: StopToken.split option.split nat.split)

lemma keeps_put [keep_rules]: "keeps (through I) (put s :: (('d, 'z) shell_scheme, unit) act)"
  by (simp add: keeps_def put_def through_def)

lemma keeps_say [keep_rules]: "keeps (beside I) (say s)"
  by (simp add: keeps_def say_def beside_def)

lemma keeps_checkRetcode [keep_rules]: "keeps I (checkRetcode code name)"
  unfolding checkRetcode_def by (intro keep_rules)

lemma keeps_CHECK_RETCODE [keep_rules]: "keeps I m \<Longrightarrow> keeps (through I) (CHECK_RETCODE m name)"
  unfolding CHECK_RETCODE_def by (intro keep_rules)

lemma keeps_video_read [keep_rules]: "keeps (beside I) (video_read vio n)"
  by (auto simp: keeps_def video_read_def beside_def split: sum.split prod.split)

lemma keeps_page_parts [keep_rules]:
  "keeps (beside I) has_prev" "keeps (beside I) page_rewind" "keeps (beside I) page_labels"
  by (auto simp: keeps_def has_prev_def page_rewind_def page_labels_def split: sum.split)

lemma keeps_with_page [keep_rules]: "keeps (beside I) m \<Longrightarrow> keeps (beside I) (with_page old m)"
  unfolding keeps_def with_page_def beside_def
  by (auto split: prod.splits option.splits if_splits) (metis snd_conv)+

context sink
begin

abbreviation sends_on :: "('d, 'z) printer_scheme \<Rightarrow> bool" where
  "sends_on \<equiv> through sends"

lemma keeps_GetStatus [keep_rules]: "keeps sends_on (GetStatus dops)"
  unfolding GetStatus_def by (intro keep_rules)

lemma keeps_GetPrinterInfo [keep_rules]:
  "keeps sends_on (GetPrinterInfo dops :: (('d, 'z) printer_scheme, PrinterInfo) act)"
proof -
  have "keeps sends_on (bnd (on_stream (PC_GET_PRINTER_INFO dops))
      (\<lambda>i p :: ('d, 'z) printer_scheme. (Inr i, p\<lparr>cachedInfo := Some i\<rparr>)))"
    by (rule keeps_bnd) (intro keep_rules, simp add: keeps_def through_def)
  then show ?thesis by (auto simp: keeps_def GetPrinterInfo_def split: option.split)
qed

lemma keeps_unit [keep_rules]:
  "keeps sends_on (ReserveUnit dops)" "keeps sends_on (ClearError dops status)" "keeps sends_on (GoOnline dops page)"
  "keeps sends_on (GoOffline dops)" "keeps sends_on (ReleaseUnit dops)"
  unfolding ReserveUnit_def ClearError_def GoOnline_def GoOffline_def ReleaseUnit_def
  by (intro keep_rules)+

lemma keeps_poll [keep_rules]: "keeps sends_on (poll_body dops stopToken u :: (('d, 'z) session_scheme, (unit, bool) ctrl) act)"
  unfolding poll_body_def by (intro keep_rules)

lemma keeps_WriteVideoData [keep_rules]:
  "keeps (beside sends_on) (WriteVideoDataDefault dops vio params blockSize :: ('s \<times> ('d, 'z) session_scheme, bool) act)"
  unfolding WriteVideoDataDefault_def WriteVideoData_def video_body_def by (intro keep_rules)

lemma keeps_WaitPrintEnd [keep_rules]:
  "keeps sends_on (WaitPrintEnd dops stopToken :: (('d, 'z) session_scheme, ExtendedStatus option) act)"
  unfolding WaitPrintEnd_def WaitStatus_def wait_body_def by (intro keep_rules)

lemma keeps_prepare [keep_rules]:
  "keeps sends_on (prepareBeforePrint dops stopToken page :: (('d, 'z) shell_scheme, unit) act)"
  unfolding prepareBeforePrint_def prepare_body_def waitReady_def wait_ready_body_def next_status_def
  by (intro keep_rules)

lemma keeps_writePage:
  "keeps (beside sends_on) (writePage dops vio stopToken ::
    (('s buffered_page \<times> 's buffered_page option) \<times> ('d, 'z) shell_scheme, bool) act)"
  unfolding writePage_def write_page_body_def after_write_def by (intro keep_rules)

lemma keeps_alone [keep_rules]: "keeps (beside I) m \<Longrightarrow> keeps (beside I) (alone m)"
  unfolding keeps_def alone_def beside_def by (auto split: prod.splits) (metis snd_conv)

lemma keeps_waitLastPage:
  "keeps (beside sends_on) (waitLastPage dops vio stopToken :: ('s buffered_page \<times> ('d, 'z) shell_scheme, bool) act)"
  unfolding waitLastPage_def last_page_body_def by (intro keep_rules keeps_writePage)

lemma keeps_on_last_page [keep_rules]: "keeps (beside I) m \<Longrightarrow> keeps (beside I) (on_last_page m page)"
  unfolding keeps_def on_last_page_def beside_def by (auto split: prod.splits) (metis snd_conv)

lemma keeps_write_next_page [keep_rules]:
  "keeps (beside sends_on) (write_next_page dops stopToken page params prevPage ::
    (istream \<times> ('d, 'z) shell_scheme, bool \<times> pbm_page) act)"
proof (rule keepsI)
  fix s :: "istream \<times> ('d, 'z) shell_scheme"
  assume "beside sends_on s"
  let ?ss = "newScoaStreambuf (inBytes (fst s)) (unat (ImageLineSize params)) (unat (ImageLines params))"
  let ?start = "((newBufferedPage page params (Some ?ss) 4096, if page = 0 then None else Some prevPage), snd s)"
  obtain r p q w where run: "writePage dops (area_ops (scoa_underflow memory_ops)) stopToken ?start = (r, ((p, q), w))"
    by (cases "writePage dops (area_ops (scoa_underflow memory_ops)) stopToken ?start") auto
  from keepsD [OF keeps_writePage _ this] \<open>beside sends_on s\<close> have "sends_on w" by (simp add: beside_def)
  then show "beside sends_on (snd (write_next_page dops stopToken page params prevPage s))"
    by (simp add: write_next_page_def run)
qed

lemma keeps_main_body [keep_rules]:
  "keeps (beside sends_on) (main_body dops stopToken local ::
    (istream \<times> ('d, 'z) shell_scheme, (nat \<times> pbm_page, (nat \<times> pbm_page) option) ctrl) act)"
proof -
  have "keeps (beside sends_on) (\<lambda>(pbm, w :: ('d, 'z) shell_scheme). case ReadHeader pbm of (r, pbm') \<Rightarrow> (r, (pbm', w)))"
    by (auto simp: keeps_def beside_def split: prod.splits)
  then show ?thesis unfolding main_body_def by (intro keep_rules)
qed

lemma keeps_print_file:
  "keeps (beside sends_on) (print_file dops stopToken uninit :: (istream \<times> ('d, 'z) shell_scheme, nat) act)"
  unfolding print_file_def by (intro keep_rules keeps_waitLastPage)

lemma keeps_getstatus: "keeps (beside sends) (getstatus_main dops)"
  unfolding getstatus_main_def by (intro keep_rules)

lemma keeps_printPrinterInfo [keep_rules]: "keeps (beside I) (printPrinterInfo info)"
  unfolding printPrinterInfo_def Let_def by (intro keep_rules)

lemma keeps_fillBuffer [keep_rules]: "keeps (beside sends) (fillBuffer dops batchSize thresh)"
  unfolding fillBuffer_def fill_body_def by (intro keep_rules)

lemma keeps_printerinfo: "keeps (beside sends) (printerinfo_main dops)"
  unfolding printerinfo_main_def measure_buffer_def by (intro keep_rules)

end

subsection \<open>A program that succeeds leaves a good stream\<close>

lemma returns_say: "returns (beside P) (say s) (\<lambda>_. beside P)"
  by (auto simp: returns_def say_def)

lemma returns_on_stream: "returns (\<lambda>_. True) m Q \<Longrightarrow> returns P (on_stream m) (\<lambda>x p. Q x (prStream p))"
  by (fastforce simp: returns_def on_stream_def split: prod.splits)

lemma returns_GetStatus: "returns P (GetStatus dops) (\<lambda>_ p. isGood (prStream p))"
  unfolding GetStatus_def by (intro returns_on_stream queries_good)

lemma getstatus_good: "returns P (getstatus_main dops) (\<lambda>code s. code = 0 \<longrightarrow> beside isGood s)"
  unfolding getstatus_main_def
  by (rule returns_bnd [OF returns_lift [OF queries_good(1)]], rule returns_andthen [OF returns_say], rule returns_ret) simp

lemma fill_body_good:
  "returns P (fill_body dops thresh local) (\<lambda>c s. \<forall>x. c = Leave x \<longrightarrow> beside isGood s)"
proof (cases local)
  case (fields batchSize buffer count)
  have leave: "returns (beside isGood) (andthen (say s) (ret (Leave y))) (\<lambda>c s. \<forall>x. c = Leave x \<longrightarrow> beside isGood s)"
    for s :: string and y :: nat
    by (rule returns_andthen [OF returns_say]) (simp add: returns_ret)
  show ?thesis
    unfolding fields fill_body_def prod.case
    by (split prod.split, intro allI impI, rule returns_bnd [OF returns_lift [OF queries_good(2)]],
        intro returns_if leave returns_andthen_last returns_ret) simp_all
qed

lemma fillBuffer_good: "returns P (fillBuffer dops batchSize thresh) (\<lambda>_. beside isGood)"
  unfolding fillBuffer_def
  by (rule returns_bnd [OF returns_forever [OF fill_body_good]], rule returns_andthen [OF returns_say], rule returns_ret)

lemma printerinfo_good: "returns P (printerinfo_main dops) (\<lambda>code s. code = 0 \<longrightarrow> beside isGood s)"
proof -
  have fin: "returns (beside isGood) (andthen (say s) (ret 0)) (\<lambda>code s. code = 0 \<longrightarrow> beside isGood s)"
    for s :: string
    by (rule returns_andthen [OF returns_say]) (simp add: returns_ret)
  have measure: "returns P (measure_buffer dops) (\<lambda>code s. code = 0 \<longrightarrow> beside isGood s)" for P
    unfolding measure_buffer_def
    by (intro returns_andthen_last returns_bnd_last returns_bnd [OF fillBuffer_good fin])
  show ?thesis
    unfolding printerinfo_main_def
    apply (rule returns_bnd_last, rule returns_andthen_last, rule returns_bnd_last)
    apply (rule returns_if)
     apply (rule returns_andthen_last, simp add: returns_ret)
    apply (rule returns_andthen_last, rule returns_andthen_last, rule returns_andthen_last, rule returns_andthen_last)
    apply (rule returns_bnd [OF returns_lift [OF queries_good(1)]])
    apply (rule returns_if [OF fin])
    apply (rule returns_andthen_last)
    by (rule returns_if [OF _ measure], rule returns_andthen_last) (simp add: returns_ret)
qed

lemma ReleaseUnit_good: "returns P (ReleaseUnit dops) (\<lambda>_ p. isGood (prStream p))"
  unfolding ReleaseUnit_def
  by (rule returns_bnd [OF returns_GetStatus], intro returns_if returns_ret returns_andthen_last
      returns_bnd [OF returns_GetStatus] returns_raise)

lemma print_file_good:
  "returns P (print_file dops stopToken uninit :: (istream \<times> ('d, 'z) shell_scheme, nat) act)
    (\<lambda>code s. code = 0 \<longrightarrow> isGood (prStream (snd s)))"
proof -
  have bad: "returns P (ret (1 :: nat)) (\<lambda>code s. code = 0 \<longrightarrow> isGood (prStream (snd s)))"
    for P :: "istream \<times> ('d, 'z) shell_scheme \<Rightarrow> bool"
    by (rule returns_ret) simp
  have fin: "returns P (andthen (lift (ReleaseUnit dops)) (ret 0)) (\<lambda>code s. code = 0 \<longrightarrow> isGood (prStream (snd s)))"
    for P :: "istream \<times> ('d, 'z) shell_scheme \<Rightarrow> bool"
    by (rule returns_andthen [OF returns_lift [OF ReleaseUnit_good]], rule returns_ret) (simp add: beside_def)
  show ?thesis
    unfolding print_file_def
    apply (rule returns_andthen_last, rule returns_andthen_last, rule returns_bnd_last)
    apply (split option.split, intro conjI impI allI bad)
    apply (split prod.split, intro impI allI)
    apply (rule returns_bnd_last, rule returns_if)
     apply (rule returns_andthen_last, rule bad)
    by (rule returns_andthen_last, rule fin)
qed

subsection \<open>Files\<close>

text \<open>What is assumed of the functions for files: \<open>fsent\<close> is what has been written.\<close>

locale file_sink =
  fixes sio :: "'f stdio_ops"
    and fsent :: "'f \<Rightarrow> byte list"
  assumes fread_sent: "fsent (snd (sFread sio n f)) = fsent f"
    and fwrite_sent: "sFwrite sio bs f = (n, f') \<Longrightarrow> fsent f' = fsent f @ take n bs"
    and fflush_sent: "fsent (snd (sFflush sio f)) = fsent f"
    and fclose_sent: "fsent (sFclose sio f) = fsent f"
begin

definition reached :: "'f file_streambuf \<Rightarrow> byte list" where
  "reached b = (case fsFile b of None \<Rightarrow> [] | Some f \<Rightarrow> fsent f)"

definition taken :: "'f file_streambuf \<Rightarrow> byte list" where
  "taken b = reached b @ fsPut b"

lemma sync_sink:
  assumes "fs_sync sio b = Inr (ok, b')"
  shows "prefix (reached b') (taken b)" and "ok \<Longrightarrow> reached b' = taken b \<and> taken b' = taken b"
proof -
  obtain f where f: "fsFile b = Some f" using assms by (auto simp: fs_sync_def split: option.splits)
  obtain n f1 where w: "sFwrite sio (fsPut b) f = (n, f1)" by fastforce
  obtain r g where g: "sFflush sio f1 = (r, g)" by fastforce
  obtain r' g' where g': "sFflush sio f = (r', g')" by fastforce
  have sent: "fsent f1 = fsent f @ take n (fsPut b)" "fsent g = fsent f1" "fsent g' = fsent f"
    using fwrite_sent [OF w] fflush_sent [of f1] fflush_sent [of f] g g' by simp_all
  show "prefix (reached b') (taken b)"
    using assms f w g g' sent by (auto simp: fs_sync_def reached_def taken_def take_is_prefix split: if_splits)
  show "reached b' = taken b \<and> taken b' = taken b" if ok
    using assms f w g g' sent that by (auto simp: fs_sync_def reached_def taken_def split: if_splits)
qed

lemma sputc_sink:
  assumes "fs_sputc sio c b = Inr (ok, b')"
  shows "prefix (reached b') (taken b @ [c])" and "ok \<Longrightarrow> taken b' = taken b @ [c]"
proof -
  let ?b = "b\<lparr>fsPut := fsPut b @ [c]\<rparr>"
  have b: "taken ?b = taken b @ [c]" "reached ?b = reached b" by (simp_all add: taken_def reached_def)
  have "ok \<and> b' = ?b \<or> fs_sync sio ?b = Inr (ok, b')"
    using assms by (auto simp: fs_sputc_def fs_overflow_def split: if_splits)
  then show "prefix (reached b') (taken b @ [c])" "ok \<Longrightarrow> taken b' = taken b @ [c]"
    using sync_sink [of ?b ok b'] b by (auto simp: taken_def)
qed

lemma xsputn_sink:
  "fs_xsputn sio bs b = Inr (n, b') \<Longrightarrow>
    prefix (reached b') (taken b @ bs) \<and> (n = length bs \<longrightarrow> taken b' = taken b @ bs)"
proof (induction bs arbitrary: b n)
  case Nil
  then show ?case by (auto simp: taken_def)
next
  case (Cons c cs)
  obtain ok b1 where b1: "fs_sputc sio c b = Inr (ok, b1)" using Cons.prems by (auto simp: bindR_def split: sum.splits)
  show ?case
  proof (cases ok)
    case True
    obtain m where m: "fs_xsputn sio cs b1 = Inr (m, b')" "n = Suc m"
      using Cons.prems b1 True by (auto simp: bindR_def split: sum.splits)
    with Cons.IH [OF m(1)] sputc_sink(2) [OF b1 True] show ?thesis by simp
  next
    case False
    have "prefix (taken b @ [c]) (taken b @ c # cs)" by (simp add: prefix_def)
    with Cons.prems b1 False sputc_sink(1) [OF b1] show ?thesis by (auto intro: prefix_order.trans)
  qed
qed

lemma underflow_sink:
  assumes "fs_underflow sio b = Inr (c, b')"
  shows "reached b' = reached b" and "taken b' = taken b"
proof -
  obtain f where f: "fsFile b = Some f" using assms by (auto simp: fs_underflow_def split: option.splits)
  obtain bs f' where r: "sFread sio 1 f = (bs, f')" by fastforce
  have "fsent f' = fsent f" using fread_sent [of 1 f] r by simp
  with assms f r have "reached b' = reached b \<and> fsPut b' = fsPut b"
    by (auto simp: fs_underflow_def reached_def split: if_splits)
  then show "reached b' = reached b" "taken b' = taken b" by (simp_all add: taken_def)
qed

lemma gpos_sink [simp]: "reached (b\<lparr>gpos := n\<rparr>) = reached b" "taken (b\<lparr>gpos := n\<rparr>) = taken b"
  by (simp_all add: reached_def taken_def)

lemma sbumpc_sink:
  assumes "area_sbumpc (fs_underflow sio) b = Inr (c, b')"
  shows "reached b' = reached b" and "taken b' = taken b"
proof -
  consider (ready) "b' = b\<lparr>gpos := Suc (gpos b)\<rparr>"
    | (none) "fs_underflow sio b = Inr (None, b')"
    | (some) x b1 where "fs_underflow sio b = Inr (Some x, b1)" "b' = b1\<lparr>gpos := Suc (gpos b1)\<rparr>"
    using assms by (auto simp: area_sbumpc_def area_uflow_def bindR_def split: if_splits sum.splits option.splits)
  then have "reached b' = reached b \<and> taken b' = taken b"
    by cases (use underflow_sink in auto)
  then show "reached b' = reached b" "taken b' = taken b" by simp_all
qed

end

sublocale file_sink \<subseteq> buffered: sink "file_ops sio" taken reached
proof unfold_locales
  fix b b' :: "'f file_streambuf" and bs :: "byte list" and n :: nat and ok :: bool
  show "prefix (reached b) (taken b)" by (simp add: taken_def)
  show "taken (snd (dRead (file_ops sio) n b)) = taken b" "reached (snd (dRead (file_ops sio) n b)) = reached b"
    using fread_sent by (auto simp: file_ops_def or_else_def fs_xsgetn_def taken_def reached_def
        split: option.splits prod.splits sum.splits) (metis snd_conv)+
  show "taken (snd (dBump (file_ops sio) b)) = taken b" "reached (snd (dBump (file_ops sio) b)) = reached b"
    using sbumpc_sink by (auto simp: file_ops_def or_else_def split: sum.splits)
  show "taken b' = taken b @ bs" if "dWrite (file_ops sio) bs b = (n, b')" "n = length bs"
    using that xsputn_sink [of bs b n b']
    by (cases bs) (auto simp: file_ops_def or_else_def split: sum.splits)
  show "prefix (reached b') (taken b @ bs)" if "dWrite (file_ops sio) bs b = (n, b')"
    using that xsputn_sink [of bs b n b'] by (auto simp: file_ops_def or_else_def taken_def split: sum.splits)
  show "taken b' = taken b \<and> reached b' = taken b" if "dSync (file_ops sio) b = (True, b')"
    using that sync_sink(2) by (auto simp: file_ops_def or_else_def split: sum.splits)
  show "prefix (reached b') (taken b)" if "dSync (file_ops sio) b = (ok, b')"
    using that sync_sink(1) by (auto simp: file_ops_def or_else_def taken_def split: sum.splits)
qed

interpretation sim_file_sink: file_sink "sim_stdio respond" simSent for respond
  by unfold_locales (auto simp: sim_stdio_def sim_ops_def)

subsection \<open>What reaches the printer\<close>

definition run_typed :: "('f \<Rightarrow> byte list) \<Rightarrow> 'f run \<Rightarrow> bool" where
  "run_typed fsent run \<longleftrightarrow>
    (case snd (snd run) of
       None \<Rightarrow> True
     | Some f \<Rightarrow> (\<exists>more. typed (fsent f @ more)) \<and> (fst run = Inr 0 \<longrightarrow> typed (fsent f)))"

lemma usage_typed: "run_typed fsent (usage argv args)"
  by (simp add: run_typed_def usage_def split: list.split)

lemma usage_or_typed: "run_typed fsent run \<Longrightarrow> run_typed fsent (if c then usage argv args else run)"
  by (simp add: usage_typed)

context file_sink
begin

abbreviation sends_to_file :: "'f file_streambuf iostream \<Rightarrow> bool" where
  "sends_to_file \<equiv> well_sent taken reached"

lemma opened_sends:
  assumes "fsent f = []"
  shows "sends_to_file \<lparr>isGood = True, isDev = snd (fs_Open (Some f) (newFileStreambuf n))\<rparr>"
  using assms by (auto simp: well_sent_def taken_def reached_def fs_Open_def newFileStreambuf_def intro: exI [of _ "[]"])

lemma program_typed:
  assumes "\<And>path mode f. fopen path mode = Some f \<Longrightarrow> fsent f = []"
    and "\<And>io r out io'. sends_to_file io \<Longrightarrow> body io = (r, out, io') \<Longrightarrow> sends_to_file io' \<and> (r = Inr 0 \<longrightarrow> isGood io')"
  shows "run_typed fsent (printer_program sio fopen path body)"
proof (cases "fopen path ''r+''")
  case None
  then show ?thesis
    by (simp add: run_typed_def printer_program_def fs_Open_def fs_Close_def newFileStreambuf_def)
next
  case (Some f)
  let ?fs = "snd (fs_Open (Some f) (newFileStreambuf 4096))"
  obtain r out io where run: "body \<lparr>isGood = True, isDev = ?fs\<rparr> = (r, out, io)" by (cases "body \<lparr>isGood = True, isDev = ?fs\<rparr>")
  have "sends_to_file \<lparr>isGood = True, isDev = ?fs\<rparr>" using assms(1) [OF Some] by (rule opened_sends)
  from assms(2) [OF this run] have io: "sends_to_file io" "r = Inr 0 \<longrightarrow> isGood io" by simp_all
  have "printer_program sio fopen path body = (r, out, map_option (sFclose sio) (fsFile (isDev io)))"
    using run Some by (simp add: printer_program_def fs_Open_def fs_Close_def)
  then show ?thesis using io
    by (auto simp: run_typed_def well_sent_def reached_def fclose_sent split: option.split)
qed

lemma main_typed:
  assumes "keeps (beside I) m" and "returns (\<lambda>_. True) m (\<lambda>code s. code = (0 :: nat) \<longrightarrow> G (snd s))"
    and "I (snd s)" and "m s = (r, s')"
  shows "I (snd s') \<and> (r = Inr 0 \<longrightarrow> G (snd s'))"
  using keepsD [OF assms(1) _ assms(4)] assms(3) returnsD [OF assms(2), of s 0 s'] assms(4) by (auto simp: beside_def)

lemma getstatus_typed:
  assumes "sends_to_file io" and "getstatus_main (file_ops sio) ([], io) = (r, out, io')"
  shows "sends_to_file io' \<and> (r = Inr 0 \<longrightarrow> isGood io')"
  using main_typed [OF buffered.keeps_getstatus getstatus_good [unfolded beside_def] _ assms(2)] assms(1) by simp

lemma printerinfo_typed:
  assumes "sends_to_file io" and "printerinfo_main (file_ops sio) ([], io) = (r, out, io')"
  shows "sends_to_file io' \<and> (r = Inr 0 \<longrightarrow> isGood io')"
  using main_typed [OF buffered.keeps_printerinfo printerinfo_good [unfolded beside_def] _ assms(2)] assms(1) by simp

lemma print_file_typed:
  assumes "sends_to_file (prStream w)" and "print_file (file_ops sio) stopToken uninit (pbm, w) = (r, pbm', w')"
  shows "sends_to_file (prStream w') \<and> (r = Inr 0 \<longrightarrow> isGood (prStream w'))"
  using main_typed [OF buffered.keeps_print_file print_file_good _ assms(2)] assms(1) by (simp add: through_def)

end

subsection \<open>Properties\<close>

text \<open>
C4. Only commands are sent. Whatever the printer answers, whatever the files and the arguments are,
however reading, writing and flushing fail, and however a program ends - with any exit code,
an exception, a failed assertion or no end at all - the bytes each of the three programs has written to
the device are commands of the protocol one after the other, each a packet with the payload
size its opcode has; only the last can be cut off. When a program ends with exit
code 0, not even that: everything has been written.
\<close>

theorem commands_only:
  assumes "file_sink sio fsent" and "\<And>path mode f. fopen path mode = Some f \<Longrightarrow> fsent f = []"
  shows "run_typed fsent (getstatus_program sio fopen argv) \<and>
    run_typed fsent (printerinfo_program sio fopen argv) \<and>
    run_typed fsent (printpbm_program sio fopen pbmOpen stops uninit argv)"
proof (intro conjI)
  note program = file_sink.program_typed [OF assms(1)]
  show "run_typed fsent (getstatus_program sio fopen argv)"
    unfolding getstatus_program_def
    by (rule usage_or_typed, rule program, erule assms(2), rule file_sink.getstatus_typed [OF assms(1)])
  show "run_typed fsent (printerinfo_program sio fopen argv)"
    unfolding printerinfo_program_def
    by (rule usage_or_typed, rule program, erule assms(2), rule file_sink.printerinfo_typed [OF assms(1)])
  show "run_typed fsent (printpbm_program sio fopen pbmOpen stops uninit argv)"
  proof (cases "length argv = 3")
    case True
    let ?w = "\<lambda>io. \<lparr>prStream = io, cachedInfo = None, stopAfter = stops, console = []\<rparr>"
    have printed: "well_sent (file_sink.taken fsent) (file_sink.reached fsent) (prStream w') \<and> (r = Inr 0 \<longrightarrow> isGood (prStream w'))"
      if "well_sent (file_sink.taken fsent) (file_sink.reached fsent) io"
        "print_file (file_ops sio) StopSource uninit (pbm, ?w io) = (r, pbm', w')" for io pbm r pbm' w'
      using file_sink.print_file_typed [OF assms(1) _ that(2)] that(1) by simp
    show ?thesis
      unfolding printpbm_program_def using True
      by (auto intro!: program assms(2) split: option.splits prod.splits dest: printed)
  qed (simp add: printpbm_program_def usage_typed)
qed

theorem commands_only_witness:
  "\<forall>respond. run_typed simSent (getstatus_program (sim_stdio respond) (\<lambda>_ _. Some (isDev new_sim)) [''getstatus'', ''/dev/usb/lp0'']) \<and>
     run_typed simSent (printpbm_program (sim_stdio respond) (\<lambda>_ _. Some (isDev new_sim)) (\<lambda>_. Some [1, 2, 3]) (Some 7)
       dummyParams [''printpbm'', ''/dev/usb/lp0'', ''page.pbm''])"
proof
  fix respond
  show "run_typed simSent (getstatus_program (sim_stdio respond) (\<lambda>_ _. Some (isDev new_sim)) [''getstatus'', ''/dev/usb/lp0'']) \<and>
     run_typed simSent (printpbm_program (sim_stdio respond) (\<lambda>_ _. Some (isDev new_sim)) (\<lambda>_. Some [1, 2, 3]) (Some 7)
       dummyParams [''printpbm'', ''/dev/usb/lp0'', ''page.pbm''])"
    using commands_only [OF sim_file_sink.file_sink_axioms [of respond], of "\<lambda>_ _. Some (isDev new_sim)"]
    by (simp add: new_sim_def)
qed



end
